(* ===== verification/Prelude.thy ===== *)
theory Prelude
  imports Main "HOL-Library.Word" "HOL-Library.Monad_Syntax"
begin

text \<open>
  What every theory of the development shares: the C integer types and their
  conversions, arrays with their bounds, the fault monad, and the collections of
  rewrite rules the component proofs use.

  The program is C. A call whose behaviour the C standard leaves undefined (an access
  past the end of an array, a dereferenced null pointer, a signed overflow, a division
  by zero, a use of an indeterminate value) has the value \<open>None\<close>; every other call has
  the value \<open>Some r\<close>. A theorem that an operation returns \<open>Some r\<close> is therefore also a
  memory-safety theorem. Return codes of the program (\<open>0\<close>, \<open>-1\<close>, \<open>-2\<close>, \<open>-3\<close>) are
  ordinary values inside \<open>Some\<close>.
\<close>

named_theorems conv_simps \<open>unfolding of the C integer conversions\<close>
named_theorems arr_simps \<open>bounded array access\<close>

unbundle bit_operations_syntax

section \<open>C integer types\<close>

type_synonym u8 = "8 word"
type_synonym u32 = "32 word"
type_synonym ulong = "64 word"

text \<open>
  A C \<open>int\<close> is an \<open>int\<close> of HOL in the range of 32 bits; \<open>uint32_t\<close> and
  \<open>unsigned long\<close> are words. The conversions are the ones of the compiler the program
  is built with: to a signed type modulo \<open>2 ^ 32\<close>, to an unsigned type modulo its width.
\<close>

definition int_of_u32 :: "u32 \<Rightarrow> int" where
  [conv_simps]: "int_of_u32 w = sint w"

definition int_of_ulong :: "ulong \<Rightarrow> int" where
  [conv_simps]: "int_of_ulong w = sint (ucast w :: u32)"

definition u32_of_int :: "int \<Rightarrow> u32" where
  [conv_simps]: "u32_of_int i = word_of_int i"

definition ulong_of_int :: "int \<Rightarrow> ulong" where
  [conv_simps]: "ulong_of_int i = word_of_int i"

definition char_of_u32 :: "u32 \<Rightarrow> u8" where
  [conv_simps]: "char_of_u32 w = ucast w"

text \<open>Signed overflow is undefined: the value of an \<open>int\<close> expression is checked.\<close>

definition chk_int :: "int \<Rightarrow> int option" where
  "chk_int i = (if - (2 ^ 31) \<le> i \<and> i < 2 ^ 31 then Some i else None)"

text \<open>Integer division of C rounds towards zero.\<close>

definition c_div :: "int \<Rightarrow> int \<Rightarrow> int" where
  "c_div a b = sgn a * sgn b * (\<bar>a\<bar> div \<bar>b\<bar>)"

lemma c_div_pos [simp]: "0 \<le> a \<Longrightarrow> 0 < b \<Longrightarrow> c_div a b = a div b"
  by (cases "a = 0") (simp_all add: c_div_def)

lemma chk_int_Some [simp]: "- (2 ^ 31) \<le> i \<Longrightarrow> i < 2 ^ 31 \<Longrightarrow> chk_int i = Some i"
  by (simp add: chk_int_def)

section \<open>Faults\<close>

definition require :: "bool \<Rightarrow> unit option" where
  "require b = (if b then Some () else None)"

lemma require_True [simp]: "require True = Some ()"
  and require_False [simp]: "require False = None"
  by (simp_all add: require_def)

lemma require_eq_Some [simp]: "require b = Some u \<longleftrightarrow> b"
  by (simp add: require_def)

lemmas bind_Some_iff = Option.bind_eq_Some_conv

section \<open>Arrays\<close>

text \<open>
  A large array (the storage of a device, a page table directory) is a function from
  the index together with its number of elements, which lives beside it; a small one
  (the symbol table of a process, the slots of a queue) is a list. Reads and writes
  check the bounds.
\<close>

definition arr_get :: "int \<Rightarrow> (nat \<Rightarrow> 'a) \<Rightarrow> int \<Rightarrow> 'a option" where
  "arr_get n a i = (if 0 \<le> i \<and> i < n then Some (a (nat i)) else None)"

definition arr_set :: "int \<Rightarrow> (nat \<Rightarrow> 'a) \<Rightarrow> int \<Rightarrow> 'a \<Rightarrow> (nat \<Rightarrow> 'a) option" where
  "arr_set n a i v = (if 0 \<le> i \<and> i < n then Some (a(nat i := v)) else None)"

definition list_get :: "'a list \<Rightarrow> int \<Rightarrow> 'a option" where
  "list_get xs i = (if 0 \<le> i \<and> i < int (length xs) then Some (xs ! nat i) else None)"

definition list_set :: "'a list \<Rightarrow> int \<Rightarrow> 'a \<Rightarrow> 'a list option" where
  "list_set xs i v = (if 0 \<le> i \<and> i < int (length xs) then Some (xs[nat i := v]) else None)"

lemma arr_get_in [arr_simps]: "0 \<le> i \<Longrightarrow> i < n \<Longrightarrow> arr_get n a i = Some (a (nat i))"
  by (simp add: arr_get_def)

lemma arr_set_in [arr_simps]: "0 \<le> i \<Longrightarrow> i < n \<Longrightarrow> arr_set n a i v = Some (a(nat i := v))"
  by (simp add: arr_set_def)

lemma list_get_in [arr_simps]:
  "0 \<le> i \<Longrightarrow> i < int (length xs) \<Longrightarrow> list_get xs i = Some (xs ! nat i)"
  by (simp add: list_get_def)

lemma list_set_in [arr_simps]:
  "0 \<le> i \<Longrightarrow> i < int (length xs) \<Longrightarrow> list_set xs i v = Some (xs[nat i := v])"
  by (simp add: list_set_def)

lemma arr_get_eq_Some: "arr_get n a i = Some v \<longleftrightarrow> 0 \<le> i \<and> i < n \<and> v = a (nat i)"
  by (auto simp: arr_get_def)

lemma arr_set_eq_Some: "arr_set n a i v = Some b \<longleftrightarrow> 0 \<le> i \<and> i < n \<and> b = a(nat i := v)"
  by (auto simp: arr_set_def)

lemma list_get_eq_Some:
  "list_get xs i = Some v \<longleftrightarrow> 0 \<le> i \<and> i < int (length xs) \<and> v = xs ! nat i"
  by (auto simp: list_get_def)

lemma list_set_eq_Some:
  "list_set xs i v = Some ys \<longleftrightarrow> 0 \<le> i \<and> i < int (length xs) \<and> ys = xs[nat i := v]"
  by (auto simp: list_set_def)

section \<open>Lists\<close>

lemma take_Suc_update: "n < length xs \<Longrightarrow> take (Suc n) (xs[n := x]) = take n xs @ [x]"
  by (simp add: take_Suc_conv_app_nth)

lemma sum_list_map_update:
  fixes f :: "'a \<Rightarrow> int"
  shows "i < length xs \<Longrightarrow>
    (\<Sum>x\<leftarrow>xs[i := y]. f x) = (\<Sum>x\<leftarrow>xs. f x) - f (xs ! i) + f y"
  by (induction xs arbitrary: i) (auto split: nat.splits)

lemma sum_list_map_const:
  "(\<And>x. x \<in> set xs \<Longrightarrow> f x = (0::int)) \<Longrightarrow> (\<Sum>x\<leftarrow>xs. f x) = 0"
  by (induction xs) auto

lemma sum_list_nonneg_zero_iff:
  fixes f :: "'a \<Rightarrow> int"
  assumes "\<And>x. x \<in> set xs \<Longrightarrow> 0 \<le> f x"
  shows "(\<Sum>x\<leftarrow>xs. f x) = 0 \<longleftrightarrow> (\<forall>x\<in>set xs. f x = 0)"
  using assms
proof (induction xs)
  case (Cons x xs)
  have "0 \<le> (\<Sum>y\<leftarrow>xs. f y)" using Cons.prems by (intro sum_list_nonneg) auto
  moreover have "0 \<le> f x" using Cons.prems by simp
  ultimately have "f x + (\<Sum>y\<leftarrow>xs. f y) = 0 \<longleftrightarrow> f x = 0 \<and> (\<Sum>y\<leftarrow>xs. f y) = 0"
    by linarith
  then show ?case using Cons by simp
qed simp

lemma member_le_sum_list_int:
  fixes f :: "'a \<Rightarrow> int"
  shows "\<lbrakk>x \<in> set xs; \<And>y. 0 \<le> f y\<rbrakk> \<Longrightarrow> f x \<le> (\<Sum>y\<leftarrow>xs. f y)"
proof (induction xs)
  case (Cons a xs)
  have "0 \<le> (\<Sum>y\<leftarrow>xs. f y)" using Cons.prems by (intro sum_list_nonneg) auto
  with Cons show ?case by (auto simp: add_increasing add_increasing2)
qed simp

end
