(* ===== verification/Stdio.thy ===== *)
theory Stdio
  imports Prelude
begin

text \<open>
  What the loader and the configuration reader use of the formatted input of the C
  library. A file is the list of the characters not yet read. A directive \<open>%u\<close>,
  \<open>%d\<close> or \<open>%lu\<close> skips white space and reads an optional sign and the longest run of
  decimal digits; \<open>%s\<close> skips white space and reads the longest run of other characters;
  white space in the format skips white space. When a directive fails, the call ends, and
  the variables of this and the later directives keep their values. Numbers out of range
  saturate at the limits of a 64-bit \<open>long\<close> and are then truncated, as in the GNU library
  the program is built with.
\<close>

section \<open>Characters\<close>

definition isspace :: "char \<Rightarrow> bool" where
  "isspace c \<longleftrightarrow> (of_char c :: nat) = 32 \<or> 9 \<le> (of_char c :: nat) \<and> (of_char c :: nat) \<le> 13"

definition isdigit :: "char \<Rightarrow> bool" where
  "isdigit c \<longleftrightarrow> 48 \<le> (of_char c :: nat) \<and> (of_char c :: nat) \<le> 57"

definition digit_val :: "char \<Rightarrow> nat" where
  "digit_val c = of_char c - 48"

definition digit_char :: "nat \<Rightarrow> char" where
  "digit_char n = char_of (48 + n)"

definition skip_ws :: "string \<Rightarrow> string" where
  "skip_ws s = dropWhile isspace s"

section \<open>Directives\<close>

definition digits_val :: "string \<Rightarrow> nat" where
  "digits_val ds = foldl (\<lambda>a c. 10 * a + digit_val c) 0 ds"

text \<open>The sign and the digits of a number, and the rest of the file.\<close>

definition scan_num :: "string \<Rightarrow> (bool \<times> nat) option \<times> string" where
  "scan_num s =
     (let s1 = skip_ws s;
          sign = (case s1 of c # r \<Rightarrow> c = CHR ''-'' | [] \<Rightarrow> False);
          s2 = (case s1 of c # r \<Rightarrow> if c = CHR ''-'' \<or> c = CHR ''+'' then r else s1 | [] \<Rightarrow> s1);
          ds = takeWhile isdigit s2
      in if ds = [] then (None, s2) else (Some (sign, digits_val ds), dropWhile isdigit s2))"

fun conv_lu :: "bool \<times> nat \<Rightarrow> ulong" where
  "conv_lu (neg, n) = (if n \<ge> 2 ^ 64 then -1 else if neg then - of_nat n else of_nat n)"

definition conv_u :: "bool \<times> nat \<Rightarrow> u32" where
  "conv_u x = ucast (conv_lu x)"

fun conv_d :: "bool \<times> nat \<Rightarrow> int" where
  "conv_d (neg, n) = int_of_u32 (word_of_int
     (if neg then max (- (2 ^ 63)) (- int n) else min (2 ^ 63 - 1) (int n)))"

text \<open>Up to \<open>n\<close> numbers: \<open>%u %u %u\<close> and the like.\<close>

fun scan_nums :: "nat \<Rightarrow> string \<Rightarrow> (bool \<times> nat) list \<times> string" where
  "scan_nums 0 s = ([], s)"
| "scan_nums (Suc n) s =
     (case scan_num s of
        (None, s') \<Rightarrow> ([], s')
      | (Some x, s') \<Rightarrow> (case scan_nums n s' of (xs, s'') \<Rightarrow> (x # xs, s'')))"

definition scan_s :: "string \<Rightarrow> string option \<times> string" where
  "scan_s s = (let s1 = skip_ws s; t = takeWhile (\<lambda>c. \<not> isspace c) s1
     in if t = [] then (None, s1) else (Some t, dropWhile (\<lambda>c. \<not> isspace c) s1))"

text \<open>\<open>"%u %u ... \n"\<close>: \<open>n\<close> numbers and, when all were read, the white space after them.\<close>

definition fscanf_nums :: "nat \<Rightarrow> string \<Rightarrow> (bool \<times> nat) list \<times> string" where
  "fscanf_nums n s = (case scan_nums n s of (xs, s') \<Rightarrow> (xs, if length xs = n then skip_ws s' else s'))"

text \<open>A variable after a call that may not have reached it.\<close>

definition got :: "'a list \<Rightarrow> nat \<Rightarrow> 'a \<Rightarrow> 'a" where
  "got xs i v = (if i < length xs then xs ! i else v)"

section \<open>Printing, and reading what was printed\<close>

fun show_nat :: "nat \<Rightarrow> string" where
  "show_nat n = (if n < 10 then [digit_char n] else show_nat (n div 10) @ [digit_char (n mod 10)])"

declare show_nat.simps [simp del]

lemma of_char_digit [simp]: "n < 10 \<Longrightarrow> (of_char (digit_char n) :: nat) = 48 + n"
  by (simp add: digit_char_def)

lemma digit_char_props [simp]:
  "n < 10 \<Longrightarrow> isdigit (digit_char n)" "n < 10 \<Longrightarrow> digit_val (digit_char n) = n"
  by (simp_all add: isdigit_def digit_val_def)

lemma isdigit_not_special: "isdigit c \<Longrightarrow> c \<noteq> CHR ''-'' \<and> c \<noteq> CHR ''+'' \<and> \<not> isspace c"
  by (auto simp: isdigit_def isspace_def)

lemma show_nat_digits: "\<forall>c\<in>set (show_nat n). isdigit c"
proof (induction n rule: show_nat.induct)
  case (1 n)
  then show ?case by (subst show_nat.simps) auto
qed

lemma show_nat_not_Nil [simp]: "show_nat n \<noteq> []"
  by (subst show_nat.simps) simp

lemma digits_val_show: "digits_val (show_nat n) = n"
proof (induction n rule: show_nat.induct)
  case (1 n)
  then show ?case by (subst show_nat.simps) (auto simp: digits_val_def)
qed

text \<open>A rest of a file at which a number ends.\<close>

definition ends_token :: "string \<Rightarrow> bool" where
  "ends_token r \<longleftrightarrow> r = [] \<or> isspace (hd r)"

lemma ends_token_Cons [simp]: "ends_token (c # r) \<longleftrightarrow> isspace c" and ends_token_Nil [simp]: "ends_token []"
  by (simp_all add: ends_token_def)

lemma isspace_chars [simp]: "isspace CHR '' ''" "isspace (CHR 0x0A)"
  by (simp_all add: isspace_def)

lemma skip_ws_all [simp]: "\<forall>c\<in>set w. isspace c \<Longrightarrow> skip_ws (w @ s) = skip_ws s"
  by (simp add: skip_ws_def)

lemma skip_ws_Cons [simp]: "isspace c \<Longrightarrow> skip_ws (c # s) = skip_ws s"
  by (simp add: skip_ws_def)

lemma skip_ws_show [simp]: "skip_ws (show_nat n @ r) = show_nat n @ r"
proof -
  obtain c cs where c: "show_nat n = c # cs" using show_nat_not_Nil by (meson neq_Nil_conv)
  then have "isdigit c" using show_nat_digits [of n] by simp
  with c show ?thesis by (simp add: skip_ws_def isdigit_not_special)
qed

lemma takeWhile_digits: "ends_token r \<Longrightarrow> takeWhile isdigit (show_nat n @ r) = show_nat n"
  and dropWhile_digits: "ends_token r \<Longrightarrow> dropWhile isdigit (show_nat n @ r) = r"
  using show_nat_digits [of n] by (cases r; auto simp: isdigit_not_special dest: isdigit_not_special)+

lemma scan_num_show:
  assumes "ends_token r" "skip_ws s = show_nat n @ r"
  shows "scan_num s = (Some (False, n), r)"
proof -
  obtain c cs where c: "show_nat n = c # cs" using show_nat_not_Nil by (meson neq_Nil_conv)
  then have "isdigit c" using show_nat_digits [of n] by simp
  then have "c \<noteq> CHR ''-''" "c \<noteq> CHR ''+''" by (simp_all add: isdigit_not_special)
  with c assms takeWhile_digits [of r n] dropWhile_digits [of r n] digits_val_show [of n] show ?thesis
    by (simp add: scan_num_def)
qed

lemma conv_u_show: "n < 2 ^ 32 \<Longrightarrow> conv_u (False, n) = of_nat n"
  unfolding conv_u_def conv_lu.simps by (simp, transfer, simp)

lemma scan_s_token:
  assumes "skip_ws s = t @ r" "t \<noteq> []" "\<forall>c\<in>set t. \<not> isspace c" "ends_token r"
  shows "scan_s s = (Some t, r)"
proof -
  have "takeWhile (\<lambda>c. \<not> isspace c) (t @ r) = t" "dropWhile (\<lambda>c. \<not> isspace c) (t @ r) = r"
    using assms(3,4) by (cases r; simp add: ends_token_def)+
  with assms(1,2) show ?thesis by (simp add: scan_s_def)
qed

lemma scan_s_eof: "skip_ws s = [] \<Longrightarrow> scan_s s = (None, [])"
  by (simp add: scan_s_def)

lemma skip_ws_token [simp]: "t \<noteq> [] \<Longrightarrow> \<forall>c\<in>set t. \<not> isspace c \<Longrightarrow> skip_ws (t @ r) = t @ r"
  by (cases t) (auto simp: skip_ws_def)

end
