(* ===== verification/OS_Types.thy ===== *)
theory OS_Types
  imports Prelude
begin

text \<open>
  The data of the simulator, from \<open>include/common.h\<close>, \<open>include/os-mm.h\<close>,
  \<open>include/queue.h\<close> and the limits of \<open>include/os-cfg.h\<close> and \<open>include/mm.h\<close>.

  Every linked list of the program (free frames, used frames, free regions, the pages
  in FIFO order, the areas of a process) is owned by one list head and none of its
  nodes is reachable from elsewhere, so it is a HOL list. A pointer that may be null
  is an \<open>option\<close>. The locks of a device have no field: every operation takes and
  releases its lock around one access, so an operation is one atomic step.
\<close>

section \<open>Limits\<close>

definition PAGING_PAGESZ :: int where "PAGING_PAGESZ = 256"
definition PAGING_MAX_MMSWP :: int where "PAGING_MAX_MMSWP = 4"
definition PAGING_MAX_SYMTBL_SZ :: int where "PAGING_MAX_SYMTBL_SZ = 30"
definition PAGING_MAX_PGN :: int where "PAGING_MAX_PGN = 16384"
definition MAX_PRIO :: nat where "MAX_PRIO = 140"
definition MAX_QUEUE_SIZE :: nat where "MAX_QUEUE_SIZE = 10"
definition SWPTYP :: int where "SWPTYP = 0"

lemmas limit_defs = PAGING_PAGESZ_def PAGING_MAX_MMSWP_def PAGING_MAX_SYMTBL_SZ_def
  PAGING_MAX_PGN_def SWPTYP_def

text \<open>Error codes of \<open>include/mm.h\<close>; two groups share the same numbers.\<close>

definition ERR_AREA_OVERLAP :: int where "ERR_AREA_OVERLAP = -1"
definition ERR_LACK_MEM_RAM :: int where "ERR_LACK_MEM_RAM = -2"
definition ERR_LACK_MEM_SWP :: int where "ERR_LACK_MEM_SWP = -3"
definition ERR_INVALID_ACCESS :: int where "ERR_INVALID_ACCESS = -1"
definition ERR_SWAPPING :: int where "ERR_SWAPPING = -2"
definition ERR_RW_UNDEFINED :: int where "ERR_RW_UNDEFINED = -3"

lemmas err_defs = ERR_AREA_OVERLAP_def ERR_LACK_MEM_RAM_def ERR_LACK_MEM_SWP_def
  ERR_INVALID_ACCESS_def ERR_SWAPPING_def ERR_RW_UNDEFINED_def

section \<open>Programs\<close>

datatype ins_opcode_t = CALC | ALLOC | FREE | READ | WRITE

record inst_t =
  opcode :: ins_opcode_t
  arg_0 :: u32
  arg_1 :: u32
  arg_2 :: u32

record code_seg_t =
  code_text :: "inst_t list"
  code_size :: u32

section \<open>Memory management data\<close>

record vm_rg_struct =
  rg_start :: ulong
  rg_end :: ulong
  valid :: int

record vm_area_struct =
  vm_id :: ulong
  vm_start :: ulong
  vm_end :: ulong
  sbrk :: ulong
  vm_freerg_list :: "vm_rg_struct list"

text \<open>
  \<open>pgd\<close> is the calloc'ed array of \<open>PAGING_MAX_PGN\<close> page table entries; \<open>symrgtbl\<close>
  has \<open>PAGING_MAX_SYMTBL_SZ\<close> entries; \<open>mmap\<close> is the list through \<open>vm_next\<close>.
\<close>

record mm_struct =
  pgd :: "nat \<Rightarrow> u32"
  mmap :: "vm_area_struct list"
  symrgtbl :: "vm_rg_struct list"
  fifo_using_pgn :: "int list"
  current_max_pgn :: int
  num_of_fifo_using_pgn :: int

record memphy_struct =
  storage :: "nat \<Rightarrow> u8"
  maxsz :: int
  rdmflg :: int
  cursor :: int
  free_fp_list :: "int list"
  num_of_free_frame :: int
  used_fp_list :: "int list"
  num_of_used_frame :: int

section \<open>Processes and queues\<close>

text \<open>
  A process control block owns its \<open>mm\<close> (one is allocated per process by the loader);
  its \<open>mram\<close>, \<open>mswp\<close> and \<open>active_mswp\<close> fields point to the devices all processes
  share, which are part of the machine state and not of the block. The page table of
  the non-paging code is the pair of an index and a count per row.
\<close>

record page_table_t =
  pt_size :: int

record pcb_t =
  pid :: u32
  priority :: u32
  code :: code_seg_t
  pc :: u32
  bp :: u32
  prio :: u32
  mm :: mm_struct
  regs :: "u32 list"
  page_table :: page_table_t

text \<open>
  A queue is an array of \<open>MAX_QUEUE_SIZE\<close> slots, the number of occupied ones and, for
  the multi-level queue, the slot budget. A process control block is held by exactly
  one queue or one CPU at a time and only its holder changes it, so a queue holds the
  block itself and not its address. The queues are static data, so a slot that was never
  written is the null pointer, \<open>None\<close>.
\<close>

record queue_t =
  proc :: "pcb_t option list"
  qsize :: int
  slot :: int

record mlq_t =
  queues :: "queue_t list"
  proc_count :: int
  slot_count :: int

end
