(* ===== verification/Os_Config.thy ===== *)
theory Os_Config
  imports Stdio OS_Types
begin

text \<open>
  The configuration of a run, \<open>read_config\<close> of \<open>src/os.c\<close>. The counters are static
  variables, so a number that cannot be read is 0; the arrays and the name buffer are not
  initialised: a start time or priority that was not read is what the array contained
  (\<open>junk\<close>), a name that was not read or does not fit its buffer is a fault.
\<close>

record os_config =
  time_slot :: int
  num_cpus :: int
  num_processes :: int
  memramsz :: int
  memswpsz :: "int list"
  ld_path :: "string list"
  ld_start :: "ulong list"
  ld_prio :: "ulong list"

datatype config_error = No_Config

text \<open>\<open>"%lu %s %lu\n"\<close> for one process; the path is \<open>"input/proc/"\<close> and the name, in 100 bytes.\<close>

definition read_proc :: "ulong \<Rightarrow> string \<Rightarrow> ((string \<times> ulong \<times> ulong) \<times> string) option" where
  "read_proc junk s =
     (case scan_num s of
        (None, s1) \<Rightarrow> None
      | (Some t, s1) \<Rightarrow>
          (case scan_s s1 of
             (None, s2) \<Rightarrow> None
           | (Some name, s2) \<Rightarrow>
               do { _ \<leftarrow> require (length ''input/proc/'' + length name < 100);
                    (case scan_num s2 of
                       (None, s3) \<Rightarrow> Some ((''input/proc/'' @ name, conv_lu t, junk), s3)
                     | (Some p, s3) \<Rightarrow> Some ((''input/proc/'' @ name, conv_lu t, conv_lu p), skip_ws s3)) }))"

fun read_procs :: "ulong list \<Rightarrow> string \<Rightarrow> (string \<times> ulong \<times> ulong) list option" where
  "read_procs [] s = Some []"
| "read_procs (j # js) s =
     do { (x, s') \<leftarrow> read_proc j s;
          xs \<leftarrow> read_procs js s';
          Some (x # xs) }"

definition read_config :: "(nat \<Rightarrow> ulong) \<Rightarrow> string option \<Rightarrow> (config_error + os_config) option" where
  "read_config junk file =
     (case file of
        None \<Rightarrow> Some (Inl No_Config)
      | Some s \<Rightarrow>
          (case fscanf_nums 3 s of (xs, s1) \<Rightarrow>
           case fscanf_nums 1 s1 of (ys, s2) \<Rightarrow>
           case scan_nums (nat PAGING_MAX_MMSWP) s2 of (zs, s3) \<Rightarrow>
             let n = got (map conv_d xs) 2 0 in
             do { ps \<leftarrow> read_procs (map junk [0..<nat n]) (skip_ws s3);
                  Some (Inr \<lparr>time_slot = got (map conv_d xs) 0 0, num_cpus = got (map conv_d xs) 1 0,
                    num_processes = n, memramsz = got (map conv_d ys) 0 0,
                    memswpsz = map (\<lambda>i. got (map conv_d zs) i 0) [0..<nat PAGING_MAX_MMSWP],
                    ld_path = map fst ps, ld_start = map (fst \<circ> snd) ps, ld_prio = map (snd \<circ> snd) ps\<rparr>) }))"

section \<open>Reading what was printed\<close>

text \<open>The form of the files in \<open>input\<close>: numbers are printed with a space before each.\<close>

definition show_nums :: "nat list \<Rightarrow> string" where
  "show_nums xs = concat (map (\<lambda>x. CHR '' '' # show_nat x) xs)"

definition show_proc :: "string \<times> ulong \<times> ulong \<Rightarrow> string" where
  "show_proc x = show_nums [unat (fst (snd x))] @ CHR '' '' # fst x @ show_nums [unat (snd (snd x))] @ [CHR 0x0A]"

definition show_config :: "nat list \<Rightarrow> nat list \<Rightarrow> (string \<times> ulong \<times> ulong) list \<Rightarrow> string" where
  "show_config h mem ps = show_nums h @ CHR 0x0A # show_nums mem @ CHR 0x0A # concat (map show_proc ps)"

definition legal_name :: "string \<Rightarrow> bool" where
  "legal_name t \<longleftrightarrow> t \<noteq> [] \<and> (\<forall>c\<in>set t. \<not> isspace c) \<and> length t < 89"

lemma ends_show_nums [simp]: "ends_token r \<Longrightarrow> ends_token (show_nums xs @ r)"
  by (cases xs) (simp_all add: show_nums_def)

lemma scan_nums_prefix:
  assumes "ends_token r"
  shows "scan_nums (length xs) (show_nums (xs @ ys) @ r) = (map (\<lambda>x. (False, x)) xs, show_nums ys @ r)"
  using assms
proof (induction xs)
  case (Cons x xs)
  have "scan_num (show_nums ((x # xs) @ ys) @ r) = (Some (False, x), show_nums (xs @ ys) @ r)"
    by (rule scan_num_show) (simp_all add: Cons.prems, simp add: show_nums_def)
  with Cons show ?case by simp
qed simp

lemma conv_d_small: "n < 2 ^ 31 \<Longrightarrow> conv_d (False, n) = int n"
proof -
  assume n: "n < 2 ^ 31"
  then have "min (2 ^ 63 - 1) (int n) = int n" by simp
  moreover have "signed_take_bit 31 (int n) = int n" using n by (intro signed_take_bit_int_eq_self) simp_all
  ultimately show ?thesis by (simp add: int_of_u32_def signed_of_nat)
qed

lemma conv_lu_unat: "conv_lu (False, unat x) = x"
proof -
  have "unat x < 2 ^ 64" using unsigned_less [of x, where ?'a = nat] by simp
  then show ?thesis by simp
qed

lemma read_proc_show:
  assumes "legal_name (fst x)" "skip_ws s = skip_ws (show_proc x @ r)"
  shows "\<exists>s'. read_proc junk s = Some ((''input/proc/'' @ fst x, snd x), s') \<and> skip_ws s' = skip_ws r"
proof -
  obtain t a p where x: "x = (t, a, p)" by (cases x) auto
  have t: "t \<noteq> []" "\<forall>c\<in>set t. \<not> isspace c" "length t < 89" using assms(1) by (simp_all add: x legal_name_def)
  let ?q = "show_nums [unat p] @ CHR 0x0A # r"
  have "skip_ws s = show_nat (unat a) @ CHR '' '' # t @ ?q" using assms(2) by (simp add: x show_proc_def show_nums_def)
  then have 1: "scan_num s = (Some (False, unat a), CHR '' '' # t @ ?q)" by (intro scan_num_show) simp_all
  have 2: "scan_s (CHR '' '' # t @ ?q) = (Some t, ?q)" using t by (intro scan_s_token) simp_all
  have 3: "scan_num ?q = (Some (False, unat p), CHR 0x0A # r)" by (rule scan_num_show) (simp_all add: show_nums_def)
  have "skip_ws (skip_ws r) = skip_ws r" by (simp add: skip_ws_def)
  with 1 2 3 t(3) show ?thesis by (simp add: read_proc_def x conv_lu_unat del: conv_lu.simps)
qed

lemma read_procs_show:
  assumes "\<forall>x\<in>set ps. legal_name (fst x)" "length js = length ps" "skip_ws s = skip_ws (concat (map show_proc ps))"
  shows "read_procs js s = Some (map (\<lambda>x. (''input/proc/'' @ fst x, snd x)) ps)"
  using assms
proof (induction js arbitrary: s ps)
  case (Cons j js)
  then obtain x ps' where ps: "ps = x # ps'" "length js = length ps'" by (cases ps) auto
  obtain s' where "read_proc j s = Some ((''input/proc/'' @ fst x, snd x), s')" "skip_ws s' = skip_ws (concat (map show_proc ps'))"
    using read_proc_show [of x s "concat (map show_proc ps')" j] Cons.prems ps by auto
  with Cons.IH [OF _ ps(2), of s'] Cons.prems ps(1) show ?case by simp
qed simp

text \<open>
  C27: reading a configuration file gives back what it says: the time slot, the numbers of
  processors and processes, the sizes of the memories and, for each process, its path,
  start time and priority.
\<close>

theorem read_config_roundtrip:
  assumes "length h = 3" and "\<forall>x\<in>set h. x < 2 ^ 31" and "h ! 2 = length ps"
    and "length mem = 5" and "\<forall>x\<in>set mem. x < 2 ^ 31" and "\<forall>x\<in>set ps. legal_name (fst x)"
  shows "read_config junk (Some (show_config h mem ps)) = Some (Inr \<lparr>time_slot = int (h ! 0),
    num_cpus = int (h ! 1), num_processes = int (length ps), memramsz = int (mem ! 0),
    memswpsz = map int (tl mem), ld_path = map (\<lambda>x. ''input/proc/'' @ fst x) ps,
    ld_start = map (fst \<circ> snd) ps, ld_prio = map (snd \<circ> snd) ps\<rparr>)"
proof -
  let ?w = "concat (map show_proc ps)" let ?m = "show_nums mem @ CHR 0x0A # ?w"
  obtain a b c where h: "h = [a, b, c]" using assms(1) by (auto simp: length_Suc_conv numeral_eq_Suc)
  obtain m m1 m2 m3 m4 where mem: "mem = [m, m1, m2, m3, m4]" using assms(4) by (auto simp: length_Suc_conv numeral_eq_Suc)
  have 1: "scan_nums 3 (show_config h mem ps) = (map (\<lambda>x. (False, x)) h, CHR 0x0A # ?m)"
    using scan_nums_prefix [of "CHR 0x0A # ?m" h "[]"] assms(1) by (simp add: show_config_def show_nums_def)
  let ?t = "show_nums (tl mem) @ CHR 0x0A # ?w"
  have "skip_ws (CHR 0x0A # ?m) = show_nat m @ ?t" by (simp add: mem show_nums_def)
  then have 2: "scan_nums 1 (skip_ws (CHR 0x0A # ?m)) = ([(False, m)], ?t)"
    using scan_num_show [of ?t "skip_ws (CHR 0x0A # ?m)" m] by (simp add: skip_ws_def mem show_nums_def)
  have "skip_ws ?t = show_nat m1 @ show_nums [m2, m3, m4] @ CHR 0x0A # ?w" by (simp add: mem show_nums_def)
  then have "scan_num (skip_ws ?t) = (Some (False, m1), show_nums [m2, m3, m4] @ CHR 0x0A # ?w)"
    by (intro scan_num_show) simp_all
  then have 3: "scan_nums 4 (skip_ws ?t) = (map (\<lambda>x. (False, x)) (tl mem), CHR 0x0A # ?w)"
    using scan_nums_prefix [of "CHR 0x0A # ?w" "[m2, m3, m4]" "[]"] by (simp add: numeral_eq_Suc mem show_nums_def)
  have 4: "read_procs (map junk [0..<length ps]) (skip_ws (CHR 0x0A # ?w)) = Some (map (\<lambda>x. (''input/proc/'' @ fst x, snd x)) ps)"
    using assms(6) by (intro read_procs_show) (simp_all add: skip_ws_def)
  have 5: "fscanf_nums 3 (show_config h mem ps) = (map (\<lambda>x. (False, x)) h, skip_ws (CHR 0x0A # ?m))"
    unfolding fscanf_nums_def 1 by (simp add: assms(1))
  have 6: "fscanf_nums 1 (skip_ws (CHR 0x0A # ?m)) = ([(False, m)], skip_ws ?t)"
    unfolding fscanf_nums_def 2 by simp
  have hs: "map conv_d (map (\<lambda>x. (False, x)) h) = [int a, int b, int (length ps)]" "int (h ! 0) = int a" "int (h ! 1) = int b"
    using assms(2,3) by (simp_all add: h conv_d_small del: conv_d.simps)
  have four_upt: "[0..<4] = [0, 1, 2, 3::nat]" by (simp add: upt_rec)
  have cs: "conv_d (False, m) = int m" "map conv_d (map (\<lambda>x. (False, x)) (tl mem)) = map int (tl mem)"
    using assms(5) by (simp_all add: mem conv_d_small del: conv_d.simps)
  have ms: "map conv_d [(False, m)] = [int m]" "int (mem ! 0) = int m"
    "map (\<lambda>i. got (map conv_d (map (\<lambda>x. (False, x)) (tl mem))) i 0) [0..<4] = map int (tl mem)"
    unfolding cs four_upt by (simp_all add: cs mem got_def del: conv_d.simps)
  have four: "nat PAGING_MAX_MMSWP = 4" by (simp add: PAGING_MAX_MMSWP_def)
  show ?thesis
    unfolding read_config_def option.case 5 6 prod.case four 3 Let_def hs ms
    using 4 by (simp add: got_def comp_def)
qed

theorem read_config_roundtrip_witness:
  "read_config (\<lambda>_. 9) (Some (show_config [2, 4, 1] [1048576, 16777216, 0, 0, 0] [(''p0s'', 1, 130)]))
    = Some (Inr \<lparr>time_slot = 2, num_cpus = 4, num_processes = 1, memramsz = 1048576,
        memswpsz = [16777216, 0, 0, 0], ld_path = [''input/proc/p0s''], ld_start = [1], ld_prio = [130]\<rparr>)"
  by (subst read_config_roundtrip) (simp_all add: legal_name_def isspace_def)

end
