(* ===== verification/Bitops.thy ===== *)
theory Bitops
  imports OS_Types
begin

text \<open>
  The bit macros of \<open>include/bitops.h\<close>, the address and page-table-entry macros of
  \<open>include/mm.h\<close> and the three entry constructors of \<open>src/mm.c\<close>. Entries and
  addresses are 32-bit words; the masks are computed by the macros as in the source.
\<close>

section \<open>include/bitops.h\<close>

definition BIT :: "nat \<Rightarrow> u32" where
  "BIT nr = push_bit nr 1"

definition DIV_ROUND_UP :: "int \<Rightarrow> int \<Rightarrow> int" where
  "DIV_ROUND_UP n d = c_div (n + d - 1) d"

definition BITS_PER_LONG :: nat where "BITS_PER_LONG = 32"

definition GENMASK :: "nat \<Rightarrow> nat \<Rightarrow> u32" where
  "GENMASK h l = push_bit l (NOT 0) AND drop_bit (BITS_PER_LONG - h - 1) (NOT 0)"

definition NBITS2 :: "u32 \<Rightarrow> nat" where
  "NBITS2 n = (if n AND 2 \<noteq> 0 then 1 else 0)"

definition NBITS4 :: "u32 \<Rightarrow> nat" where
  "NBITS4 n = (if n AND 0xC \<noteq> 0 then 2 + NBITS2 (drop_bit 2 n) else NBITS2 n)"

definition NBITS8 :: "u32 \<Rightarrow> nat" where
  "NBITS8 n = (if n AND 0xF0 \<noteq> 0 then 4 + NBITS4 (drop_bit 4 n) else NBITS4 n)"

definition NBITS16 :: "u32 \<Rightarrow> nat" where
  "NBITS16 n = (if n AND 0xFF00 \<noteq> 0 then 8 + NBITS8 (drop_bit 8 n) else NBITS8 n)"

definition NBITS32 :: "u32 \<Rightarrow> nat" where
  "NBITS32 n = (if n AND 0xFFFF0000 \<noteq> 0 then 16 + NBITS16 (drop_bit 16 n) else NBITS16 n)"

definition NBITS :: "u32 \<Rightarrow> nat" where
  "NBITS n = (if n = 0 then 0 else NBITS32 n)"

lemmas nbits_defs = NBITS_def NBITS32_def NBITS16_def NBITS8_def NBITS4_def NBITS2_def

lemma bit_GENMASK [simp]:
  "h < 32 \<Longrightarrow> bit (GENMASK h l) n \<longleftrightarrow> l \<le> n \<and> n \<le> h"
  by (auto simp: GENMASK_def BITS_PER_LONG_def bit_simps)

lemma bit_BIT [simp]: "bit (BIT nr) n \<longleftrightarrow> n = nr \<and> nr < 32"
  by (auto simp: BIT_def bit_simps)

section \<open>include/mm.h: masks and fields\<close>

definition PAGING_CPU_BUS_WIDTH :: nat where "PAGING_CPU_BUS_WIDTH = 22"
definition PAGING_MEMRAMSZ :: u32 where "PAGING_MEMRAMSZ = BIT 10"

definition PAGING_PTE_PRESENT_MASK :: u32 where "PAGING_PTE_PRESENT_MASK = BIT 31"
definition PAGING_PTE_SWAPPED_MASK :: u32 where "PAGING_PTE_SWAPPED_MASK = BIT 30"
definition PAGING_PTE_DIRTY_MASK :: u32 where "PAGING_PTE_DIRTY_MASK = BIT 28"
definition PAGING_PTE_FPN_MASK :: u32 where "PAGING_PTE_FPN_MASK = GENMASK 12 0"
definition PAGING_PTE_SWPTYP_MASK :: u32 where "PAGING_PTE_SWPTYP_MASK = GENMASK 4 0"
definition PAGING_PTE_SWPOFF_MASK :: u32 where "PAGING_PTE_SWPOFF_MASK = GENMASK 25 5"

definition PAGING_OFFST_MASK :: u32 where
  "PAGING_OFFST_MASK = GENMASK (NBITS (u32_of_int PAGING_PAGESZ) - 1) 0"

definition PAGING_PGN_MASK :: u32 where
  "PAGING_PGN_MASK = GENMASK (PAGING_CPU_BUS_WIDTH - 1) (NBITS (u32_of_int PAGING_PAGESZ))"

definition PAGING_FPN_MASK :: u32 where
  "PAGING_FPN_MASK = GENMASK (NBITS PAGING_MEMRAMSZ - 1) 0"

definition PAGING_SWPFPN_MASK :: u32 where
  "PAGING_SWPFPN_MASK = GENMASK 25 5"

lemmas mask_defs = PAGING_PTE_PRESENT_MASK_def PAGING_PTE_SWAPPED_MASK_def
  PAGING_PTE_DIRTY_MASK_def PAGING_PTE_FPN_MASK_def PAGING_PTE_SWPTYP_MASK_def
  PAGING_PTE_SWPOFF_MASK_def PAGING_SWPFPN_MASK_def

definition SETBIT :: "u32 \<Rightarrow> u32 \<Rightarrow> u32" where
  "SETBIT v m = v OR m"

definition CLRBIT :: "u32 \<Rightarrow> u32 \<Rightarrow> u32" where
  "CLRBIT v m = v AND NOT m"

definition SETVAL :: "u32 \<Rightarrow> int \<Rightarrow> u32 \<Rightarrow> nat \<Rightarrow> u32" where
  "SETVAL v value m offst =
     (v AND NOT m) OR (push_bit offst (u32_of_int value) AND m)"

definition GETVAL :: "u32 \<Rightarrow> u32 \<Rightarrow> nat \<Rightarrow> u32" where
  "GETVAL v m offst = drop_bit offst (v AND m)"

lemmas field_ops = SETBIT_def CLRBIT_def SETVAL_def GETVAL_def

definition PAGING_PAGE_PRESENT :: "u32 \<Rightarrow> bool" where
  "PAGING_PAGE_PRESENT pte \<longleftrightarrow> pte AND PAGING_PTE_PRESENT_MASK \<noteq> 0"

definition PAGING_OFFST :: "u32 \<Rightarrow> u32" where
  "PAGING_OFFST x = GETVAL x PAGING_OFFST_MASK 0"

definition PAGING_PGN :: "u32 \<Rightarrow> u32" where
  "PAGING_PGN x = GETVAL x PAGING_PGN_MASK (NBITS (u32_of_int PAGING_PAGESZ))"

definition PAGING_FPN :: "u32 \<Rightarrow> u32" where
  "PAGING_FPN x = GETVAL x PAGING_FPN_MASK 0"

definition PAGING_SWAPFPN :: "u32 \<Rightarrow> u32" where
  "PAGING_SWAPFPN x = GETVAL x PAGING_SWPFPN_MASK 5"

text \<open>\<open>PAGING_PAGE_ALIGNSZ\<close>: the sum inside \<open>DIV_ROUND_UP\<close> can overflow an \<open>int\<close>.\<close>

definition PAGING_PAGE_ALIGNSZ :: "int \<Rightarrow> int option" where
  "PAGING_PAGE_ALIGNSZ sz =
     do { _ \<leftarrow> chk_int (sz + PAGING_PAGESZ);
          Some (DIV_ROUND_UP sz PAGING_PAGESZ * PAGING_PAGESZ) }"

text \<open>The range operators, which no function of the program uses.\<close>

definition INCLUDE :: "int \<Rightarrow> int \<Rightarrow> int \<Rightarrow> int \<Rightarrow> int" where
  "INCLUDE x1 x2 y1 y2 = (if (y1 - x1) * (x2 - y2) \<ge> 0 then 1 else 0)"

definition OVERLAP :: "int \<Rightarrow> int \<Rightarrow> int \<Rightarrow> int \<Rightarrow> int" where
  "OVERLAP x1 x2 y1 y2 = (if (y2 - x1) * (x2 - y1) \<ge> 0 then 1 else 0)"

lemma OVERLAP_iff:
  assumes "x1 \<le> x2" "y1 \<le> y2"
  shows "OVERLAP x1 x2 y1 y2 = 1 \<longleftrightarrow> x1 \<le> y2 \<and> y1 \<le> x2"
  using assms by (auto simp: OVERLAP_def zero_le_mult_iff)

lemma INCLUDE_iff:
  "INCLUDE x1 x2 y1 y2 = 1 \<longleftrightarrow> (x1 \<le> y1 \<and> y2 \<le> x2) \<or> (y1 \<le> x1 \<and> x2 \<le> y2)"
  by (auto simp: INCLUDE_def zero_le_mult_iff)

section \<open>src/mm.c: page table entries\<close>

definition init_pte :: "u32 \<Rightarrow> int \<Rightarrow> int \<Rightarrow> int \<Rightarrow> int \<Rightarrow> int \<Rightarrow> int \<Rightarrow> int \<times> u32" where
  "init_pte pte pre fpn drt swp swptyp swpoff =
     (if pre \<noteq> 0 then
        if swp = 0 then
          if fpn = 0 then (-1, pte)
          else
            let p1 = SETBIT pte PAGING_PTE_PRESENT_MASK;
                p2 = CLRBIT p1 PAGING_PTE_SWAPPED_MASK;
                p3 = CLRBIT p2 PAGING_PTE_DIRTY_MASK
            in (0, SETVAL p3 fpn PAGING_PTE_FPN_MASK 0)
        else
          let p1 = SETBIT pte PAGING_PTE_PRESENT_MASK;
              p2 = SETBIT p1 PAGING_PTE_SWAPPED_MASK;
              p3 = CLRBIT p2 PAGING_PTE_DIRTY_MASK;
              p4 = SETVAL p3 swptyp PAGING_PTE_SWPTYP_MASK 0
          in (0, SETVAL p4 swpoff PAGING_PTE_SWPOFF_MASK 5)
      else (0, pte))"

definition pte_set_swap :: "u32 \<Rightarrow> int \<Rightarrow> int \<Rightarrow> u32" where
  "pte_set_swap pte swptyp swpoff =
     (let p1 = CLRBIT pte PAGING_PTE_PRESENT_MASK;
          p2 = SETBIT p1 PAGING_PTE_SWAPPED_MASK;
          p3 = SETVAL p2 swptyp PAGING_PTE_SWPTYP_MASK 0
      in SETVAL p3 swpoff PAGING_PTE_SWPOFF_MASK 5)"

definition pte_set_fpn :: "u32 \<Rightarrow> int \<Rightarrow> u32" where
  "pte_set_fpn pte fpn =
     (let p1 = SETBIT pte PAGING_PTE_PRESENT_MASK;
          p2 = CLRBIT p1 PAGING_PTE_SWAPPED_MASK
      in SETVAL p2 fpn PAGING_PTE_FPN_MASK 0)"

text \<open>The entry \<open>vmap_page_range\<close> builds for a frame it maps.\<close>

definition vmap_pte :: "int \<Rightarrow> u32" where
  "vmap_pte fpn =
     (let user_define_number = 0; frame_number = u32_of_int fpn in
      push_bit 31 1 OR push_bit 30 0 OR push_bit 29 0 OR push_bit 28 0
        OR push_bit 15 user_define_number OR push_bit 0 frame_number)"

section \<open>Facts about fields\<close>

lemma NBITS_PAGESZ [simp]: "NBITS (u32_of_int PAGING_PAGESZ) = 8"
  by (simp add: nbits_defs u32_of_int_def PAGING_PAGESZ_def)

lemma NBITS_MEMRAMSZ [simp]: "NBITS PAGING_MEMRAMSZ = 10"
  by (simp add: nbits_defs PAGING_MEMRAMSZ_def BIT_def)

text \<open>
  What each extraction reads: the frame number is the low 10 bits of an entry although
  an entry keeps 13; the page number is 14 bits of an address above the 8 of the offset.
\<close>

lemma PAGING_FPN_eq: "PAGING_FPN x = take_bit 10 x"
  by (rule bit_word_eqI) (auto simp: PAGING_FPN_def PAGING_FPN_MASK_def field_ops bit_simps)

lemma PAGING_OFFST_eq: "PAGING_OFFST x = take_bit 8 x"
  by (rule bit_word_eqI) (auto simp: PAGING_OFFST_def PAGING_OFFST_MASK_def field_ops bit_simps)

lemma PAGING_PGN_eq: "PAGING_PGN x = take_bit 14 (drop_bit 8 x)"
  by (rule bit_word_eqI)
    (auto simp: PAGING_PGN_def PAGING_PGN_MASK_def PAGING_CPU_BUS_WIDTH_def field_ops bit_simps)

lemma PAGING_SWAPFPN_eq: "PAGING_SWAPFPN x = take_bit 21 (drop_bit 5 x)"
  by (rule bit_word_eqI)
    (auto simp: PAGING_SWAPFPN_def PAGING_SWPFPN_MASK_def field_ops bit_simps)

lemma PAGE_PRESENT_bit: "PAGING_PAGE_PRESENT p \<longleftrightarrow> bit p 31"
  by (simp add: PAGING_PAGE_PRESENT_def PAGING_PTE_PRESENT_MASK_def BIT_def
      bit_iff_and_push_bit_not_eq_0)

lemma uint_FPN_lt: "uint (PAGING_FPN x) < 1024"
  using take_bit_int_less_exp [of 10 "uint x"]
  by (simp add: PAGING_FPN_eq unsigned_take_bit_eq)

lemma uint_PGN_lt: "uint (PAGING_PGN x) < 16384"
  using take_bit_int_less_exp [of 14 "uint (drop_bit 8 x)"]
  by (simp add: PAGING_PGN_eq unsigned_take_bit_eq)

lemma uint_OFFST_lt: "uint (PAGING_OFFST x) < 256"
  using take_bit_int_less_exp [of 8 "uint x"]
  by (simp add: PAGING_OFFST_eq unsigned_take_bit_eq)

text \<open>Page number and offset as arithmetic on a small address.\<close>

lemma uint_PGN: "uint (PAGING_PGN x) = uint x div 256 mod 16384"
  using uint_lt2p [of x]
  unfolding PAGING_PGN_eq unsigned_take_bit_eq unsigned_drop_bit_eq
  by (simp add: take_bit_eq_mod drop_bit_eq_div)

lemma uint_OFFST: "uint (PAGING_OFFST x) = uint x mod 256"
  unfolding PAGING_OFFST_eq unsigned_take_bit_eq
  by (simp add: take_bit_eq_mod)

lemma uint_u32_of_int: "0 \<le> i \<Longrightarrow> i < 2 ^ 32 \<Longrightarrow> uint (u32_of_int i) = i"
  by (simp add: conv_simps uint_word_of_int)

lemma uint_PGN_of_int:
  "0 \<le> a \<Longrightarrow> a < 2 ^ 32 \<Longrightarrow> uint (PAGING_PGN (u32_of_int a)) = (a div 256) mod 16384"
  by (simp add: uint_PGN uint_u32_of_int)

lemma uint_OFFST_of_int:
  "0 \<le> a \<Longrightarrow> a < 2 ^ 32 \<Longrightarrow> uint (PAGING_OFFST (u32_of_int a)) = a mod 256"
  by (simp add: uint_OFFST uint_u32_of_int)

section \<open>Entries: what is written is what is read\<close>

lemma bit_entry_ops:
  "bit (SETBIT v m) n \<longleftrightarrow> bit v n \<or> bit m n"
  "bit (CLRBIT v m) n \<longleftrightarrow> bit v n \<and> \<not> bit m n"
  by (auto simp: field_ops bit_simps dest: bit_imp_le_length)

lemma PAGE_PRESENT_set_fpn [simp]: "PAGING_PAGE_PRESENT (pte_set_fpn pte fpn)"
  by (simp add: PAGE_PRESENT_bit pte_set_fpn_def Let_def mask_defs field_ops bit_simps)

lemma PAGE_PRESENT_set_swap [simp]: "\<not> PAGING_PAGE_PRESENT (pte_set_swap pte t off)"
  by (simp add: PAGE_PRESENT_bit pte_set_swap_def Let_def mask_defs field_ops bit_simps)

lemma PAGE_PRESENT_vmap_pte [simp]:
  "0 \<le> fpn \<Longrightarrow> fpn < 2 ^ 31 \<Longrightarrow> PAGING_PAGE_PRESENT (vmap_pte fpn)"
  by (simp add: PAGE_PRESENT_bit vmap_pte_def Let_def bit_simps)

lemma pte_set_swap_neq_0 [simp]: "pte_set_swap pte t off \<noteq> 0"
proof -
  have "bit (pte_set_swap pte t off) 30"
    by (simp add: pte_set_swap_def Let_def mask_defs field_ops bit_simps)
  then show ?thesis by auto
qed

lemma not_present_0 [simp]: "\<not> PAGING_PAGE_PRESENT 0"
  by (simp add: PAGE_PRESENT_bit)

lemma pte_set_fpn_neq_0 [simp]: "pte_set_fpn pte fpn \<noteq> 0"
  using PAGE_PRESENT_set_fpn [of pte fpn] not_present_0 by metis

lemma vmap_pte_neq_0 [simp]: "0 \<le> fpn \<Longrightarrow> fpn < 2 ^ 31 \<Longrightarrow> vmap_pte fpn \<noteq> 0"
  using PAGE_PRESENT_vmap_pte [of fpn] not_present_0 by metis

lemma FPN_set_fpn: "PAGING_FPN (pte_set_fpn pte fpn) = u32_of_int (take_bit 10 fpn)"
  unfolding PAGING_FPN_eq
  by (rule bit_word_eqI)
    (auto simp: pte_set_fpn_def Let_def mask_defs field_ops bit_simps u32_of_int_def)

lemma SWAPFPN_set_swap:
  "PAGING_SWAPFPN (pte_set_swap pte t off) = u32_of_int (take_bit 21 off)"
  unfolding PAGING_SWAPFPN_eq
  by (rule bit_word_eqI)
    (auto simp: pte_set_swap_def Let_def mask_defs field_ops bit_simps u32_of_int_def)

lemma FPN_vmap_pte: "PAGING_FPN (vmap_pte fpn) = u32_of_int (take_bit 10 fpn)"
  unfolding PAGING_FPN_eq
  by (rule bit_word_eqI) (auto simp: vmap_pte_def Let_def bit_simps u32_of_int_def)

lemma take_bit_small: "0 \<le> (i::int) \<Longrightarrow> i < 2 ^ n \<Longrightarrow> take_bit n i = i"
  by (simp add: take_bit_int_eq_self)

lemma uint_FPN_set_fpn [simp]:
  "0 \<le> fpn \<Longrightarrow> fpn < 1024 \<Longrightarrow> uint (PAGING_FPN (pte_set_fpn pte fpn)) = fpn"
  by (simp add: FPN_set_fpn take_bit_small uint_u32_of_int)

lemma uint_FPN_vmap_pte [simp]:
  "0 \<le> fpn \<Longrightarrow> fpn < 1024 \<Longrightarrow> uint (PAGING_FPN (vmap_pte fpn)) = fpn"
  by (simp add: FPN_vmap_pte take_bit_small uint_u32_of_int)

lemma uint_SWAPFPN_set_swap [simp]:
  "0 \<le> off \<Longrightarrow> off < 2097152 \<Longrightarrow> uint (PAGING_SWAPFPN (pte_set_swap pte t off)) = off"
  by (simp add: SWAPFPN_set_swap take_bit_small uint_u32_of_int)

section \<open>Page alignment\<close>

lemma DIV_ROUND_UP_pos:
  "0 \<le> n \<Longrightarrow> 0 < d \<Longrightarrow> DIV_ROUND_UP n d = (n + d - 1) div d"
  by (simp add: DIV_ROUND_UP_def)

lemma PAGING_PAGE_ALIGNSZ_small:
  "0 \<le> sz \<Longrightarrow> sz < 2 ^ 31 - 256 \<Longrightarrow>
   PAGING_PAGE_ALIGNSZ sz = Some ((sz + 255) div 256 * 256)"
  by (simp add: PAGING_PAGE_ALIGNSZ_def DIV_ROUND_UP_pos PAGING_PAGESZ_def)

section \<open>Properties\<close>

text \<open>
  C31: an entry that is set online for a frame number below 1024 reads back as present,
  not swapped, and with that frame number, whatever the entry held before.
\<close>

theorem pte_online_roundtrip:
  assumes "0 \<le> fpn" and "fpn < 1024"
  shows "PAGING_PAGE_PRESENT (pte_set_fpn pte fpn)
    \<and> pte_set_fpn pte fpn AND PAGING_PTE_SWAPPED_MASK = 0
    \<and> uint (PAGING_FPN (pte_set_fpn pte fpn)) = fpn"
proof -
  have "pte_set_fpn pte fpn AND PAGING_PTE_SWAPPED_MASK = 0"
    by (rule bit_word_eqI)
      (auto simp: pte_set_fpn_def Let_def mask_defs field_ops bit_simps)
  then show ?thesis using assms by simp
qed

theorem pte_online_roundtrip_witness:
  "PAGING_PAGE_PRESENT (pte_set_fpn 0x40000020 1023)
    \<and> pte_set_fpn 0x40000020 1023 AND PAGING_PTE_SWAPPED_MASK = 0
    \<and> uint (PAGING_FPN (pte_set_fpn 0x40000020 1023)) = 1023"
  using pte_online_roundtrip [of 1023 "0x40000020"] by simp

text \<open>
  An entry that is set swapped reads back as not present, as a mapped entry (it is
  not the zero of an unmapped page), and with the swap frame it was given.
\<close>

theorem pte_swap_roundtrip:
  assumes "0 \<le> off" and "off < 2 ^ 21"
  shows "\<not> PAGING_PAGE_PRESENT (pte_set_swap pte SWPTYP off)
    \<and> pte_set_swap pte SWPTYP off \<noteq> 0
    \<and> uint (PAGING_SWAPFPN (pte_set_swap pte SWPTYP off)) = off"
  using assms by simp

theorem pte_swap_roundtrip_witness:
  "\<not> PAGING_PAGE_PRESENT (pte_set_swap 0x80000007 SWPTYP 65535)
    \<and> pte_set_swap 0x80000007 SWPTYP 65535 \<noteq> 0
    \<and> uint (PAGING_SWAPFPN (pte_set_swap 0x80000007 SWPTYP 65535)) = 65535"
  using pte_swap_roundtrip [of 65535 "0x80000007"] by simp

text \<open>
  Frame numbers from 1024 on are not read back. An entry has 13 bits for the frame
  number and \<open>pte_set_fpn\<close> writes 13, but \<open>PAGING_FPN\<close> reads the 10 bits of
  \<open>PAGING_MEMRAMSZ\<close>: the number read is the one written modulo 1024. The 1 MB RAM of
  the default configurations has 4096 frames.
\<close>

theorem pte_fpn_truncated:
  "uint (PAGING_FPN (pte_set_fpn pte fpn)) = fpn mod 1024
   \<and> uint (PAGING_FPN (vmap_pte fpn)) = fpn mod 1024"
  by (simp add: FPN_set_fpn FPN_vmap_pte take_bit_eq_mod uint_u32_of_int)

text \<open>
  An address is its page number and its offset, up to the 22 bits of the bus: two
  addresses that differ by 4 MB have the same page number.
\<close>

theorem address_split:
  "uint (PAGING_PGN a) * PAGING_PAGESZ + uint (PAGING_OFFST a) = uint a mod 2 ^ 22
   \<and> PAGING_PGN (a + 2 ^ 22) = PAGING_PGN a"
proof -
  have split: "x div 256 mod 16384 * 256 + x mod 256 = x mod 4194304" for x :: int
    using mod_mult2_eq' [of x 256 16384] by simp
  have page: "x div 256 mod 16384 = x mod 4194304 div 256" for x :: int
    using zmod_zmult2_eq [of 16384 x 256] by simp
  have "uint (a + 2 ^ 22) mod 4194304 = uint a mod 4194304"
    by (simp add: uint_word_ariths mod_mod_cancel)
  then have "PAGING_PGN (a + 2 ^ 22) = PAGING_PGN a"
    by (simp only: word_uint_eq_iff uint_PGN page)
  then show ?thesis
    by (simp add: uint_PGN uint_OFFST PAGING_PAGESZ_def split)
qed

end
