(* ===== verification/Legacy_Mem.thy ===== *)
theory Legacy_Mem
  imports Bitops
begin

text \<open>
  The memory of \<open>src/mem.c\<close>, which the build with paging compiles but no instruction
  uses: one array of 1 MB, a status word per page of 1 KB, and a two-level translation
  whose lookup always gives the null table. The memory is static data.
\<close>

definition OFFSET_LEN :: nat where "OFFSET_LEN = 10"
definition PAGE_LEN :: nat where "PAGE_LEN = 5"
definition RAM_SIZE :: int where "RAM_SIZE = 1048576"
definition NUM_PAGES :: nat where "NUM_PAGES = 1024"
definition PAGE_SIZE :: u32 where "PAGE_SIZE = 1024"

record mem_stat_t =
  stat_proc :: u32
  stat_index :: int
  stat_next :: int

record legacy_mem =
  lram :: "nat \<Rightarrow> u8"
  mem_stat :: "mem_stat_t list"

record trans_table_t =
  tt_v_index :: "u32 list"
  tt_p_index :: "u32 list"
  tt_size :: int

definition init_mem :: "legacy_mem \<Rightarrow> legacy_mem" where
  "init_mem m = m\<lparr>lram := (\<lambda>_. 0),
     mem_stat := replicate NUM_PAGES \<lparr>stat_proc = 0, stat_index = 0, stat_next = 0\<rparr>\<rparr>"

section \<open>Addresses\<close>

definition get_offset :: "u32 \<Rightarrow> u32" where
  "get_offset addr = addr AND NOT (push_bit OFFSET_LEN (NOT 0))"

definition get_first_lv :: "u32 \<Rightarrow> u32" where
  "get_first_lv addr = drop_bit (OFFSET_LEN + PAGE_LEN) addr"

definition get_second_lv :: "u32 \<Rightarrow> u32" where
  "get_second_lv addr = drop_bit OFFSET_LEN addr - push_bit PAGE_LEN (get_first_lv addr)"

text \<open>The loop over the rows has an empty body.\<close>

fun skip_rows :: "nat \<Rightarrow> int \<Rightarrow> int" where
  "skip_rows 0 i = i"
| "skip_rows (Suc n) i = skip_rows n (i + 1)"

definition get_trans_table :: "u32 \<Rightarrow> page_table_t \<Rightarrow> trans_table_t option" where
  "get_trans_table index pt = (let i = skip_rows (nat (pt_size pt)) 0 in None)"

fun find_row :: "trans_table_t \<Rightarrow> u32 \<Rightarrow> nat \<Rightarrow> int \<Rightarrow> int option" where
  "find_row t second_lv 0 i = Some 0"
| "find_row t second_lv (Suc n) i =
     do { v \<leftarrow> list_get (tt_v_index t) i;
          if v = second_lv then Some 1 else find_row t second_lv n (i + 1) }"

text \<open>The physical address is an output that no branch writes.\<close>

definition translate :: "u32 \<Rightarrow> pcb_t \<Rightarrow> (int \<times> u32 option) option" where
  "translate virtual_addr p =
     (case get_trans_table (get_first_lv virtual_addr) (page_table p) of
        None \<Rightarrow> Some (0, None)
      | Some t \<Rightarrow>
          do { r \<leftarrow> find_row t (get_second_lv virtual_addr) (nat (tt_size t)) 0;
               Some (r, None) })"

section \<open>Operations\<close>

definition alloc_mem :: "u32 \<Rightarrow> pcb_t \<Rightarrow> u32 \<times> pcb_t" where
  "alloc_mem sz p =
     (let num_pages = (if sz mod PAGE_SIZE \<noteq> 0 then sz div PAGE_SIZE else sz div PAGE_SIZE + 1);
          mem_avail = (0 :: int)
      in if mem_avail \<noteq> 0 then (bp p, p\<lparr>bp := bp p + num_pages * PAGE_SIZE\<rparr>) else (0, p))"

definition free_mem :: "u32 \<Rightarrow> pcb_t \<Rightarrow> int" where
  "free_mem address p = 0"

definition read_mem :: "legacy_mem \<Rightarrow> u32 \<Rightarrow> pcb_t \<Rightarrow> (int \<times> u8 option) option" where
  "read_mem m address p =
     do { (r, physical_addr) \<leftarrow> translate address p;
          if r \<noteq> 0 then
            do { a \<leftarrow> physical_addr;
                 v \<leftarrow> arr_get RAM_SIZE (lram m) (uint a);
                 Some (0, Some v) }
          else Some (1, None) }"

definition write_mem :: "legacy_mem \<Rightarrow> u32 \<Rightarrow> pcb_t \<Rightarrow> u8 \<Rightarrow> (int \<times> legacy_mem) option" where
  "write_mem m address p data =
     do { (r, physical_addr) \<leftarrow> translate address p;
          if r \<noteq> 0 then
            do { a \<leftarrow> physical_addr;
                 ram \<leftarrow> arr_set RAM_SIZE (lram m) (uint a) data;
                 Some (0, m\<lparr>lram := ram\<rparr>) }
          else Some (1, m) }"

text \<open>What \<open>dump\<close> prints; the last byte of a page is left out by its loop bound.\<close>

datatype legacy_line = PageLine nat int int u32 int int | ByteLine int u8

definition dump :: "legacy_mem \<Rightarrow> legacy_line list" where
  "dump m = concat (map (\<lambda>i.
     let s = mem_stat m ! i; base = int i * 1024 in
     if stat_proc s \<noteq> 0 then
       PageLine i base (base + 1024 - 1) (stat_proc s) (stat_index s) (stat_next s)
       # map (\<lambda>j. ByteLine j (lram m (nat j)))
           (filter (\<lambda>j. lram m (nat j) \<noteq> 0) [base..base + 1024 - 2])
     else []) [0..<NUM_PAGES])"

section \<open>Properties\<close>

text \<open>
  A legacy address is its first index, its second index of five bits and its offset of
  ten bits: the three parts give the address back.
\<close>

theorem legacy_address_split:
  "uint (get_first_lv a) * 2 ^ 15 + uint (get_second_lv a) * 2 ^ 10 + uint (get_offset a) = uint a
   \<and> uint (get_second_lv a) < 2 ^ 5 \<and> uint (get_offset a) < 2 ^ 10"
proof -
  have off: "get_offset a = take_bit 10 a"
    by (rule bit_word_eqI) (auto simp: get_offset_def OFFSET_LEN_def bit_simps)
  have o: "uint (get_offset a) = uint a mod 1024"
    unfolding off unsigned_take_bit_eq by (simp add: take_bit_eq_mod)
  have f: "uint (get_first_lv a) = uint a div 32768"
    using uint_lt2p [of a] unfolding get_first_lv_def OFFSET_LEN_def PAGE_LEN_def unsigned_drop_bit_eq
    by (simp add: drop_bit_eq_div take_bit_eq_mod)
  have "get_second_lv a = take_bit 5 (drop_bit 10 a)"
  proof -
    have "push_bit 5 (drop_bit 5 (drop_bit 10 a)) + take_bit 5 (drop_bit 10 a) = drop_bit 10 a"
      by (rule bits_ident)
    then show ?thesis
      by (simp add: get_second_lv_def get_first_lv_def OFFSET_LEN_def PAGE_LEN_def algebra_simps)
  qed
  then have s: "uint (get_second_lv a) = uint a div 1024 mod 32"
    using uint_lt2p [of a] by (simp only: unsigned_take_bit_eq unsigned_drop_bit_eq)
      (simp add: take_bit_eq_mod drop_bit_eq_div)
  have "uint a div 1024 div 32 = uint a div 32768" by (simp add: div_mult2_eq [symmetric])
  then have "uint a div 32768 * 32 + uint a div 1024 mod 32 = uint a div 1024"
    using div_mult_mod_eq [of "uint a div 1024" 32] by simp
  then have "(uint a div 32768 * 32 + uint a div 1024 mod 32) * 1024 + uint a mod 1024 = uint a"
    using div_mult_mod_eq [of "uint a" 1024] by simp
  then show ?thesis unfolding o f s by (simp add: algebra_simps)
qed

lemma translate_fails: "translate a p = Some (0, None)"
  by (simp add: translate_def get_trans_table_def)

end
