(* ===== verification/Ready_Queue.thy ===== *)
theory Ready_Queue
  imports OS_Types
begin

text \<open>
  The array queue of \<open>src/queue.c\<close> and its contract. The locale \<open>bounded_fifo\<close> is what
  the scheduler relies on: a queue of bounded capacity that gives its elements back in
  the order they came. The interpretation \<open>rq\<close> shows that the array with its shifting
  \<open>dequeue\<close> keeps this contract.
\<close>

section \<open>Operations\<close>

definition empty :: "queue_t option \<Rightarrow> int" where
  "empty q = (case q of None \<Rightarrow> 1 | Some q \<Rightarrow> if qsize q = 0 then 1 else 0)"

text \<open>
  \<open>swap\<close> exchanges its two local pointers: the value is what the caller's variables hold
  afterwards.
\<close>

definition swap :: "pcb_t \<Rightarrow> pcb_t \<Rightarrow> pcb_t \<times> pcb_t" where
  "swap a b = (let temp = a; a' = b; b' = temp in (a, b))"

text \<open>The block a slot points to; a null slot or a slot out of the array faults.\<close>

definition slot_pcb :: "queue_t \<Rightarrow> int \<Rightarrow> pcb_t option" where
  "slot_pcb q i = do { s \<leftarrow> list_get (proc q) i; s }"

text \<open>
  The two loops of \<open>sortQueue\<close>, with the number of iterations left and the index.
\<close>

fun sort_scan :: "queue_t \<Rightarrow> pcb_t \<Rightarrow> nat \<Rightarrow> int \<Rightarrow> pcb_t option" where
  "sort_scan q maxItem 0 j = Some maxItem"
| "sort_scan q maxItem (Suc n) j =
     do { p \<leftarrow> slot_pcb q j;
          sort_scan q (if priority maxItem < priority p then p else maxItem) n (j + 1) }"

fun sort_outer :: "queue_t \<Rightarrow> nat \<Rightarrow> int \<Rightarrow> queue_t option" where
  "sort_outer q 0 i = Some q"
| "sort_outer q (Suc n) i =
     do { maxItem \<leftarrow> slot_pcb q i;
          _ \<leftarrow> sort_scan q maxItem (nat (qsize q - i)) i;
          sort_outer q n (i + 1) }"

definition sortQueue :: "queue_t option \<Rightarrow> queue_t option option" where
  "sortQueue q =
     (case q of None \<Rightarrow> Some None
      | Some q \<Rightarrow> map_option Some (sort_outer q (nat (qsize q - 1)) 0))"

definition enqueue :: "queue_t \<Rightarrow> pcb_t \<Rightarrow> (int \<times> queue_t) option" where
  "enqueue q p =
     (let maxSlot = int MAX_QUEUE_SIZE in
      if qsize q < maxSlot then
        do { ps \<leftarrow> list_set (proc q) (qsize q) (Some p);
             Some (0, q\<lparr>proc := ps, qsize := qsize q + 1\<rparr>) }
      else Some (-1, q))"

text \<open>The loop of \<open>dequeue\<close>: \<open>proc[i - 1] = proc[i]\<close> for \<open>n\<close> indices from \<open>i\<close>.\<close>

fun shift_left :: "pcb_t option list \<Rightarrow> nat \<Rightarrow> int \<Rightarrow> pcb_t option list option" where
  "shift_left ps 0 i = Some ps"
| "shift_left ps (Suc n) i =
     do { x \<leftarrow> list_get ps i;
          ps' \<leftarrow> list_set ps (i - 1) x;
          shift_left ps' n (i + 1) }"

definition dequeue :: "queue_t \<Rightarrow> (pcb_t option \<times> queue_t) option" where
  "dequeue q =
     (if empty (Some q) \<noteq> 0 then Some (None, q)
      else
        do { p \<leftarrow> list_get (proc q) 0;
             ps \<leftarrow> shift_left (proc q) (nat (qsize q - 1)) 1;
             Some (p, q\<lparr>proc := ps, qsize := qsize q - 1\<rparr>) })"

section \<open>The contract\<close>

locale bounded_fifo =
  fixes enq :: "'q \<Rightarrow> 'a \<Rightarrow> (int \<times> 'q) option"
    and deq :: "'q \<Rightarrow> ('a option \<times> 'q) option"
    and is_empty :: "'q option \<Rightarrow> int"
    and items :: "'q \<Rightarrow> 'a list"
    and invar :: "'q \<Rightarrow> bool"
    and capacity :: nat
  assumes enq_room: "\<lbrakk>invar q; length (items q) < capacity\<rbrakk> \<Longrightarrow>
      \<exists>q'. enq q x = Some (0, q') \<and> invar q' \<and> items q' = items q @ [x]"
    and enq_full: "\<lbrakk>invar q; capacity \<le> length (items q)\<rbrakk> \<Longrightarrow> enq q x = Some (-1, q)"
    and deq_Nil: "\<lbrakk>invar q; items q = []\<rbrakk> \<Longrightarrow> deq q = Some (None, q)"
    and deq_Cons: "\<lbrakk>invar q; items q = x # xs\<rbrakk> \<Longrightarrow>
      \<exists>q'. deq q = Some (Some x, q') \<and> invar q' \<and> items q' = xs"
    and is_empty_iff: "invar q \<Longrightarrow> is_empty (Some q) = (if items q = [] then 1 else 0)"
begin

lemma enq_total:
  assumes "invar q"
  obtains r q' where "enq q x = Some (r, q')" and "invar q'"
    and "items q' = (if r = 0 then items q @ [x] else items q)"
    and "r = (if length (items q) < capacity then 0 else -1)"
proof (cases "length (items q) < capacity")
  case True
  with enq_room [OF assms, of x] that show thesis by auto
next
  case False
  with enq_full [OF assms, of x] assms that show thesis by auto
qed

lemma deq_total:
  assumes "invar q"
  obtains q' where "deq q = Some (if items q = [] then None else Some (hd (items q)), q')"
    and "invar q'" and "items q' = tl (items q)"
proof (cases "items q")
  case Nil
  with deq_Nil [OF assms] assms that show thesis by auto
next
  case (Cons x xs)
  with deq_Cons [OF assms] that show thesis by auto
qed

primrec enq_all :: "'a list \<Rightarrow> 'q \<Rightarrow> 'q option" where
  "enq_all [] q = Some q"
| "enq_all (x # xs) q = do { (r, q') \<leftarrow> enq q x; enq_all xs q' }"

primrec deq_n :: "nat \<Rightarrow> 'q \<Rightarrow> ('a option list \<times> 'q) option" where
  "deq_n 0 q = Some ([], q)"
| "deq_n (Suc n) q =
     do { (x, q1) \<leftarrow> deq q; (xs, q2) \<leftarrow> deq_n n q1; Some (x # xs, q2) }"

lemma enq_all_items:
  "\<lbrakk>invar q; length (items q) + length xs \<le> capacity\<rbrakk> \<Longrightarrow>
   \<exists>q'. enq_all xs q = Some q' \<and> invar q' \<and> items q' = items q @ xs"
proof (induction xs arbitrary: q)
  case (Cons x xs)
  then obtain q1 where q1: "enq q x = Some (0, q1)" "invar q1" "items q1 = items q @ [x]"
    using enq_room [of q x] by fastforce
  with Cons.IH [of q1] Cons.prems show ?case by auto
qed simp

lemma deq_n_items:
  "invar q \<Longrightarrow> \<exists>q'. deq_n (length (items q)) q = Some (map Some (items q), q')
     \<and> invar q' \<and> items q' = []"
proof (induction "items q" arbitrary: q)
  case (Cons x xs)
  from deq_Cons [OF Cons.prems Cons.hyps(2) [symmetric]] obtain q1
    where q1: "deq q = Some (Some x, q1)" "invar q1" "items q1 = xs" by blast
  from Cons.hyps(1) [OF q1(3) [symmetric] q1(2)] obtain q2
    where "deq_n (length xs) q1 = Some (map Some xs, q2)" "invar q2" "items q2 = []"
    using q1(3) by auto
  with q1 show ?case by (simp flip: Cons.hyps(2))
qed auto

lemma fifo_order:
  assumes "invar q" and "items q = []" and "length xs \<le> capacity"
  shows "\<exists>q1 q2. enq_all xs q = Some q1 \<and> deq_n (length xs) q1 = Some (map Some xs, q2)
    \<and> items q2 = []"
proof -
  obtain q1 where "enq_all xs q = Some q1" "invar q1" "items q1 = xs"
    using enq_all_items [of q xs] assms by auto
  with deq_n_items [of q1] show ?thesis by auto
qed

end

section \<open>The array keeps the contract\<close>

definition queue_ok :: "queue_t \<Rightarrow> bool" where
  "queue_ok q \<longleftrightarrow> length (proc q) = MAX_QUEUE_SIZE \<and> 0 \<le> qsize q
     \<and> qsize q \<le> int MAX_QUEUE_SIZE \<and> None \<notin> set (take (nat (qsize q)) (proc q))"

definition q_items :: "queue_t \<Rightarrow> pcb_t list" where
  "q_items q = map the (take (nat (qsize q)) (proc q))"

lemma length_q_items: "queue_ok q \<Longrightarrow> int (length (q_items q)) = qsize q"
  by (auto simp: queue_ok_def q_items_def min_def)

lemma q_items_update_slot [simp]: "q_items (q\<lparr>slot := s\<rparr>) = q_items q"
  by (simp add: q_items_def)

lemma queue_ok_update_slot [simp]: "queue_ok (q\<lparr>slot := s\<rparr>) = queue_ok q"
  by (simp add: queue_ok_def)

lemma q_items_Nil_iff: "queue_ok q \<Longrightarrow> q_items q = [] \<longleftrightarrow> qsize q = 0"
  using length_q_items [of q] by auto

text \<open>The shifting loop moves the slots from \<open>i\<close> on one to the left.\<close>

lemma shift_left_eq:
  "\<lbrakk>1 \<le> i; nat i + n \<le> length ps\<rbrakk> \<Longrightarrow>
   shift_left ps n i =
     Some (take (nat i - 1) ps @ take n (drop (nat i) ps) @ drop (nat i - 1 + n) ps)"
proof (induction n arbitrary: ps i)
  case 0
  then show ?case by simp
next
  case (Suc n)
  let ?k = "nat i"
  let ?ps = "ps[?k - 1 := ps ! ?k]"
  have k: "1 \<le> ?k" "?k < length ps" using Suc.prems by auto
  have "shift_left ps (Suc n) i = shift_left ?ps n (i + 1)"
    using Suc.prems k by (simp add: arr_simps nat_diff_distrib)
  also have "\<dots> = Some (take ?k ?ps @ take n (drop (Suc ?k) ?ps) @ drop (?k + n) ?ps)"
    using Suc.prems k by (subst Suc.IH) (auto simp: nat_add_distrib)
  also have "take ?k ?ps = take (?k - 1) ps @ [ps ! ?k]"
    using k take_Suc_update [of "?k - 1" ps] by simp
  also have "drop (Suc ?k) ?ps = drop (Suc ?k) ps" using k by simp
  also have "drop (?k + n) ?ps = drop (?k + n) ps" using k by simp
  finally have "shift_left ps (Suc n) i =
      Some (take (?k - 1) ps @ ([ps ! ?k] @ take n (drop (Suc ?k) ps)) @ drop (?k + n) ps)"
    by simp
  moreover have "[ps ! ?k] @ take n (drop (Suc ?k) ps) = take (Suc n) (drop ?k ps)"
    using k by (metis Cons_nth_drop_Suc append_Cons append_Nil take_Suc_Cons)
  moreover have "?k - 1 + Suc n = ?k + n" using k by simp
  ultimately show ?case by (simp only:)
qed

lemma enqueue_room:
  assumes "queue_ok q" and "length (q_items q) < MAX_QUEUE_SIZE"
  shows "\<exists>q'. enqueue q x = Some (0, q') \<and> queue_ok q' \<and> q_items q' = q_items q @ [x]
    \<and> slot q' = slot q"
proof -
  have size: "qsize q < int MAX_QUEUE_SIZE" using assms length_q_items by fastforce
  let ?n = "nat (qsize q)"
  have n: "?n < length (proc q)" "nat (qsize q + 1) = Suc ?n"
    using assms(1) size by (auto simp: queue_ok_def nat_add_distrib)
  let ?q = "q\<lparr>proc := (proc q)[?n := Some x], qsize := qsize q + 1\<rparr>"
  have "enqueue q x = Some (0, ?q)"
    using assms(1) size by (simp add: enqueue_def arr_simps queue_ok_def)
  moreover have "queue_ok ?q" "q_items ?q = q_items q @ [x]"
    using assms(1) size n by (auto simp: queue_ok_def q_items_def take_Suc_update)
  ultimately show ?thesis by auto
qed

lemma dequeue_Cons:
  assumes "queue_ok q" and "q_items q = x # xs"
  shows "\<exists>q'. dequeue q = Some (Some x, q') \<and> queue_ok q' \<and> q_items q' = xs
    \<and> slot q' = slot q"
proof -
  obtain n where n: "nat (qsize q) = Suc n" "qsize q = int (Suc n)"
    using length_q_items [OF assms(1)] assms(2) by (metis length_Cons nat_int)
  obtain p ps where ps: "proc q = p # ps" using assms(1)
    by (cases "proc q") (auto simp: queue_ok_def MAX_QUEUE_SIZE_def)
  have len: "Suc n \<le> length (proc q)" using assms(1) n by (simp add: queue_ok_def)
  have "shift_left (proc q) n 1 = Some (take n ps @ drop n (proc q))"
    using len by (simp add: shift_left_eq ps)
  then have deq: "dequeue q = Some (p, q\<lparr>proc := take n ps @ drop n (proc q), qsize := int n\<rparr>)"
    using n len by (simp add: dequeue_def empty_def arr_simps ps)
  have "p = Some x" "map the (take n ps) = xs" "None \<notin> set (take n ps)"
    using assms n by (auto simp: q_items_def queue_ok_def ps)
  moreover have "length (take n ps @ drop n (proc q)) = length (proc q)" "n \<le> length ps"
    using len by (auto simp: ps)
  ultimately show ?thesis
    using deq assms(1) n by (auto simp: queue_ok_def q_items_def)
qed

interpretation rq: bounded_fifo enqueue dequeue empty q_items queue_ok MAX_QUEUE_SIZE
proof (unfold_locales, goal_cases)
  case (1 q x)
  then show ?case using enqueue_room by blast
next
  case (2 q x)
  then show ?case using length_q_items [of q] by (simp add: enqueue_def)
next
  case (3 q)
  then show ?case by (simp add: dequeue_def empty_def q_items_Nil_iff)
next
  case (4 q x xs)
  then show ?case using dequeue_Cons by blast
next
  case (5 q)
  then show ?case by (simp add: empty_def q_items_Nil_iff)
qed

text \<open>The slot budget of a queue is not touched by its operations.\<close>

lemma enqueue_slot: "enqueue q x = Some (r, q') \<Longrightarrow> slot q' = slot q"
  by (auto simp: enqueue_def bind_Some_iff split: if_splits)

lemma dequeue_slot: "dequeue q = Some (p, q') \<Longrightarrow> slot q' = slot q"
  by (auto simp: dequeue_def bind_Some_iff split: if_splits)

section \<open>sortQueue\<close>

lemma slot_pcb_ok: "\<lbrakk>queue_ok q; 0 \<le> i; i < qsize q\<rbrakk> \<Longrightarrow> \<exists>p. slot_pcb q i = Some p"
proof -
  assume q: "queue_ok q" and i: "0 \<le> i" "i < qsize q"
  have "proc q ! nat i \<in> set (take (nat (qsize q)) (proc q))"
    using q i by (auto simp: queue_ok_def in_set_conv_nth intro!: exI [of _ "nat i"])
  then have "proc q ! nat i \<noteq> None" using q by (metis queue_ok_def)
  then show ?thesis using q i by (auto simp: slot_pcb_def arr_simps queue_ok_def)
qed

lemma sort_scan_total:
  "\<lbrakk>queue_ok q; 0 \<le> j; j + int n \<le> qsize q\<rbrakk> \<Longrightarrow> \<exists>p. sort_scan q m n j = Some p"
proof (induction n arbitrary: m j)
  case (Suc n)
  then obtain p where "slot_pcb q j = Some p" using slot_pcb_ok [of q j] by auto
  with Suc show ?case by simp
qed simp

lemma sort_outer_id:
  "\<lbrakk>queue_ok q; 0 \<le> i; i + int n < qsize q \<or> n = 0\<rbrakk> \<Longrightarrow> sort_outer q n i = Some q"
proof (induction n arbitrary: i)
  case (Suc n)
  obtain m where m: "slot_pcb q i = Some m" using slot_pcb_ok [of q i] Suc.prems by auto
  moreover obtain p where "sort_scan q m (nat (qsize q - i)) i = Some p"
    using sort_scan_total [of q i "nat (qsize q - i)" m] Suc.prems by auto
  ultimately show ?case using Suc by auto
qed simp

section \<open>Sample data for the witnesses\<close>

definition mm0 :: mm_struct where
  "mm0 = \<lparr>pgd = (\<lambda>_. 0), mmap = [],
     symrgtbl = replicate (nat PAGING_MAX_SYMTBL_SZ) \<lparr>rg_start = 0, rg_end = 0, valid = 0\<rparr>,
     fifo_using_pgn = [], current_max_pgn = 0, num_of_fifo_using_pgn = 0\<rparr>"

definition pcb0 :: pcb_t where
  "pcb0 = \<lparr>pid = 1, priority = 0, code = \<lparr>code_text = [], code_size = 0\<rparr>, pc = 0, bp = 0,
     prio = 0, mm = mm0, regs = [], page_table = \<lparr>pt_size = 0\<rparr>\<rparr>"

definition queue0 :: queue_t where
  "queue0 = \<lparr>proc = replicate MAX_QUEUE_SIZE None, qsize = 0, slot = 0\<rparr>"

lemma queue0_ok [simp]: "queue_ok queue0" and q_items_queue0 [simp]: "q_items queue0 = []"
  by (simp_all add: queue0_def queue_ok_def q_items_def)

section \<open>Properties\<close>

text \<open>
  C30: the array queue is a bounded FIFO: on a well-formed queue, \<open>enqueue\<close> appends at
  the end when there is room and otherwise returns \<open>-1\<close> and changes nothing, and
  \<open>dequeue\<close> takes the first element or returns the null pointer; neither ever leaves
  the array.
\<close>

theorem queue_refines_list:
  assumes "queue_ok q"
  shows "(\<exists>q'. enqueue q p = Some (if length (q_items q) < MAX_QUEUE_SIZE then 0 else -1, q')
      \<and> queue_ok q'
      \<and> q_items q' = (if length (q_items q) < MAX_QUEUE_SIZE then q_items q @ [p] else q_items q))
    \<and> (\<exists>q'. dequeue q = Some (if q_items q = [] then None else Some (hd (q_items q)), q')
      \<and> queue_ok q' \<and> q_items q' = tl (q_items q))"
proof -
  obtain r q' where "enqueue q p = Some (r, q')" "queue_ok q'"
    "q_items q' = (if r = 0 then q_items q @ [p] else q_items q)"
    "r = (if length (q_items q) < MAX_QUEUE_SIZE then 0 else -1)"
    using rq.enq_total [OF assms] by blast
  moreover obtain q'' where
    "dequeue q = Some (if q_items q = [] then None else Some (hd (q_items q)), q'')"
    "queue_ok q''" "q_items q'' = tl (q_items q)"
    using rq.deq_total [OF assms] by blast
  ultimately show ?thesis by auto
qed

theorem queue_refines_list_witness:
  "\<exists>q'. enqueue queue0 pcb0 = Some (0, q') \<and> queue_ok q' \<and> q_items q' = [pcb0]"
  using queue_refines_list [OF queue0_ok, of pcb0] by (simp add: MAX_QUEUE_SIZE_def)

text \<open>
  \<open>sortQueue\<close> does not sort: on every well-formed queue it returns, and the queue is
  what it was. It computes the maximum of each suffix and drops it.
\<close>

theorem sortQueue_no_effect:
  assumes "queue_ok q"
  shows "sortQueue (Some q) = Some (Some q)"
  using sort_outer_id [OF assms, of 0 "nat (qsize q - 1)"] by (auto simp: sortQueue_def)

theorem sortQueue_no_effect_witness: "sortQueue (Some queue0) = Some (Some queue0)"
  by (rule sortQueue_no_effect [OF queue0_ok])

end
