(* ===== verification/Loader.thy ===== *)
theory Loader
  imports Stdio Legacy_Mem Ready_Queue
begin

text \<open>
  The program loader, \<open>src/loader.c\<close>. It reads a program from its text: the priority, the
  number of instructions and the instructions. \<open>exit(1)\<close> is an error value. The loader
  ignores what \<open>fscanf\<close> returns, so a value that was not read is what the memory obtained
  from \<open>malloc\<close> contained: the contents of the new control block, of its code segment and
  of the instruction array are parameters. The opcode buffer has no value before the first
  opcode is read, and a longer opcode than it can hold is a fault.
\<close>

datatype load_error = No_File | Bad_Opcode string

section \<open>Operations\<close>

definition get_opcode :: "string \<Rightarrow> ins_opcode_t option" where
  "get_opcode opt =
     (if opt = ''calc'' then Some CALC
      else if opt = ''alloc'' then Some ALLOC
      else if opt = ''free'' then Some FREE
      else if opt = ''read'' then Some READ
      else if opt = ''write'' then Some WRITE
      else None)"

fun num_args :: "ins_opcode_t \<Rightarrow> nat" where
  "num_args CALC = 0"
| "num_args ALLOC = 2"
| "num_args FREE = 1"
| "num_args READ = 3"
| "num_args WRITE = 3"

text \<open>
  One turn of the loop: the opcode buffer, what the array element contained, and the rest
  of the file. \<open>char opcode[10]\<close> holds nine characters.
\<close>

definition load_ins :: "string option \<Rightarrow> inst_t \<Rightarrow> string
    \<Rightarrow> (load_error + string option \<times> inst_t \<times> string) option" where
  "load_ins buf junk s =
     (case scan_s s of (tok, s1) \<Rightarrow>
        do { _ \<leftarrow> require (case tok of None \<Rightarrow> True | Some t \<Rightarrow> length t < 10);
             opt \<leftarrow> (case tok of None \<Rightarrow> buf | Some t \<Rightarrow> Some t);
             (case get_opcode opt of
                None \<Rightarrow> Some (Inl (Bad_Opcode opt))
              | Some opc \<Rightarrow>
                  (case (if num_args opc = 0 then ([], s1) else fscanf_nums (num_args opc) s1) of (xs, s2) \<Rightarrow>
                     Some (Inr (Some opt,
                       \<lparr>opcode = opc,
                        arg_0 = got (map conv_u xs) 0 (arg_0 junk),
                        arg_1 = got (map conv_u xs) 1 (arg_1 junk),
                        arg_2 = got (map conv_u xs) 2 (arg_2 junk)\<rparr>, s2)))) })"

text \<open>The loop over the elements of the array.\<close>

fun load_loop :: "string option \<Rightarrow> inst_t list \<Rightarrow> string \<Rightarrow> (load_error + inst_t list) option" where
  "load_loop buf [] s = Some (Inr [])"
| "load_loop buf (j # js) s =
     do { r \<leftarrow> load_ins buf j s;
          (case r of
             Inl e \<Rightarrow> Some (Inl e)
           | Inr (buf', ins, s') \<Rightarrow>
               do { r' \<leftarrow> load_loop buf' js s';
                    Some (case r' of Inl e \<Rightarrow> Inl e | Inr is \<Rightarrow> Inr (ins # is)) }) }"

text \<open>
  \<open>load\<close>: \<open>blk\<close> is the new control block (with the junk code segment), \<open>txt\<close> the memory
  of the instruction array, \<open>avail_pid\<close> the static counter, and \<open>file\<close> the contents of
  the file, if it can be opened.
\<close>

definition load :: "pcb_t \<Rightarrow> (nat \<Rightarrow> inst_t) \<Rightarrow> u32 \<Rightarrow> string option
    \<Rightarrow> ((load_error + pcb_t) \<times> u32) option" where
  "load blk txt avail_pid file =
     (let p = blk\<lparr>pid := avail_pid, bp := PAGE_SIZE, pc := 0\<rparr>; avail_pid' = avail_pid + 1 in
      case file of
        None \<Rightarrow> Some (Inl No_File, avail_pid')
      | Some s \<Rightarrow>
          (case scan_nums 2 s of (xs, s1) \<Rightarrow>
             let n = got (map conv_u xs) 1 (code_size (code p)) in
             do { r \<leftarrow> load_loop None (map txt [0..<unat n]) s1;
                  Some (case r of
                      Inl e \<Rightarrow> Inl e
                    | Inr is \<Rightarrow> Inr (p\<lparr>priority := got (map conv_u xs) 0 (priority p),
                        code := \<lparr>code_text = is, code_size = n\<rparr>\<rparr>), avail_pid') }))"

section \<open>The text of a program\<close>

text \<open>The form of the files in \<open>input/proc\<close>.\<close>

fun show_opcode :: "ins_opcode_t \<Rightarrow> string" where
  "show_opcode CALC = ''calc''"
| "show_opcode ALLOC = ''alloc''"
| "show_opcode FREE = ''free''"
| "show_opcode READ = ''read''"
| "show_opcode WRITE = ''write''"

definition ins_args :: "inst_t \<Rightarrow> u32 list" where
  "ins_args i = take (num_args (opcode i)) [arg_0 i, arg_1 i, arg_2 i]"

definition show_args :: "u32 list \<Rightarrow> string" where
  "show_args xs = concat (map (\<lambda>x. CHR '' '' # show_nat (unat x)) xs)"

definition show_ins :: "inst_t \<Rightarrow> string" where
  "show_ins i = show_opcode (opcode i) @ show_args (ins_args i) @ [CHR 0x0A]"

text \<open>Two instructions that execute alike: same opcode and same arguments it uses.\<close>

definition same_ins :: "inst_t \<Rightarrow> inst_t \<Rightarrow> bool" where
  "same_ins i j \<longleftrightarrow> opcode i = opcode j \<and> ins_args i = ins_args j"

section \<open>Reading what was printed\<close>

lemma get_opcode_show [simp]: "get_opcode (show_opcode c) = Some c"
  by (cases c) (simp_all add: get_opcode_def)

lemma show_opcode_token [simp]:
  "show_opcode c \<noteq> []" "\<forall>x\<in>set (show_opcode c). \<not> isspace x" "length (show_opcode c) < 10"
  by (cases c; simp add: isspace_def)+

lemma scan_nums_show:
  assumes "ends_token r" "skip_ws s = skip_ws (show_args xs @ r)"
  shows "scan_nums (length xs) s = (map (\<lambda>x. (False, unat x)) xs, if xs = [] then s else r)"
  using assms(2)
proof (induction xs arbitrary: s)
  case (Cons x xs)
  have e: "ends_token (show_args xs @ r)" using assms(1) by (cases xs) (simp_all add: show_args_def)
  have "skip_ws s = show_nat (unat x) @ show_args xs @ r" using Cons.prems by (simp add: show_args_def)
  from scan_num_show [OF e this] Cons.IH [of "show_args xs @ r"] show ?case
    by (auto simp: show_args_def)
qed simp

lemma conv_u_unat: "conv_u (False, unat x) = x"
  using unsigned_less [of x, where ?'a = nat] by (subst conv_u_show) simp_all

lemma fscanf_nums_show:
  assumes "ends_token r" "0 < length xs"
  shows "fscanf_nums (length xs) (show_args xs @ r) = (map (\<lambda>x. (False, unat x)) xs, skip_ws r)"
  using scan_nums_show [OF assms(1) refl, of xs] assms(2) by (auto simp: fscanf_nums_def)

lemma length_ins_args [simp]: "length (ins_args i) = num_args (opcode i)"
  by (cases "opcode i") (simp_all add: ins_args_def)

lemma load_ins_show:
  assumes "skip_ws s = show_ins i @ r"
  shows "\<exists>i' s'. load_ins buf junk s = Some (Inr (Some (show_opcode (opcode i)), i', s')) \<and> same_ins i' i \<and> skip_ws s' = skip_ws r"
proof -
  let ?r = "show_args (ins_args i) @ CHR 0x0A # r"
  have e: "ends_token ?r" "ends_token (CHR 0x0A # r)" by (cases "ins_args i"; simp add: show_args_def)+
  have tok: "scan_s s = (Some (show_opcode (opcode i)), ?r)"
    using assms e(1) by (intro scan_s_token) (simp_all add: show_ins_def)
  have num: "fscanf_nums (num_args (opcode i)) ?r = (map (\<lambda>x. (False, unat x)) (ins_args i), skip_ws r)"
    if "num_args (opcode i) \<noteq> 0" using fscanf_nums_show [OF e(2), of "ins_args i"] that by simp
  show ?thesis
  proof (cases "num_args (opcode i) = 0")
    case True
    then have "opcode i = CALC" by (cases "opcode i") simp_all
    with tok show ?thesis by (simp add: load_ins_def same_ins_def ins_args_def show_args_def get_opcode_def)
  next
    case False
    have "skip_ws (skip_ws r) = skip_ws r" by (simp add: skip_ws_def)
    with False tok num [OF False] show ?thesis
      by (cases "opcode i") (simp_all add: load_ins_def same_ins_def ins_args_def got_def conv_u_unat get_opcode_def)
  qed
qed

lemma skip_ws_prog: "skip_ws (concat (map show_ins is)) = concat (map show_ins is)"
  by (cases "is") (simp_all add: show_ins_def skip_ws_def [of "[]"])

text \<open>At the end of the file the loop repeats the last opcode, with the arguments the memory contains.\<close>

definition repeat_ins :: "ins_opcode_t \<Rightarrow> inst_t \<Rightarrow> inst_t" where
  "repeat_ins c j = j\<lparr>opcode := c\<rparr>"

lemma scan_nums_eof: "skip_ws s = [] \<Longrightarrow> scan_nums n s = ([], if n = 0 then s else [])"
  by (cases n) (simp_all add: scan_num_def)

lemma load_loop_eof:
  assumes "skip_ws s = []"
  shows "load_loop (Some (show_opcode c)) js s = Some (Inr (map (repeat_ins c) js))"
  using assms
proof (induction js arbitrary: s)
  case (Cons j js)
  have nil: "skip_ws [] = []" by (simp add: skip_ws_def)
  have "load_ins (Some (show_opcode c)) j s = Some (Inr (Some (show_opcode c), repeat_ins c j, []))"
    using Cons.prems nil by (simp add: load_ins_def scan_s_eof fscanf_nums_def scan_nums_eof got_def repeat_ins_def)
  with Cons.IH [OF nil] show ?case by simp
qed simp

text \<open>More array elements than instructions in the file: the rest repeats the last one.\<close>

lemma load_loop_show:
  assumes "skip_ws s = concat (map show_ins is)" "length js = length is" "rest = [] \<or> is \<noteq> []"
  shows "\<exists>is'. load_loop buf (js @ rest) s = Some (Inr (is' @ map (repeat_ins (opcode (last is))) rest))
    \<and> list_all2 same_ins is' is"
  using assms
proof (induction js arbitrary: buf s "is")
  case (Cons j js)
  then obtain i is1 where "is": "is = i # is1" "length js = length is1" by (cases "is") auto
  then have "skip_ws s = show_ins i @ concat (map show_ins is1)" using Cons.prems by simp
  from load_ins_show [OF this, of buf j] obtain i' s' where i': "load_ins buf j s = Some (Inr (Some (show_opcode (opcode i)), i', s'))"
    "same_ins i' i" "skip_ws s' = concat (map show_ins is1)" by (auto simp: skip_ws_prog)
  show ?case
  proof (cases "is1 = []")
    case True
    then have "load_loop (Some (show_opcode (opcode i))) rest s' = Some (Inr (map (repeat_ins (opcode i)) rest))"
      using load_loop_eof i'(3) by simp
    with i' "is" True show ?thesis by simp
  next
    case False
    from Cons.IH [OF i'(3) "is"(2)] False obtain is' where
      "load_loop (Some (show_opcode (opcode i))) (js @ rest) s' = Some (Inr (is' @ map (repeat_ins (opcode (last is1))) rest))"
      "list_all2 same_ins is' is1" by blast
    with i' "is"(1) False show ?thesis by (intro exI [of _ "i' # is'"]) simp
  qed
qed simp

text \<open>The header of the file, with the number of instructions it announces.\<close>

definition show_file :: "u32 \<Rightarrow> u32 \<Rightarrow> inst_t list \<Rightarrow> string" where
  "show_file pri n is = show_nat (unat pri) @ CHR '' '' # show_nat (unat n) @ CHR 0x0A # concat (map show_ins is)"

lemma load_show:
  assumes "length is \<le> unat n" "length is = unat n \<or> is \<noteq> []"
  shows "\<exists>p. load blk txt k (Some (show_file pri n is)) = Some (Inr p, k + 1) \<and> pid p = k \<and> pc p = 0
    \<and> priority p = pri \<and> code_size (code p) = n \<and> mm p = mm blk \<and> regs p = regs blk
    \<and> (\<exists>is'. list_all2 same_ins is' is \<and> code_text (code p) = is'
         @ map (\<lambda>i. (txt i)\<lparr>opcode := opcode (last is)\<rparr>) [length is..<unat n])"
proof -
  let ?w = "concat (map show_ins is)"
  have "scan_num (CHR '' '' # show_nat (unat n) @ CHR 0x0A # ?w) = (Some (False, unat n), CHR 0x0A # ?w)"
    by (rule scan_num_show) simp_all
  moreover have "scan_num (show_file pri n is)
      = (Some (False, unat pri), CHR '' '' # show_nat (unat n) @ CHR 0x0A # ?w)"
    unfolding show_file_def by (rule scan_num_show) simp_all
  ultimately have nums: "scan_nums 2 (show_file pri n is) = ([(False, unat pri), (False, unat n)], CHR 0x0A # ?w)"
    by (simp add: numeral_2_eq_2)
  have "[0..<unat n] = [0..<length is] @ [length is..<unat n]" using assms(1) upt_add_eq_append [of 0 "length is" "unat n - length is"] by simp
  then have split: "map txt [0..<unat n] = map txt [0..<length is] @ map txt [length is..<unat n]" by simp
  have "skip_ws (CHR 0x0A # ?w) = ?w" "length (map txt [0..<length is]) = length is"
    "map txt [length is..<unat n] = [] \<or> is \<noteq> []" using assms(2) by (auto simp: skip_ws_prog)
  from load_loop_show [OF this, of None] obtain is' where
    "load_loop None (map txt [0..<unat n]) (CHR 0x0A # ?w)
       = Some (Inr (is' @ map (repeat_ins (opcode (last is))) (map txt [length is..<unat n])))" "list_all2 same_ins is' is"
    unfolding split by blast
  with nums show ?thesis by (auto simp: load_def got_def conv_u_unat repeat_ins_def comp_def)
qed

section \<open>Properties\<close>

definition ins0 :: inst_t where
  "ins0 = \<lparr>opcode = WRITE, arg_0 = 7, arg_1 = 7, arg_2 = 7\<rparr>"

definition sample_code :: "inst_t list" where
  "sample_code = [\<lparr>opcode = ALLOC, arg_0 = 300, arg_1 = 4294967295, arg_2 = 0\<rparr>, \<lparr>opcode = CALC, arg_0 = 0, arg_1 = 0, arg_2 = 0\<rparr>,
     \<lparr>opcode = WRITE, arg_0 = 102, arg_1 = 1, arg_2 = 20\<rparr>]"

text \<open>
  C26: loading the text of a program gives the program back: a fresh control block with the
  next process number, the priority, and instructions that agree with the printed ones in
  the opcode and in every argument the opcode uses, whatever the memory contained before.
\<close>

theorem load_print_roundtrip:
  assumes "length is < 2 ^ 32"
  shows "\<exists>p. load blk txt n (Some (show_file pri (of_nat (length is)) is)) = Some (Inr p, n + 1)
    \<and> pid p = n \<and> pc p = 0 \<and> priority p = pri \<and> unat (code_size (code p)) = length is
    \<and> list_all2 same_ins (code_text (code p)) is \<and> mm p = mm blk \<and> regs p = regs blk"
proof -
  have "unat (of_nat (length is) :: u32) = length is" using assms by (simp add: unat_of_nat)
  with load_show [of "is" "of_nat (length is)" blk "txt" n pri] show ?thesis by auto
qed

theorem load_print_roundtrip_witness:
  "\<exists>p. load pcb0 (\<lambda>_. ins0) 5 (Some (show_file 2 3 sample_code)) = Some (Inr p, 6) \<and> pid p = 5 \<and> unat (code_size (code p)) = 3"
proof -
  have "length sample_code < 2 ^ 32" by (simp add: sample_code_def)
  from load_print_roundtrip [OF this, of pcb0 "\<lambda>_. ins0" 5 2] show ?thesis by (auto simp: sample_code_def)
qed

text \<open>
  A program file that announces more instructions than it holds is loaded without an
  error: what \<open>fscanf\<close> returns is not looked at, so each missing instruction repeats the
  last opcode with the arguments that the memory of the array happened to contain.
\<close>

theorem load_truncated_file:
  assumes "is \<noteq> []" and "length is \<le> unat n"
  shows "\<exists>p is'. load blk txt k (Some (show_file pri n is)) = Some (Inr p, k + 1) \<and> list_all2 same_ins is' is
    \<and> code_text (code p) = is' @ map (\<lambda>i. (txt i)\<lparr>opcode := opcode (last is)\<rparr>) [length is..<unat n]"
  using load_show [OF assms(2), of blk "txt" k pri] assms(1) by auto

theorem load_truncated_file_witness:
  "\<exists>p is'. load pcb0 (\<lambda>_. ins0) 5 (Some (show_file 2 4 sample_code)) = Some (Inr p, 6)
    \<and> code_text (code p) = is' @ [ins0\<lparr>opcode := WRITE\<rparr>]"
proof -
  have "sample_code \<noteq> []" "length sample_code \<le> unat (4 :: u32)" by (simp_all add: sample_code_def)
  moreover have "[length sample_code..<unat (4 :: u32)] = [3]" "opcode (last sample_code) = WRITE"
    by (simp_all add: sample_code_def upt_rec)
  ultimately show ?thesis using load_truncated_file [of sample_code 4 pcb0 "\<lambda>_. ins0" 5 2] by auto
qed

text \<open>
  A file that cannot be opened and an instruction whose name is not one of the five end
  the program with an error, and an instruction name of ten characters or more overflows the
  buffer it is read to.
\<close>

theorem load_bad_opcode:
  fixes pri n :: u32
  assumes "t \<noteq> []" and "\<forall>c\<in>set t. \<not> isspace c" and "t \<notin> show_opcode ` UNIV" and "0 < unat n" and "ends_token r"
  shows "load blk txt k (Some (show_nat (unat pri) @ CHR '' '' # show_nat (unat n) @ CHR 0x0A # t @ r))
    = (if length t < 10 then Some (Inl (Bad_Opcode t), k + 1) else None)"
proof -
  let ?f = "show_nat (unat pri) @ CHR '' '' # show_nat (unat n) @ CHR 0x0A # t @ r"
  have "scan_num (CHR '' '' # show_nat (unat n) @ CHR 0x0A # t @ r) = (Some (False, unat n), CHR 0x0A # t @ r)"
    by (rule scan_num_show) simp_all
  moreover have "scan_num ?f = (Some (False, unat pri), CHR '' '' # show_nat (unat n) @ CHR 0x0A # t @ r)"
    by (rule scan_num_show) simp_all
  ultimately have nums: "scan_nums 2 ?f = ([(False, unat pri), (False, unat n)], CHR 0x0A # t @ r)"
    by (simp add: numeral_2_eq_2)
  have "t \<noteq> show_opcode c" for c using assms(3) by blast
  from this [of CALC] this [of ALLOC] this [of FREE] this [of READ] this [of WRITE]
  have bad: "get_opcode t = None" by (simp add: get_opcode_def)
  have tok: "scan_s (CHR 0x0A # t @ r) = (Some t, r)" using assms(1,2,5) by (intro scan_s_token) simp_all
  have "map txt [0..<unat n] = txt 0 # map txt [1..<unat n]" using assms(4) by (simp add: upt_conv_Cons)
  then have "load_loop None (map txt [0..<unat n]) (CHR 0x0A # t @ r)
      = (if length t < 10 then Some (Inl (Bad_Opcode t)) else None)"
    by (simp add: load_ins_def tok bad)
  with nums show ?thesis by (simp add: load_def got_def conv_u_unat Let_def)
qed

theorem load_bad_opcode_witness:
  "load pcb0 (\<lambda>_. ins0) 5 (Some (show_nat (unat (1 :: u32)) @ CHR '' '' # show_nat (unat (1 :: u32)) @ CHR 0x0A # ''jump'' @ []))
    = Some (Inl (Bad_Opcode ''jump''), 6)"
proof -
  have "''jump'' \<notin> show_opcode ` UNIV"
  proof
    assume "''jump'' \<in> show_opcode ` UNIV"
    then obtain c where "''jump'' = show_opcode c" by blast
    then show False by (cases c) simp_all
  qed
  then show ?thesis by (subst load_bad_opcode) (simp_all add: isspace_def)
qed

end
