(* ===== verification/Timer.thy ===== *)
theory Timer
  imports Prelude
begin

text \<open>
  The clock of the simulator, \<open>src/timer.c\<close>: a timer thread and any number of device
  threads (the processors and the loader) that finish a time slot together.

  A step is what one thread does between taking and releasing a lock, or between two
  reads of shared data; the threads interleave in any order. A thread in
  \<open>pthread_cond_wait\<close> has given its lock back and sleeps until it is signalled (or wakes
  by itself, which POSIX allows), and then tests its condition again. A device attached
  by \<open>attach_event\<close> is named by the number of its container; \<open>dev_list\<close> links the
  containers, the newest first.
\<close>

section \<open>State\<close>

record timer_id_t =
  ev_done :: int
  fsh :: int

text \<open>Where the timer thread is: \<open>temp\<close> of the two loops is the rest of the list, then \<open>fsh\<close>, \<open>event\<close>.\<close>

datatype timer_pc = TNew | TTop | TScan "nat list" int int | TSleep "nat list" int int
  | TSignal "nat list" int int | TExit

text \<open>
  Where a device thread is: outside \<open>next_slot\<close>, before the test of its waiting loop,
  asleep in it, or gone after \<open>detach_event\<close>.
\<close>

datatype dev_pc = DRun | DCheck | DSleep | DExit

record timer_t =
  dev_list :: "nat list"
  ids :: "timer_id_t list"
  time :: ulong
  timer_started :: int
  timer_stop :: int
  tpc :: timer_pc
  dpcs :: "dev_pc list"
  slot_lines :: "ulong list"

definition timer0 :: timer_t where
  "timer0 = \<lparr>dev_list = [], ids = [], time = 0, timer_started = 0, timer_stop = 0, tpc = TNew, dpcs = [], slot_lines = []\<rparr>"

section \<open>Operations\<close>

definition attach_event :: "timer_t \<Rightarrow> nat option \<times> timer_t" where
  "attach_event s =
     (if timer_started s \<noteq> 0 then (None, s)
      else let d = length (ids s) in
        (Some d, s\<lparr>ids := ids s @ [\<lparr>ev_done = 0, fsh = 0\<rparr>], dpcs := dpcs s @ [DRun],
                   dev_list := d # dev_list s\<rparr>))"

definition start_timer :: "timer_t \<Rightarrow> timer_t" where
  "start_timer s = s\<lparr>timer_started := 1, tpc := TTop\<rparr>"

definition current_time :: "timer_t \<Rightarrow> ulong" where
  "current_time s = time s"

text \<open>\<open>stop_timer\<close> sets the flag; after the timer thread has ended it frees the containers.\<close>

definition stop_timer :: "timer_t \<Rightarrow> timer_t" where
  "stop_timer s = s\<lparr>timer_stop := 1\<rparr>"

definition free_devices :: "timer_t \<Rightarrow> timer_t option" where
  "free_devices s = (if tpc s = TExit then Some (s\<lparr>dev_list := []\<rparr>) else None)"

text \<open>The timer thread sleeping on the condition of device \<open>d\<close> is woken by its signal.\<close>

definition signal_timer :: "nat \<Rightarrow> timer_t \<Rightarrow> timer_t" where
  "signal_timer d s =
     (case tpc s of TSleep ds f e \<Rightarrow> if ds \<noteq> [] \<and> hd ds = d then s\<lparr>tpc := TScan ds f e\<rparr> else s
      | _ \<Rightarrow> s)"

definition set_id :: "nat \<Rightarrow> (timer_id_t \<Rightarrow> timer_id_t) \<Rightarrow> timer_t \<Rightarrow> timer_t" where
  "set_id d f s = s\<lparr>ids := (ids s)[d := f (ids s ! d)]\<rparr>"

definition set_dpc :: "nat \<Rightarrow> dev_pc \<Rightarrow> timer_t \<Rightarrow> timer_t" where
  "set_dpc d p s = s\<lparr>dpcs := (dpcs s)[d := p]\<rparr>"

text \<open>\<open>next_slot\<close> up to its waiting loop, and one round of that loop.\<close>

definition next_slot :: "nat \<Rightarrow> timer_t \<Rightarrow> timer_t option" where
  "next_slot d s =
     do { _ \<leftarrow> require (d < length (ids s) \<and> dpcs s ! d = DRun);
          Some (set_dpc d DCheck (signal_timer d (set_id d (ev_done_update (\<lambda>_. 1)) s))) }"

definition wait_slot :: "nat \<Rightarrow> timer_t \<Rightarrow> timer_t option" where
  "wait_slot d s =
     do { _ \<leftarrow> require (d < length (ids s) \<and> dpcs s ! d = DCheck);
          Some (set_dpc d (if ev_done (ids s ! d) \<noteq> 0 then DSleep else DRun) s) }"

definition detach_event :: "nat \<Rightarrow> timer_t \<Rightarrow> timer_t option" where
  "detach_event d s =
     do { _ \<leftarrow> require (d < length (ids s) \<and> dpcs s ! d = DRun);
          Some (set_dpc d DExit (signal_timer d (set_id d (fsh_update (\<lambda>_. 1)) s))) }"

text \<open>
  One step of \<open>timer_routine\<close>. The step that leaves the first loop also increments
  \<open>_time\<close>; the one that leaves the second decides whether to go on. A sleeping timer has no
  step of its own.
\<close>

definition timer_routine :: "timer_t \<Rightarrow> timer_t option" where
  "timer_routine s =
     (case tpc s of
        TNew \<Rightarrow> None
      | TTop \<Rightarrow> Some (if timer_stop s \<noteq> 0 then s\<lparr>tpc := TExit\<rparr>
                 else s\<lparr>slot_lines := slot_lines s @ [current_time s], tpc := TScan (dev_list s) 0 0\<rparr>)
      | TScan [] f e \<Rightarrow> Some (s\<lparr>time := time s + 1, tpc := TSignal (dev_list s) f e\<rparr>)
      | TScan (d # ds) f e \<Rightarrow>
          do { t \<leftarrow> list_get (ids s) (int d);
               Some (s\<lparr>tpc := if ev_done t = 0 \<and> fsh t = 0 then TSleep (d # ds) f e
                               else TScan ds (if fsh t \<noteq> 0 then f + 1 else f) (e + 1)\<rparr>) }
      | TSleep ds f e \<Rightarrow> None
      | TSignal [] f e \<Rightarrow> Some (s\<lparr>tpc := if f = e then TExit else TTop\<rparr>)
      | TSignal (d # ds) f e \<Rightarrow>
          do { _ \<leftarrow> list_get (ids s) (int d);
               Some ((set_id d (ev_done_update (\<lambda>_. 0)) s)
                      \<lparr>dpcs := (dpcs s)[d := if dpcs s ! d = DSleep then DCheck else dpcs s ! d],
                       tpc := TSignal ds f e\<rparr>) }
      | TExit \<Rightarrow> None)"

section \<open>Runs\<close>

text \<open>
  The actions of the threads. \<open>Wake\<close> and \<open>Wake_timer\<close> are the wake-ups without a signal.
\<close>

datatype tact = Tick | Wake_timer | Next nat | Wait nat | Wake nat | Detach nat | Stop

fun tstep :: "tact \<Rightarrow> timer_t \<Rightarrow> timer_t option" where
  "tstep Tick s = timer_routine s"
| "tstep Wake_timer s = (case tpc s of TSleep ds f e \<Rightarrow> Some (s\<lparr>tpc := TScan ds f e\<rparr>) | _ \<Rightarrow> None)"
| "tstep (Next d) s = next_slot d s"
| "tstep (Wait d) s = wait_slot d s"
| "tstep (Wake d) s =
     (if d < length (ids s) \<and> dpcs s ! d = DSleep then Some (set_dpc d DCheck s) else None)"
| "tstep (Detach d) s = detach_event d s"
| "tstep Stop s = Some (stop_timer s)"

fun trun :: "tact list \<Rightarrow> timer_t \<Rightarrow> timer_t option" where
  "trun [] s = Some s"
| "trun (a # tr) s = do { s' \<leftarrow> tstep a s; trun tr s' }"

primrec attach_n :: "nat \<Rightarrow> timer_t \<Rightarrow> timer_t" where
  "attach_n 0 s = s"
| "attach_n (Suc n) s = attach_n n (snd (attach_event s))"

text \<open>The slots a device has finished: its calls of \<open>next_slot\<close>.\<close>

definition finished :: "tact list \<Rightarrow> nat \<Rightarrow> nat" where
  "finished tr d = count_list tr (Next d)"

lemma trun_append: "trun (tr @ tr') s = do { s' \<leftarrow> trun tr s; trun tr' s' }"
  by (induction tr s rule: trun.induct) (auto split: Option.bind_splits)

section \<open>The invariant\<close>

definition reached :: "timer_t \<Rightarrow> nat \<Rightarrow> bool" where
  "reached s d \<longleftrightarrow> ev_done (ids s ! d) = 1 \<or> fsh (ids s ! d) = 1"

definition gone :: "timer_t \<Rightarrow> nat \<Rightarrow> bool" where
  "gone s d \<longleftrightarrow> fsh (ids s ! d) = 1"

text \<open>Devices the timer has not yet released in the second loop.\<close>

definition held :: "timer_t \<Rightarrow> nat set" where
  "held s = (case tpc s of TSignal ds f e \<Rightarrow> set ds | _ \<Rightarrow> {})"

definition dev_inv :: "nat \<Rightarrow> nat \<Rightarrow> timer_t \<Rightarrow> nat \<Rightarrow> bool" where
  "dev_inv T b s d \<longleftrightarrow>
     ev_done (ids s ! d) \<in> {0, 1} \<and> fsh (ids s ! d) \<in> {0, 1}
     \<and> (dpcs s ! d = DExit \<longleftrightarrow> fsh (ids s ! d) = 1)
     \<and> (dpcs s ! d \<in> {DRun, DExit} \<longrightarrow> ev_done (ids s ! d) = 0)
     \<and> (dpcs s ! d = DSleep \<longrightarrow> ev_done (ids s ! d) = 1)
     \<and> (fsh (ids s ! d) = 0 \<longrightarrow> b = T + (if ev_done (ids s ! d) = 1 \<and> d \<notin> held s then 1 else 0))"

definition scanned :: "timer_t \<Rightarrow> nat list \<Rightarrow> int \<Rightarrow> int \<Rightarrow> bool" where
  "scanned s ds f e \<longleftrightarrow> (\<exists>pre. dev_list s = pre @ ds \<and> (\<forall>d\<in>set pre. reached s d)
     \<and> e = int (length pre) \<and> f \<le> e \<and> (f = e \<longrightarrow> (\<forall>d\<in>set pre. gone s d)))"

definition tpc_inv :: "timer_t \<Rightarrow> bool" where
  "tpc_inv s \<longleftrightarrow>
     (case tpc s of TNew \<Rightarrow> True | TTop \<Rightarrow> True
      | TScan ds f e \<Rightarrow> scanned s ds f e
      | TSleep ds f e \<Rightarrow> scanned s ds f e \<and> ds \<noteq> [] \<and> \<not> reached s (hd ds)
      | TSignal ds f e \<Rightarrow> (\<exists>pre. dev_list s = pre @ ds) \<and> (\<forall>d\<in>set ds. reached s d)
          \<and> f \<le> e \<and> (f = e \<longrightarrow> (\<forall>d\<in>set (dev_list s). gone s d))
      | TExit \<Rightarrow> timer_stop s \<noteq> 0 \<or> (\<forall>d\<in>set (dev_list s). gone s d))"

definition timer_inv :: "nat \<Rightarrow> (nat \<Rightarrow> nat) \<Rightarrow> timer_t \<Rightarrow> bool" where
  "timer_inv T b s \<longleftrightarrow> set (dev_list s) = {..<length (ids s)} \<and> distinct (dev_list s)
     \<and> length (dpcs s) = length (ids s) \<and> time s = of_nat T
     \<and> (\<forall>d<length (ids s). dev_inv T (b d) s d) \<and> tpc_inv s"


lemmas timer_defs = set_id_def set_dpc_def signal_timer_def

lemma signal_fields [simp]:
  "ids (signal_timer d s) = ids s" "dpcs (signal_timer d s) = dpcs s" "dev_list (signal_timer d s) = dev_list s"
  "time (signal_timer d s) = time s" "timer_stop (signal_timer d s) = timer_stop s"
  by (simp_all add: signal_timer_def split: timer_pc.splits)

lemma set_fields [simp]:
  "ids (set_dpc d p s) = ids s" "dpcs (set_dpc d p s) = (dpcs s)[d := p]" "tpc (set_dpc d p s) = tpc s"
  "dev_list (set_dpc d p s) = dev_list s" "time (set_dpc d p s) = time s" "timer_stop (set_dpc d p s) = timer_stop s"
  "ids (set_id d f s) = (ids s)[d := f (ids s ! d)]" "dpcs (set_id d f s) = dpcs s" "tpc (set_id d f s) = tpc s"
  "dev_list (set_id d f s) = dev_list s" "time (set_id d f s) = time s" "timer_stop (set_id d f s) = timer_stop s"
  by (simp_all add: set_dpc_def set_id_def)

lemma scanned_mono:
  assumes "scanned s ds f e" "dev_list s' = dev_list s"
    and "\<And>d. d \<in> set (dev_list s) \<Longrightarrow> reached s d \<Longrightarrow> reached s' d"
    and "\<And>d. d \<in> set (dev_list s) \<Longrightarrow> gone s d \<Longrightarrow> gone s' d"
  shows "scanned s' ds f e"
proof -
  from assms(1) obtain pre where pre: "dev_list s = pre @ ds" "\<forall>d\<in>set pre. reached s d" "e = int (length pre)"
    "f \<le> e" "f = e \<longrightarrow> (\<forall>d\<in>set pre. gone s d)" by (auto simp: scanned_def)
  then have "\<forall>d\<in>set pre. reached s' d" "f = e \<longrightarrow> (\<forall>d\<in>set pre. gone s' d)" using assms(3,4) by auto
  with pre assms(2) show ?thesis unfolding scanned_def by (intro exI [of _ pre]) simp
qed

text \<open>A device that arrives or leaves, with its signal: what the timer has seen stays true.\<close>

lemma tpc_inv_signal:
  assumes inv: "tpc_inv s" and s': "dev_list s' = dev_list s" "tpc s' = tpc (signal_timer d s)" "timer_stop s' = timer_stop s"
    and mono: "\<And>x. x \<in> set (dev_list s) \<Longrightarrow> reached s x \<Longrightarrow> reached s' x" "\<And>x. x \<in> set (dev_list s) \<Longrightarrow> gone s x \<Longrightarrow> gone s' x"
    and other: "\<And>x. x \<noteq> d \<Longrightarrow> x \<in> set (dev_list s) \<Longrightarrow> reached s' x = reached s x"
  shows "tpc_inv s'"
proof (cases "tpc s")
  case (TSleep ds f e)
  then have sc: "scanned s ds f e" "ds \<noteq> []" "\<not> reached s (hd ds)" using inv by (simp_all add: tpc_inv_def)
  then have "hd ds \<in> set (dev_list s)" by (auto simp: scanned_def)
  moreover have "scanned s' ds f e" using sc(1) s'(1) mono by (rule scanned_mono)
  ultimately show ?thesis using TSleep sc s' other by (auto simp: tpc_inv_def signal_timer_def)
next
  case (TScan ds f e)
  then have "scanned s ds f e" using inv by (simp add: tpc_inv_def)
  then have "scanned s' ds f e" using s'(1) mono by (rule scanned_mono)
  with TScan s' show ?thesis by (simp add: tpc_inv_def signal_timer_def)
next
  case (TSignal ds f e)
  with inv s' mono show ?thesis by (auto simp: tpc_inv_def signal_timer_def)
qed (use inv s' mono in \<open>auto simp: tpc_inv_def signal_timer_def\<close>)

lemma held_signal: "held (signal_timer d s) = held s"
  by (auto simp: held_def signal_timer_def split: timer_pc.splits)

lemma not_held:
  assumes "timer_inv T b s" "d < length (ids s)" "dpcs s ! d = DRun"
  shows "d \<notin> held s" "ev_done (ids s ! d) = 0" "fsh (ids s ! d) = 0" "b d = T"
proof -
  have d: "dev_inv T (b d) s d" and t: "tpc_inv s" using assms by (simp_all add: timer_inv_def)
  then show 1: "ev_done (ids s ! d) = 0" "fsh (ids s ! d) = 0" using assms(3) by (auto simp: dev_inv_def)
  then show "d \<notin> held s" using t by (auto simp: held_def tpc_inv_def reached_def split: timer_pc.splits)
  show "b d = T" using d 1 by (simp add: dev_inv_def)
qed

lemma next_slot_inv:
  assumes inv: "timer_inv T b s" and step: "next_slot d s = Some s'"
  shows "timer_inv T (b(d := b d + 1)) s'"
proof -
  have d: "d < length (ids s)" "dpcs s ! d = DRun" using step by (auto simp: next_slot_def split: Option.bind_splits)
  have s': "s' = set_dpc d DCheck (signal_timer d (set_id d (ev_done_update (\<lambda>_. 1)) s))"
    using step d by (simp add: next_slot_def)
  note nh = not_held [OF inv d]
  have len: "length (dpcs s) = length (ids s)" using inv by (simp add: timer_inv_def)
  have t: "tpc s' = tpc (signal_timer d s)" by (simp add: s' signal_timer_def split: timer_pc.splits)
  then have held: "held s' = held s" using held_signal [of d s] by (simp add: held_def)
  have "dev_inv T ((b(d := b d + 1)) x) s' x" if "x < length (ids s)" for x
    using inv that d nh len held by (auto simp: timer_inv_def dev_inv_def s' nth_list_update)
  moreover have "tpc_inv s'"
  proof (rule tpc_inv_signal [OF _ _ t])
    show "tpc_inv s" using inv by (simp add: timer_inv_def)
  qed (use d in \<open>auto simp: s' reached_def gone_def nth_list_update\<close>)
  ultimately show ?thesis using inv by (simp add: timer_inv_def s')
qed

lemma detach_event_inv:
  assumes inv: "timer_inv T b s" and step: "detach_event d s = Some s'"
  shows "timer_inv T b s'"
proof -
  have d: "d < length (ids s)" "dpcs s ! d = DRun" using step by (auto simp: detach_event_def split: Option.bind_splits)
  have s': "s' = set_dpc d DExit (signal_timer d (set_id d (fsh_update (\<lambda>_. 1)) s))"
    using step d by (simp add: detach_event_def)
  note nh = not_held [OF inv d]
  have len: "length (dpcs s) = length (ids s)" using inv by (simp add: timer_inv_def)
  have t: "tpc s' = tpc (signal_timer d s)" by (simp add: s' signal_timer_def split: timer_pc.splits)
  then have held: "held s' = held s" using held_signal [of d s] by (simp add: held_def)
  have "dev_inv T (b x) s' x" if "x < length (ids s)" for x
    using inv that d nh len held by (auto simp: timer_inv_def dev_inv_def s' nth_list_update)
  moreover have "tpc_inv s'"
  proof (rule tpc_inv_signal [OF _ _ t])
    show "tpc_inv s" using inv by (simp add: timer_inv_def)
  qed (use d in \<open>auto simp: s' reached_def gone_def nth_list_update\<close>)
  ultimately show ?thesis using inv by (simp add: timer_inv_def s')
qed

text \<open>A device thread that only moves inside \<open>next_slot\<close>.\<close>

lemma set_dpc_inv:
  assumes inv: "timer_inv T b s" and d: "d < length (ids s)" "dpcs s ! d \<in> {DCheck, DSleep}"
    and p: "p = DCheck \<or> p = DSleep \<and> ev_done (ids s ! d) = 1 \<or> p = DRun \<and> ev_done (ids s ! d) = 0"
  shows "timer_inv T b (set_dpc d p s)"
proof -
  let ?s = "set_dpc d p s"
  have same: "reached ?s = reached s" "gone ?s = gone s" "held ?s = held s"
    by (auto simp: reached_def gone_def held_def)
  have len: "length (dpcs s) = length (ids s)" using inv by (simp add: timer_inv_def)
  have "dev_inv T (b x) ?s x" if "x < length (ids s)" for x
    using inv that d p len same(3) by (auto simp: timer_inv_def dev_inv_def nth_list_update)
  moreover have "tpc_inv ?s" using inv same by (auto simp: timer_inv_def tpc_inv_def scanned_def split: timer_pc.splits)
  ultimately show ?thesis using inv by (simp add: timer_inv_def)
qed

lemma wait_slot_inv:
  assumes inv: "timer_inv T b s" and step: "wait_slot d s = Some s'"
  shows "timer_inv T b s'"
proof -
  have d: "d < length (ids s)" "dpcs s ! d = DCheck"
    and s': "s' = set_dpc d (if ev_done (ids s ! d) \<noteq> 0 then DSleep else DRun) s"
    using step by (auto simp: wait_slot_def bind_Some_iff)
  have "ev_done (ids s ! d) = 0 \<or> ev_done (ids s ! d) = 1" using inv d(1) by (simp add: timer_inv_def dev_inv_def)
  then show ?thesis unfolding s' by (intro set_dpc_inv [OF inv d(1)]) (auto simp: d(2))
qed

lemma timer_tpc_inv:
  assumes inv: "timer_inv T b s" and p: "tpc_inv (s\<lparr>tpc := p\<rparr>)" "held (s\<lparr>tpc := p\<rparr>) = held s"
  shows "timer_inv T b (s\<lparr>tpc := p\<rparr>)"
  using inv p by (auto simp: timer_inv_def dev_inv_def)

lemma tpc_update_same [simp]:
  "reached (s\<lparr>tpc := p\<rparr>) = reached s" "gone (s\<lparr>tpc := p\<rparr>) = gone s" "scanned (s\<lparr>tpc := p\<rparr>) = scanned s"
  "reached (s\<lparr>time := t\<rparr>) = reached s" "gone (s\<lparr>time := t\<rparr>) = gone s"
  "reached (s\<lparr>timer_stop := z\<rparr>) = reached s" "gone (s\<lparr>timer_stop := z\<rparr>) = gone s"
  "scanned (s\<lparr>timer_stop := z\<rparr>) = scanned s" "held (s\<lparr>timer_stop := z\<rparr>) = held s"
  by (auto simp: reached_def gone_def scanned_def held_def fun_eq_iff)

lemma scan_step_inv:
  assumes inv: "timer_inv T b s" and pc: "tpc s = TScan (d # ds) f e" and step: "timer_routine s = Some s'"
  shows "timer_inv T b s'"
proof -
  obtain pre where pre: "dev_list s = pre @ d # ds" "\<forall>x\<in>set pre. reached s x" "e = int (length pre)" "f \<le> e"
      "f = e \<longrightarrow> (\<forall>x\<in>set pre. gone s x)"
    using inv pc by (auto simp: timer_inv_def tpc_inv_def scanned_def)
  have "d \<in> set (dev_list s)" using pre(1) by simp
  then have d: "d < length (ids s)" using inv by (auto simp: timer_inv_def)
  have bits: "ev_done (ids s ! d) \<in> {0, 1}" "fsh (ids s ! d) \<in> {0, 1}" using inv d by (auto simp: timer_inv_def dev_inv_def)
  let ?t = "ids s ! d" let ?f = "if fsh ?t \<noteq> 0 then f + 1 else f"
  have s': "s' = s\<lparr>tpc := if ev_done ?t = 0 \<and> fsh ?t = 0 then TSleep (d # ds) f e else TScan ds ?f (e + 1)\<rparr>"
    using step pc d by (simp add: timer_routine_def list_get_def)
  have "scanned s ds ?f (e + 1)" if "reached s d"
    unfolding scanned_def using pre that bits by (intro exI [of _ "pre @ [d]"]) (auto simp: gone_def)
  moreover have "scanned s (d # ds) f e" using inv pc by (simp add: timer_inv_def tpc_inv_def)
  ultimately have "tpc_inv s'" using bits by (auto simp: tpc_inv_def s' reached_def)
  then show ?thesis unfolding s' by (rule timer_tpc_inv [OF inv]) (auto simp: held_def pc)
qed

lemma tick_inv:
  assumes inv: "timer_inv T b s" and pc: "tpc s = TScan [] f e"
  shows "timer_inv (Suc T) b (s\<lparr>time := time s + 1, tpc := TSignal (dev_list s) f e\<rparr>)" (is "timer_inv _ _ ?s")
proof -
  have sc: "\<forall>x\<in>set (dev_list s). reached s x" "f \<le> e" "f = e \<longrightarrow> (\<forall>x\<in>set (dev_list s). gone s x)"
    using inv pc by (auto simp: timer_inv_def tpc_inv_def scanned_def)
  have all: "held ?s = {..<length (ids s)}" "held s = {}" using inv by (simp_all add: held_def timer_inv_def pc)
  have "dev_inv (Suc T) (b x) ?s x" if "x < length (ids s)" for x
  proof -
    have "x \<in> set (dev_list s)" using inv that by (simp add: timer_inv_def)
    then have "reached s x" using sc by blast
    moreover have "dev_inv T (b x) s x" using inv that by (simp add: timer_inv_def)
    ultimately show ?thesis using all that by (auto simp: dev_inv_def reached_def)
  qed
  moreover have "tpc_inv ?s" using sc by (simp add: tpc_inv_def)
  ultimately show ?thesis using inv by (simp add: timer_inv_def)
qed

lemma release_inv:
  assumes inv: "timer_inv T b s" and pc: "tpc s = TSignal (d # ds) f e" and step: "timer_routine s = Some s'"
  shows "timer_inv T b s'"
proof -
  obtain pre where pre: "dev_list s = pre @ d # ds" "\<forall>x\<in>set (d # ds). reached s x" "f \<le> e"
      "f = e \<longrightarrow> (\<forall>x\<in>set (dev_list s). gone s x)"
    using inv pc by (auto simp: timer_inv_def tpc_inv_def)
  have d: "d < length (ids s)" "d \<notin> set ds" "length (dpcs s) = length (ids s)"
    using inv pre(1) by (auto simp: timer_inv_def)
  have s': "s' = (set_id d (ev_done_update (\<lambda>_. 0)) s)
      \<lparr>dpcs := (dpcs s)[d := if dpcs s ! d = DSleep then DCheck else dpcs s ! d], tpc := TSignal ds f e\<rparr>"
    using step pc d by (simp add: timer_routine_def list_get_def)
  have held: "held s = insert d (set ds)" "held s' = set ds" by (simp_all add: held_def pc s')
  have reached: "reached s' x = reached s x" if "x \<noteq> d" for x using that by (simp add: reached_def s')
  have gone: "gone s' = gone s" using d by (auto simp: gone_def s' nth_list_update fun_eq_iff)
  have "dev_inv T (b x) s' x" if "x < length (ids s)" for x
    using inv that d held by (auto simp: timer_inv_def dev_inv_def s' nth_list_update split: if_splits)
  moreover have "tpc_inv s'"
  proof -
    have "dev_list s' = (pre @ [d]) @ ds" using pre(1) by (simp add: s')
    then have "\<exists>pre. dev_list s' = pre @ ds" by blast
    moreover have "\<forall>x\<in>set ds. reached s' x" using pre(2) d(2) reached by (metis list.set_intros(2))
    moreover have "tpc s' = TSignal ds f e" "dev_list s' = dev_list s" by (simp_all add: s')
    ultimately show ?thesis using pre(3,4) gone by (simp add: tpc_inv_def)
  qed
  ultimately show ?thesis using inv by (simp add: timer_inv_def s')
qed

lemma timer_inv_lines [simp]: "timer_inv T b (s\<lparr>slot_lines := x\<rparr>) = timer_inv T b s"
  by (simp add: timer_inv_def dev_inv_def tpc_inv_def held_def reached_def scanned_def gone_def cong: timer_pc.case_cong)

lemma timer_routine_inv:
  assumes inv: "timer_inv T b s" and step: "timer_routine s = Some s'"
  shows "\<exists>T'. timer_inv T' b s'"
proof (cases "tpc s")
  case TTop
  have "timer_inv T b (s\<lparr>tpc := if timer_stop s \<noteq> 0 then TExit else TScan (dev_list s) 0 0\<rparr>)"
    by (rule timer_tpc_inv [OF inv]) (auto simp: tpc_inv_def scanned_def held_def TTop)
  then have "timer_inv T b ((if timer_stop s \<noteq> 0 then s\<lparr>tpc := TExit\<rparr> else s\<lparr>tpc := TScan (dev_list s) 0 0\<rparr>)\<lparr>slot_lines := slot_lines s'\<rparr>)"
    by (simp split: if_splits)
  moreover have "s' = (if timer_stop s \<noteq> 0 then s\<lparr>tpc := TExit\<rparr> else s\<lparr>tpc := TScan (dev_list s) 0 0\<rparr>)\<lparr>slot_lines := slot_lines s'\<rparr>"
    using TTop step by (auto simp: timer_routine_def)
  ultimately show ?thesis by auto
next
  case (TScan ds f e)
  show ?thesis
  proof (cases ds)
    case Nil
    with tick_inv [OF inv] TScan step show ?thesis by (auto simp: timer_routine_def)
  next
    case (Cons d ds')
    with scan_step_inv [OF inv _ step] TScan show ?thesis by blast
  qed
next
  case (TSignal ds f e)
  show ?thesis
  proof (cases ds)
    case Nil
    have "timer_inv T b (s\<lparr>tpc := if f = e then TExit else TTop\<rparr>)"
      using inv TSignal Nil by (intro timer_tpc_inv [OF inv]) (auto simp: tpc_inv_def held_def timer_inv_def)
    with TSignal Nil step show ?thesis by (auto simp: timer_routine_def)
  next
    case (Cons d ds')
    with release_inv [OF inv _ step] TSignal show ?thesis by blast
  qed
qed (use step in \<open>simp_all add: timer_routine_def\<close>)

lemma finished_snoc: "finished (tr @ [a]) = (case a of Next d \<Rightarrow> (finished tr)(d := finished tr d + 1) | _ \<Rightarrow> finished tr)"
  by (auto simp: finished_def count_list_append split: tact.splits)

lemma tstep_inv:
  assumes inv: "timer_inv T (finished tr) s" and step: "tstep a s = Some s'"
  shows "\<exists>T'. timer_inv T' (finished (tr @ [a])) s'"
proof (cases a)
  case Tick
  with timer_routine_inv [OF inv] step show ?thesis by (auto simp: finished_snoc)
next
  case Wake_timer
  then obtain ds f e where 1: "tpc s = TSleep ds f e" "s' = s\<lparr>tpc := TScan ds f e\<rparr>" using step by (auto split: timer_pc.splits)
  have "timer_inv T (finished tr) s'"
    unfolding 1(2) using inv 1(1) by (intro timer_tpc_inv) (auto simp: tpc_inv_def held_def timer_inv_def)
  with Wake_timer show ?thesis by (auto simp: finished_snoc)
next
  case (Next d)
  with next_slot_inv [OF inv] step show ?thesis by (auto simp: finished_snoc)
next
  case (Wait d)
  then have "timer_inv T (finished tr) s'" using step by (auto intro: wait_slot_inv [OF inv])
  with Wait show ?thesis by (auto simp: finished_snoc)
next
  case (Wake d)
  then have "timer_inv T (finished tr) s'" using step by (auto split: if_splits intro!: set_dpc_inv [OF inv])
  with Wake show ?thesis by (auto simp: finished_snoc)
next
  case (Detach d)
  with detach_event_inv [OF inv] step show ?thesis by (auto simp: finished_snoc)
next
  case Stop
  have "tpc_inv (stop_timer s)"
    using inv by (cases "tpc s") (simp_all add: timer_inv_def tpc_inv_def stop_timer_def)
  then have "timer_inv T (finished tr) (stop_timer s)"
    using inv by (simp add: timer_inv_def dev_inv_def stop_timer_def)
  with Stop step show ?thesis by (auto simp: finished_snoc)
qed

lemma trun_inv:
  "\<lbrakk>trun tr s = Some s'; timer_inv T (finished tr0) s\<rbrakk> \<Longrightarrow> \<exists>T'. timer_inv T' (finished (tr0 @ tr)) s'"
proof (induction tr s arbitrary: T tr0 rule: trun.induct)
  case (2 a tr s)
  then obtain s1 where s1: "tstep a s = Some s1" "trun tr s1 = Some s'" by (auto simp: bind_Some_iff)
  obtain T1 where "timer_inv T1 (finished (tr0 @ [a])) s1" using tstep_inv [OF "2.prems"(2) s1(1)] by blast
  from "2.IH" [OF s1 this] show ?case by simp
qed auto

section \<open>The timer at the start\<close>

lemma attach_n_state:
  assumes "timer_started s = 0" "ids s = replicate k \<lparr>ev_done = 0, fsh = 0\<rparr>" "dpcs s = replicate k DRun" "dev_list s = rev [0..<k]"
  shows "attach_n n s = s\<lparr>ids := replicate (k + n) \<lparr>ev_done = 0, fsh = 0\<rparr>, dpcs := replicate (k + n) DRun,
    dev_list := rev [0..<k + n]\<rparr>"
  using assms
proof (induction n arbitrary: k s)
  case (Suc n)
  have "snd (attach_event s) = s\<lparr>ids := replicate (Suc k) \<lparr>ev_done = 0, fsh = 0\<rparr>, dpcs := replicate (Suc k) DRun,
      dev_list := rev [0..<Suc k]\<rparr>" (is "_ = ?s")
    using Suc.prems by (simp add: attach_event_def Let_def replicate_append_same)
  with Suc.IH [of ?s "Suc k"] Suc.prems(1) show ?case by simp
qed simp

definition boot_timer :: "nat \<Rightarrow> timer_t" where
  "boot_timer n = start_timer (attach_n n timer0)"

lemma boot_timer_state:
  "boot_timer n = \<lparr>dev_list = rev [0..<n], ids = replicate n \<lparr>ev_done = 0, fsh = 0\<rparr>, time = 0,
     timer_started = 1, timer_stop = 0, tpc = TTop, dpcs = replicate n DRun, slot_lines = []\<rparr>"
  using attach_n_state [of timer0 0 n] by (simp add: boot_timer_def start_timer_def timer0_def)

lemma boot_timer_inv: "timer_inv 0 (finished []) (boot_timer n)"
  by (auto simp: boot_timer_state timer_inv_def dev_inv_def tpc_inv_def finished_def held_def)

lemma run_inv:
  assumes "trun tr (boot_timer n) = Some s"
  obtains T where "timer_inv T (finished tr) s"
  using trun_inv [OF assms boot_timer_inv] by auto

lemma tstep_length: "tstep a s = Some s' \<Longrightarrow> length (ids s') = length (ids s)"
proof (cases a)
  case Tick
  then show "tstep a s = Some s' \<Longrightarrow> ?thesis"
    by (auto simp: timer_routine_def bind_Some_iff split: timer_pc.splits list.splits)
qed (auto simp: next_slot_def wait_slot_def detach_event_def stop_timer_def bind_Some_iff split: timer_pc.splits if_splits)

lemma trun_length: "trun tr s = Some s' \<Longrightarrow> length (ids s') = length (ids s)"
  by (induction tr s rule: trun.induct) (auto simp: bind_Some_iff dest: tstep_length)

lemma run_devices: "trun tr (boot_timer n) = Some s \<Longrightarrow> length (ids s) = n"
  by (drule trun_length) (simp add: boot_timer_state)

lemma trun_trans: "trun tr s = Some s1 \<Longrightarrow> trun tr' s1 = r \<Longrightarrow> trun (tr @ tr') s = r"
  by (simp add: trun_append)

lemma tstep_not_new: "tstep a s = Some s' \<Longrightarrow> tpc s \<noteq> TNew \<Longrightarrow> tpc s' \<noteq> TNew"
  by (cases a) (auto simp: timer_routine_def next_slot_def wait_slot_def detach_event_def stop_timer_def signal_timer_def
    bind_Some_iff split: timer_pc.splits list.splits if_splits)

lemma trun_not_new: "trun tr s = Some s' \<Longrightarrow> tpc s \<noteq> TNew \<Longrightarrow> tpc s' \<noteq> TNew"
proof (induction tr s rule: trun.induct)
  case (2 a tr s)
  then obtain s1 where s1: "tstep a s = Some s1" "trun tr s1 = Some s'" by (auto simp: bind_Some_iff)
  from "2.IH" [OF s1] tstep_not_new [OF s1(1)] "2.prems"(2) show ?case by blast
qed simp

section \<open>A slot ends\<close>

text \<open>The first loop when every device has arrived or left, and the second loop.\<close>

definition count_gone :: "timer_t \<Rightarrow> nat list \<Rightarrow> int" where
  "count_gone s ds = int (length (filter (\<lambda>d. fsh (ids s ! d) \<noteq> 0) ds))"

lemma scan_loop:
  assumes "tpc s = TScan ds f e" "\<forall>d\<in>set ds. d < length (ids s) \<and> (ev_done (ids s ! d) \<noteq> 0 \<or> fsh (ids s ! d) \<noteq> 0)"
  shows "trun (replicate (length ds) Tick) s = Some (s\<lparr>tpc := TScan [] (f + count_gone s ds) (e + int (length ds))\<rparr>)"
  using assms
proof (induction ds arbitrary: s f e)
  case (Cons d ds)
  let ?f = "if fsh (ids s ! d) \<noteq> 0 then f + 1 else f"
  have "timer_routine s = Some (s\<lparr>tpc := TScan ds ?f (e + 1)\<rparr>)"
    using Cons.prems by (auto simp: timer_routine_def list_get_def)
  moreover note Cons.IH [of "s\<lparr>tpc := TScan ds ?f (e + 1)\<rparr>" ?f "e + 1"]
  ultimately show ?case using Cons.prems(2) by (simp add: count_gone_def algebra_simps)
qed (simp add: count_gone_def)

lemma release_loop:
  assumes "tpc s = TSignal ds f e" "\<forall>d\<in>set ds. d < length (ids s)" "length (dpcs s) = length (ids s)" "distinct ds"
  shows "\<exists>s'. trun (replicate (length ds) Tick) s = Some s' \<and> tpc s' = TSignal [] f e \<and> time s' = time s
    \<and> dev_list s' = dev_list s \<and> timer_stop s' = timer_stop s
    \<and> (\<forall>d<length (ids s). fsh (ids s' ! d) = fsh (ids s ! d)
         \<and> ev_done (ids s' ! d) = (if d \<in> set ds then 0 else ev_done (ids s ! d))
         \<and> dpcs s' ! d = (if d \<in> set ds \<and> dpcs s ! d = DSleep then DCheck else dpcs s ! d))"
  using assms
proof (induction ds arbitrary: s)
  case (Cons d ds)
  define u where "u = (set_id d (ev_done_update (\<lambda>_. 0)) s)
    \<lparr>dpcs := (dpcs s)[d := if dpcs s ! d = DSleep then DCheck else dpcs s ! d], tpc := TSignal ds f e\<rparr>"
  have step: "timer_routine s = Some u" using Cons.prems by (simp add: timer_routine_def list_get_def u_def)
  have u: "tpc u = TSignal ds f e" "length (ids u) = length (ids s)" "length (dpcs u) = length (ids u)" "time u = time s"
    "dev_list u = dev_list s" "timer_stop u = timer_stop s" using Cons.prems(3) by (simp_all add: u_def)
  from Cons.IH [of u] u Cons.prems obtain s' where s': "trun (replicate (length ds) Tick) u = Some s'"
    "tpc s' = TSignal [] f e" "time s' = time s" "dev_list s' = dev_list s" "timer_stop s' = timer_stop s"
    "\<forall>x<length (ids s). fsh (ids s' ! x) = fsh (ids u ! x)
       \<and> ev_done (ids s' ! x) = (if x \<in> set ds then 0 else ev_done (ids u ! x))
       \<and> dpcs s' ! x = (if x \<in> set ds \<and> dpcs u ! x = DSleep then DCheck else dpcs u ! x)" by auto
  have "trun (replicate (length (d # ds)) Tick) s = Some s'" using step s'(1) by simp
  moreover have "\<forall>x<length (ids s). fsh (ids u ! x) = fsh (ids s ! x) \<and> ev_done (ids u ! x) = (if x = d then 0 else ev_done (ids s ! x))
      \<and> dpcs u ! x = (if x = d \<and> dpcs s ! x = DSleep then DCheck else dpcs s ! x)"
    using Cons.prems(3) by (auto simp: u_def nth_list_update)
  ultimately show ?case using s' by (intro exI [of _ s']) auto
qed simp

lemma count_gone_all: "count_gone s ds = int (length ds) \<longleftrightarrow> (\<forall>d\<in>set ds. fsh (ids s ! d) \<noteq> 0)"
proof (induction ds)
  case (Cons d ds)
  have le: "count_gone s ds \<le> int (length ds)" by (simp add: count_gone_def)
  have "count_gone s (d # ds) = count_gone s ds + (if fsh (ids s ! d) \<noteq> 0 then 1 else 0)" by (simp add: count_gone_def)
  with Cons le show ?case by (cases "fsh (ids s ! d) = 0") auto
qed (simp add: count_gone_def)

lemma slot_end:
  assumes inv: "timer_inv T b s" and top: "tpc s = TTop" "timer_stop s = 0"
    and all: "\<forall>d<length (ids s). dpcs s ! d \<in> {DSleep, DExit}"
  shows "\<exists>s'. trun (replicate (2 * length (ids s) + 3) Tick) s = Some s' \<and> time s' = time s + 1
    \<and> tpc s' = (if \<forall>d<length (ids s). dpcs s ! d = DExit then TExit else TTop)
    \<and> (\<forall>d<length (ids s). ev_done (ids s' ! d) = 0 \<and> dpcs s' ! d = (if dpcs s ! d = DSleep then DCheck else dpcs s ! d))"
proof -
  let ?n = "length (ids s)" and ?L = "dev_list s"
  have L: "set ?L = {..<?n}" "distinct ?L" "length (dpcs s) = ?n" using inv by (simp_all add: timer_inv_def)
  then have len: "length ?L = ?n" by (metis distinct_card card_lessThan)
  let ?e = "int ?n" let ?f = "count_gone s ?L"
  let ?s0 = "s\<lparr>slot_lines := slot_lines s @ [current_time s]\<rparr>"
  let ?s1 = "?s0\<lparr>tpc := TScan ?L 0 0\<rparr>" let ?s2 = "?s0\<lparr>tpc := TScan [] ?f ?e\<rparr>"
  let ?s3 = "?s0\<lparr>time := time s + 1, tpc := TSignal ?L ?f ?e\<rparr>"
  have 1: "trun (replicate 1 Tick) s = Some ?s1" using top by (simp add: timer_routine_def)
  have rdy: "\<forall>d\<in>set ?L. d < length (ids ?s1) \<and> (ev_done (ids ?s1 ! d) \<noteq> 0 \<or> fsh (ids ?s1 ! d) \<noteq> 0)"
    using all L(1) inv by (auto simp: timer_inv_def dev_inv_def)
  have "count_gone ?s1 ?L = ?f" by (simp add: count_gone_def)
  then have 2: "trun (replicate ?n Tick) ?s1 = Some ?s2"
    using scan_loop [OF _ rdy, of 0 0] len by simp
  have 3: "trun (replicate 1 Tick) ?s2 = Some ?s3" by (simp add: timer_routine_def)
  have "tpc ?s3 = TSignal ?L ?f ?e" by simp
  from release_loop [OF this] L len obtain s4 where s4: "trun (replicate ?n Tick) ?s3 = Some s4"
    "tpc s4 = TSignal [] ?f ?e" "time s4 = time s + 1"
    "\<forall>d<?n. ev_done (ids s4 ! d) = 0 \<and> dpcs s4 ! d = (if dpcs s ! d = DSleep then DCheck else dpcs s ! d)" by auto
  have 5: "trun (replicate 1 Tick) s4 = Some (s4\<lparr>tpc := if ?f = ?e then TExit else TTop\<rparr>)"
    using s4(2) by (simp add: timer_routine_def)
  have "replicate (2 * ?n + 3) Tick = replicate 1 Tick @ replicate ?n Tick @ replicate 1 Tick @ replicate ?n Tick @ replicate 1 Tick"
    by (simp only: replicate_add [symmetric] mult_2) (simp add: numeral_eq_Suc)
  then have "trun (replicate (2 * ?n + 3) Tick) s = Some (s4\<lparr>tpc := if ?f = ?e then TExit else TTop\<rparr>)"
    using trun_trans [OF 1 trun_trans [OF 2 trun_trans [OF 3 trun_trans [OF s4(1) 5]]]] by argo
  moreover have "?f = ?e \<longleftrightarrow> (\<forall>d<?n. dpcs s ! d = DExit)"
  proof -
    have "fsh (ids s ! d) \<noteq> 0 \<longleftrightarrow> dpcs s ! d = DExit" if "d < ?n" for d
      using inv that by (auto simp: timer_inv_def dev_inv_def)
    with count_gone_all [of s ?L] show ?thesis unfolding len L(1) by (simp add: Ball_def)
  qed
  ultimately show ?thesis using s4(3,4) by simp
qed

text \<open>Who can move when: the core of the absence of deadlock.\<close>

lemma timer_live:
  assumes "trun tr (boot_timer n) = Some s"
  shows "(\<exists>s'. timer_routine s = Some s')
      \<or> (\<exists>d ds f e. tpc s = TSleep (d # ds) f e \<and> d < n
          \<and> (dpcs s ! d = DRun \<or> (\<exists>s'. wait_slot d s = Some s' \<and> dpcs s' ! d = DRun)))
      \<or> tpc s = TExit \<and> (timer_stop s \<noteq> 0 \<or> (\<forall>d<n. dpcs s ! d = DExit))"
proof -
  obtain T where inv: "timer_inv T (finished tr) s" using run_inv [OF assms(1)] by blast
  have n: "length (ids s) = n" using run_devices [OF assms(1)] .
  have L: "set (dev_list s) = {..<n}" and t: "tpc_inv s" using inv n by (simp_all add: timer_inv_def)
  have pc: "dpcs s ! d = DExit \<longleftrightarrow> gone s d" if "d < n" for d
    using inv that n by (simp add: timer_inv_def dev_inv_def gone_def)
  show ?thesis
  proof (cases "tpc s")
    case TNew
    then show ?thesis using trun_not_new [OF assms(1)] by (simp add: boot_timer_state)
  next
    case (TScan ds f e)
    then have "set ds \<subseteq> {..<n}" using t L by (auto simp: tpc_inv_def scanned_def)
    with TScan n show ?thesis by (cases ds) (auto simp: timer_routine_def list_get_def)
  next
    case (TSignal ds f e)
    then have "set ds \<subseteq> {..<n}" using t L by (auto simp: tpc_inv_def)
    with TSignal n show ?thesis by (cases ds) (auto simp: timer_routine_def list_get_def)
  next
    case (TSleep ds f e)
    then obtain d ds' where d: "ds = d # ds'" "\<not> reached s d" "d \<in> set (dev_list s)"
      using t by (auto simp: tpc_inv_def scanned_def neq_Nil_conv)
    then have "d < n" "dev_inv T (finished tr d) s d" using L inv n by (auto simp: timer_inv_def)
    with d(2) have "dpcs s ! d \<in> {DRun, DCheck}" "ev_done (ids s ! d) = 0"
      by (cases "dpcs s ! d"; auto simp: dev_inv_def reached_def)+
    moreover have "length (dpcs s) = n" using inv n by (simp add: timer_inv_def)
    ultimately have "dpcs s ! d = DRun \<or> (\<exists>s'. wait_slot d s = Some s' \<and> dpcs s' ! d = DRun)"
      using \<open>d < n\<close> n by (auto simp: wait_slot_def)
    with TSleep d(1) \<open>d < n\<close> show ?thesis by auto
  next
    case TExit
    then show ?thesis using t L pc by (auto simp: tpc_inv_def)
  qed (simp add: timer_routine_def)
qed

text \<open>The lines \<open>Time slot\<close>: between the line of a slot and the end of the wait the slot is open.\<close>

definition slot_open :: "timer_t \<Rightarrow> bool" where
  "slot_open s \<longleftrightarrow> (case tpc s of TScan ds f e \<Rightarrow> True | TSleep ds f e \<Rightarrow> True | _ \<Rightarrow> False)"



lemma signal_open [simp]: "slot_open (signal_timer d s) = slot_open s" "slot_lines (signal_timer d s) = slot_lines s"
  by (auto simp: signal_timer_def slot_open_def split: timer_pc.splits list.splits)

lemma open_upd [simp]:
  "slot_open (set_id d g s) = slot_open s" "slot_open (set_dpc d x s) = slot_open s"
  "slot_lines (set_id d g s) = slot_lines s" "slot_lines (set_dpc d x s) = slot_lines s"
  "time (set_id d g s) = time s" "time (set_dpc d x s) = time s"
  by (simp_all add: set_id_def set_dpc_def slot_open_def)




section \<open>Properties\<close>

definition demo_run :: "tact list" where
  "demo_run = [Tick, Tick, Next 0, Wait 0, Next 1, Tick, Tick, Tick, Wait 1, Tick, Tick, Tick, Wait 1]"

definition demo_state :: timer_t where
  "demo_state = \<lparr>dev_list = [1, 0], ids = [\<lparr>ev_done = 0, fsh = 0\<rparr>, \<lparr>ev_done = 0, fsh = 0\<rparr>], time = 1,
     timer_started = 1, timer_stop = 0, tpc = TTop, dpcs = [DCheck, DRun], slot_lines = [0]\<rparr>"

lemma demo_trun: "trun demo_run (boot_timer 2) = Some demo_state"
  unfolding demo_run_def by code_simp

text \<open>
  C12: the devices work in lock step. After any interleaving, a device at work reads as the
  current time exactly the number of slots it has finished, so the clock never moves
  while a device works and every device starts a slot at the same time; and no device is
  ever more than one slot ahead of another attached one.
\<close>

theorem timer_lock_step:
  assumes "trun tr (boot_timer n) = Some s" and "d < n"
  shows "(dpcs s ! d = DRun \<longrightarrow> current_time s = of_nat (finished tr d))
    \<and> (\<forall>d'<n. dpcs s ! d \<noteq> DExit \<longrightarrow> dpcs s ! d' \<noteq> DExit \<longrightarrow> finished tr d \<le> finished tr d' + 1)"
proof -
  obtain T where inv: "timer_inv T (finished tr) s" using run_inv [OF assms(1)] by blast
  have n: "length (ids s) = n" using run_devices [OF assms(1)] .
  have "dpcs s ! d = DRun \<Longrightarrow> current_time s = of_nat (finished tr d)"
    using not_held(4) [OF inv] inv assms(2) n by (simp add: current_time_def timer_inv_def)
  moreover have ahead: "finished tr x \<le> T + 1" "T \<le> finished tr x" if "x < n" "dpcs s ! x \<noteq> DExit" for x
    using inv that n by (auto simp: timer_inv_def dev_inv_def)
  have "finished tr d \<le> finished tr d' + 1" if "d' < n" "dpcs s ! d \<noteq> DExit" "dpcs s ! d' \<noteq> DExit" for d'
    using ahead(1) [OF assms(2) that(2)] ahead(2) [OF that(1,3)] by linarith
  ultimately show ?thesis by blast
qed

theorem timer_lock_step_witness: "current_time demo_state = of_nat (finished demo_run 1) \<and> finished demo_run 1 = 1"
  using timer_lock_step [OF demo_trun, of 1] by (simp add: finished_def demo_run_def demo_state_def)



text \<open>
  C23: no wake-up is lost and the threads never deadlock. While the program has not asked
  the timer to stop, in every reachable state the timer can move, or it sleeps on a device
  that is at work (or was just released and returns to work) and will signal it, or it has ended and every device has left; and a
  device asleep in \<open>next_slot\<close> is never left behind by a timer that has ended.
\<close>

theorem timer_no_deadlock:
  assumes "trun tr (boot_timer n) = Some s" and "timer_stop s = 0"
  shows "((\<exists>s'. timer_routine s = Some s')
      \<or> (\<exists>d ds f e. tpc s = TSleep (d # ds) f e \<and> d < n
          \<and> (dpcs s ! d = DRun \<or> (\<exists>s'. wait_slot d s = Some s' \<and> dpcs s' ! d = DRun)))
      \<or> tpc s = TExit \<and> (\<forall>d<n. dpcs s ! d = DExit))
    \<and> (\<forall>d<n. dpcs s ! d = DSleep \<longrightarrow> tpc s \<noteq> TExit)"
proof -
  note live = timer_live [OF assms(1)]
  then have "tpc s = TExit \<Longrightarrow> \<forall>d<n. dpcs s ! d = DExit" using assms(2) by (auto simp: timer_routine_def)
  with live assms(2) show ?thesis by auto
qed

theorem timer_no_deadlock_witness:
  "(\<exists>s'. timer_routine demo_state = Some s') \<and> timer_stop demo_state = 0"
  using timer_no_deadlock [OF demo_trun] by (simp add: demo_state_def)

text \<open>
  C24: a slot ends. When every attached device sleeps in \<open>next_slot\<close>, the timer by itself, in
  \<open>2 n + 3\<close> steps, advances the clock by one, wakes every sleeping device with its flag
  cleared, and is ready for the next slot, or ends when every device has left.
\<close>

theorem timer_slot_completes:
  assumes "trun tr (boot_timer n) = Some s" and "tpc s = TTop" and "timer_stop s = 0"
    and "\<forall>d<n. dpcs s ! d \<in> {DSleep, DExit}"
  shows "\<exists>s'. trun (replicate (2 * n + 3) Tick) s = Some s' \<and> current_time s' = current_time s + 1
    \<and> tpc s' = (if \<forall>d<n. dpcs s ! d = DExit then TExit else TTop)
    \<and> (\<forall>d<n. ev_done (ids s' ! d) = 0 \<and> dpcs s' ! d = (if dpcs s ! d = DSleep then DCheck else DExit))"
proof -
  obtain T where inv: "timer_inv T (finished tr) s" using run_inv [OF assms(1)] by blast
  have n: "length (ids s) = n" using run_devices [OF assms(1)] .
  from slot_end [OF inv assms(2,3)] assms(4) obtain s' where s': "trun (replicate (2 * n + 3) Tick) s = Some s'"
    "time s' = time s + 1" "tpc s' = (if \<forall>d<n. dpcs s ! d = DExit then TExit else TTop)"
    "\<forall>d<n. ev_done (ids s' ! d) = 0 \<and> dpcs s' ! d = (if dpcs s ! d = DSleep then DCheck else dpcs s ! d)"
    unfolding n by blast
  moreover have "dpcs s ! d = DExit" if "d < n" "dpcs s ! d \<noteq> DSleep" for d using assms(4) that by auto
  ultimately show ?thesis by (intro exI [of _ s']) (auto simp: current_time_def)
qed

definition asleep_run :: "tact list" where
  "asleep_run = [Next 0, Wait 0, Detach 1]"

definition asleep_state :: timer_t where
  "asleep_state = \<lparr>dev_list = [1, 0], ids = [\<lparr>ev_done = 1, fsh = 0\<rparr>, \<lparr>ev_done = 0, fsh = 1\<rparr>], time = 0,
     timer_started = 1, timer_stop = 0, tpc = TTop, dpcs = [DSleep, DExit], slot_lines = []\<rparr>"

lemma asleep_trun: "trun asleep_run (boot_timer 2) = Some asleep_state"
  unfolding asleep_run_def by code_simp

theorem timer_slot_completes_witness:
  "\<exists>s'. trun (replicate 7 Tick) asleep_state = Some s' \<and> current_time s' = 1 \<and> tpc s' = TTop"
proof -
  have "tpc asleep_state = TTop" "timer_stop asleep_state = 0" "\<forall>d<2. dpcs asleep_state ! d \<in> {DSleep, DExit}"
    by (auto simp: asleep_state_def less_2_cases_iff)
  from timer_slot_completes [OF asleep_trun this] obtain s' where s': "trun (replicate (2 * 2 + 3) Tick) asleep_state = Some s'"
    "current_time s' = current_time asleep_state + 1"
    "tpc s' = (if \<forall>d<2. dpcs asleep_state ! d = DExit then TExit else TTop)" by blast
  have "\<not> (\<forall>d<2. dpcs asleep_state ! d = DExit)"
    by (intro notI) (drule spec [of _ 0], simp add: asleep_state_def)
  with s' show ?thesis by (simp add: current_time_def asleep_state_def)
qed

end
