(* ===== verification/Memphy.thy ===== *)
theory Memphy
  imports OS_Types
begin

text \<open>
  The physical memory devices of \<open>src/mm-memphy.c\<close>: one byte array per device, accessed
  at random or through a cursor, and the list of the free frames of \<open>PAGING_PAGESZ\<close>
  bytes. Each function holds the lock of what it accesses while it accesses it.

  A device pointer that the code compares with null is an \<open>option\<close>; following it is a
  bind. An output parameter is an \<open>option\<close> that is \<open>None\<close> when the function did not
  write it, so using a value that was never written faults. Two locales state what the
  paging code relies on: \<open>byte_store\<close> (a byte reads back as last written) and
  \<open>frame_allocator\<close> (a frame is handed out at most once until it is put back).
\<close>

section \<open>Access to the bytes\<close>

function cursor_loop :: "int \<Rightarrow> int \<Rightarrow> int \<Rightarrow> int \<Rightarrow> int" where
  "cursor_loop numstep offset sz cur =
     (if numstep < offset \<and> numstep < sz
      then cursor_loop (numstep + 1) offset sz ((cur + 1) mod sz) else cur)"
  by pat_completeness auto
termination
  by (relation "measure (\<lambda>(n, off, sz, cur). nat (off - n))") auto

declare cursor_loop.simps [simp del]

definition MEMPHY_move_cursor :: "memphy_struct \<Rightarrow> int \<Rightarrow> memphy_struct" where
  "MEMPHY_move_cursor mp offset = mp\<lparr>cursor := cursor_loop 0 offset (maxsz mp) 0\<rparr>"

definition MEMPHY_seq_read ::
  "memphy_struct option \<Rightarrow> int \<Rightarrow> (int \<times> u8 option \<times> memphy_struct option) option" where
  "MEMPHY_seq_read mpo addr =
     (case mpo of None \<Rightarrow> Some (-1, None, None)
      | Some mp \<Rightarrow>
          if rdmflg mp = 0 then Some (-1, None, Some mp)
          else
            let mp1 = MEMPHY_move_cursor mp addr in
            do { v \<leftarrow> arr_get (maxsz mp1) (storage mp1) addr;
                 Some (0, Some v, Some mp1) })"

definition MEMPHY_read ::
  "memphy_struct option \<Rightarrow> int \<Rightarrow> (int \<times> u8 option \<times> memphy_struct option) option" where
  "MEMPHY_read mpo addr =
     (case mpo of None \<Rightarrow> Some (-1, None, None)
      | Some mp \<Rightarrow>
          if rdmflg mp \<noteq> 0 then
            do { v \<leftarrow> arr_get (maxsz mp) (storage mp) addr;
                 Some (0, Some v, Some mp) }
          else MEMPHY_seq_read (Some mp) addr)"

definition MEMPHY_seq_write ::
  "memphy_struct option \<Rightarrow> int \<Rightarrow> u8 \<Rightarrow> (int \<times> memphy_struct option) option" where
  "MEMPHY_seq_write mpo addr v =
     (case mpo of None \<Rightarrow> Some (-1, None)
      | Some mp \<Rightarrow>
          if rdmflg mp = 0 then Some (-1, Some mp)
          else
            let mp1 = MEMPHY_move_cursor mp addr in
            do { st \<leftarrow> arr_set (maxsz mp1) (storage mp1) addr v;
                 Some (0, Some (mp1\<lparr>storage := st\<rparr>)) })"

definition MEMPHY_write ::
  "memphy_struct option \<Rightarrow> int \<Rightarrow> u8 \<Rightarrow> (int \<times> memphy_struct option) option" where
  "MEMPHY_write mpo addr data =
     (case mpo of None \<Rightarrow> Some (-1, None)
      | Some mp \<Rightarrow>
          if rdmflg mp \<noteq> 0 then
            do { st \<leftarrow> arr_set (maxsz mp) (storage mp) addr data;
                 Some (0, Some (mp\<lparr>storage := st\<rparr>)) }
          else MEMPHY_seq_write (Some mp) addr data)"

definition MEMPHY_clean_frame :: "memphy_struct \<Rightarrow> int \<Rightarrow> (int \<times> memphy_struct) option" where
  "MEMPHY_clean_frame mp fpn =
     (let base = fpn * PAGING_PAGESZ in
      do { _ \<leftarrow> require (0 \<le> base \<and> base + PAGING_PAGESZ \<le> maxsz mp);
           Some (0, mp\<lparr>storage := (\<lambda>a. if base \<le> int a \<and> int a < base + PAGING_PAGESZ
                                      then 0 else storage mp a)\<rparr>) })"

section \<open>Frames\<close>

text \<open>
  \<open>MEMPHY_format\<close> links the frames in order. The link of the first node is set only when
  there is a second one: with a single frame it is whatever the fresh node contained,
  which is the parameter \<open>junk\<close> (the list it happens to lead to; \<open>[]\<close> for null).
\<close>

fun format_loop :: "nat \<Rightarrow> int \<Rightarrow> int list" where
  "format_loop 0 iter = []"
| "format_loop (Suc n) iter = iter # format_loop n (iter + 1)"

definition MEMPHY_format :: "int list \<Rightarrow> memphy_struct \<Rightarrow> int \<Rightarrow> (int \<times> memphy_struct) option" where
  "MEMPHY_format junk mp pagesz =
     do { _ \<leftarrow> require (pagesz \<noteq> 0);
          let numfp = c_div (maxsz mp) pagesz;
          if numfp \<le> 0 then Some (-1, mp)
          else
            let rest = (if numfp = 1 then junk else format_loop (nat (numfp - 1)) 1) in
            Some (0, mp\<lparr>free_fp_list := 0 # rest, used_fp_list := [],
                       num_of_free_frame := numfp, num_of_used_frame := 0\<rparr>) }"

definition MEMPHY_deformat :: "memphy_struct \<Rightarrow> int \<times> memphy_struct" where
  "MEMPHY_deformat mp = (0, mp\<lparr>free_fp_list := []\<rparr>)"

definition MEMPHY_get_freefp :: "memphy_struct \<Rightarrow> int \<times> int option \<times> memphy_struct" where
  "MEMPHY_get_freefp mp =
     (case free_fp_list mp of [] \<Rightarrow> (-1, None, mp)
      | fp # rest \<Rightarrow>
          (0, Some fp, mp\<lparr>free_fp_list := rest, num_of_free_frame := num_of_free_frame mp - 1\<rparr>))"

definition MEMPHY_put_freefp :: "memphy_struct \<Rightarrow> int \<Rightarrow> int \<times> memphy_struct" where
  "MEMPHY_put_freefp mp fpn =
     (0, mp\<lparr>free_fp_list := fpn # free_fp_list mp,
           num_of_free_frame := num_of_free_frame mp + 1\<rparr>)"

definition MEMPHY_concat_usedfp :: "memphy_struct \<Rightarrow> int list \<Rightarrow> int \<times> memphy_struct" where
  "MEMPHY_concat_usedfp mp start_node =
     (if start_node = [] then (-1, mp)
      else (0, mp\<lparr>used_fp_list := used_fp_list mp @ start_node\<rparr>))"

definition MEMPHY_count_free_frame :: "memphy_struct \<Rightarrow> int" where
  "MEMPHY_count_free_frame mp = num_of_free_frame mp"

text \<open>
  \<open>init_memphy\<close> fills a structure of the stack of \<open>main\<close>; the fields it does not set
  keep what they held. \<open>delete_memphy\<close> frees the storage: no device is left.
\<close>

definition init_memphy :: "int list \<Rightarrow> memphy_struct \<Rightarrow> int \<Rightarrow> int \<Rightarrow> (int \<times> memphy_struct) option" where
  "init_memphy junk mp max_size randomflg =
     (let mp1 = mp\<lparr>storage := (\<lambda>_. 0), maxsz := max_size\<rparr> in
      do { (_, mp2) \<leftarrow> MEMPHY_format junk mp1 PAGING_PAGESZ;
           let mp3 = mp2\<lparr>rdmflg := (if randomflg \<noteq> 0 then 1 else 0)\<rparr>;
           Some (0, if rdmflg mp3 = 0 then mp3\<lparr>cursor := 0\<rparr> else mp3) })"

definition delete_memphy :: "memphy_struct \<Rightarrow> int \<Rightarrow> int \<Rightarrow> int \<times> memphy_struct option" where
  "delete_memphy mp max_size randomflg = (0, None)"

text \<open>What \<open>MEMPHY_dump\<close> prints, line by line: a byte is a signed \<open>char\<close>.\<close>

datatype dump_line = UsedFrame int | OffsetByte int int

definition MEMPHY_dump :: "memphy_struct \<Rightarrow> dump_line list" where
  "MEMPHY_dump mp =
     map UsedFrame (used_fp_list mp)
     @ map (\<lambda>i. OffsetByte (int i) (sint (storage mp i)))
         (filter (\<lambda>i. storage mp i \<noteq> 0) [0..<nat (maxsz mp)])"

section \<open>A device and its frames\<close>

definition frames :: "memphy_struct \<Rightarrow> int set" where
  "frames mp = {0..<maxsz mp div PAGING_PAGESZ}"

definition frame_byte :: "memphy_struct \<Rightarrow> int \<Rightarrow> int \<Rightarrow> u8" where
  "frame_byte mp f i = storage mp (nat (f * PAGING_PAGESZ + i))"

definition dev_ok :: "memphy_struct \<Rightarrow> bool" where
  "dev_ok mp \<longleftrightarrow> rdmflg mp \<noteq> 0 \<and> 0 \<le> maxsz mp \<and> distinct (free_fp_list mp)
     \<and> set (free_fp_list mp) \<subseteq> frames mp
     \<and> num_of_free_frame mp = int (length (free_fp_list mp))"

lemma frame_address:
  assumes "f \<in> frames mp" and "0 \<le> i" and "i < 256"
  shows "0 \<le> f * 256 + i" and "f * 256 + i < maxsz mp"
proof -
  have "0 \<le> f" "f + 1 \<le> maxsz mp div 256"
    using assms(1) by (auto simp: frames_def PAGING_PAGESZ_def)
  moreover have "maxsz mp div 256 * 256 + maxsz mp mod 256 = maxsz mp" "0 \<le> maxsz mp mod 256"
    by simp_all
  moreover from \<open>f + 1 \<le> maxsz mp div 256\<close> have "(f + 1) * 256 \<le> maxsz mp div 256 * 256"
    by (rule mult_right_mono) simp
  ultimately have "(f + 1) * 256 \<le> maxsz mp" by (simp only: order_trans le_add_same_cancel1)
  with \<open>0 \<le> f\<close> assms(2,3) show "0 \<le> f * 256 + i" "f * 256 + i < maxsz mp" by auto
qed

lemma format_loop_upto: "format_loop n i = [i..i + int n - 1]"
  by (induction n arbitrary: i) (simp_all add: upto_rec1)

lemma cursor_loop_eq:
  "\<lbrakk>0 \<le> n; n \<le> sz; 0 < sz\<rbrakk> \<Longrightarrow>
   cursor_loop n off sz (n mod sz) = (if n < off then min off sz else n) mod sz"
proof (induction n off sz "n mod sz" rule: cursor_loop.induct)
  case (1 n off sz)
  show ?case
  proof (cases "n < off \<and> n < sz")
    case True
    have "(n mod sz + 1) mod sz = (n + 1) mod sz" by (simp add: mod_add_left_eq)
    then have step: "cursor_loop n off sz (n mod sz) = cursor_loop (n + 1) off sz ((n + 1) mod sz)"
      using True by (subst cursor_loop.simps) simp
    show ?thesis
    proof (cases "off = n + 1")
      case True
      have "cursor_loop off off sz (off mod sz) = off mod sz"
        by (subst cursor_loop.simps) simp
      with step True 1 \<open>n < off \<and> n < sz\<close> show ?thesis by simp
    next
      case False
      with step True 1 \<open>(n mod sz + 1) mod sz = (n + 1) mod sz\<close> show ?thesis by simp
    qed
  next
    case False
    with 1 show ?thesis by (subst cursor_loop.simps) auto
  qed
qed

section \<open>The contracts\<close>

locale byte_store =
  fixes rd :: "'d option \<Rightarrow> int \<Rightarrow> (int \<times> 'v option \<times> 'd option) option"
    and wr :: "'d option \<Rightarrow> int \<Rightarrow> 'v \<Rightarrow> (int \<times> 'd option) option"
    and len :: "'d \<Rightarrow> int"
    and cell :: "'d \<Rightarrow> int \<Rightarrow> 'v"
    and invar :: "'d \<Rightarrow> bool"
  assumes rd_in: "\<lbrakk>invar d; 0 \<le> a; a < len d\<rbrakk> \<Longrightarrow>
      rd (Some d) a = Some (0, Some (cell d a), Some d)"
    and wr_in: "\<lbrakk>invar d; 0 \<le> a; a < len d\<rbrakk> \<Longrightarrow>
      \<exists>d'. wr (Some d) a v = Some (0, Some d') \<and> invar d' \<and> len d' = len d
        \<and> (\<forall>b. 0 \<le> b \<longrightarrow> cell d' b = (if b = a then v else cell d b))"
begin

primrec wr_all :: "'d option \<Rightarrow> int \<Rightarrow> 'v list \<Rightarrow> 'd option" where
  "wr_all d a [] = d"
| "wr_all d a (v # vs) = do { (_, d') \<leftarrow> wr d a v; wr_all d' (a + 1) vs }"

text \<open>A block that is written in order reads back, and nothing else changes.\<close>

lemma wr_all_cells:
  "\<lbrakk>invar d; 0 \<le> a; a + int (length vs) \<le> len d\<rbrakk> \<Longrightarrow>
   \<exists>d'. wr_all (Some d) a vs = Some d' \<and> invar d' \<and> len d' = len d
     \<and> (\<forall>b. 0 \<le> b \<longrightarrow> cell d' b =
          (if a \<le> b \<and> b < a + int (length vs) then vs ! nat (b - a) else cell d b))"
proof (induction vs arbitrary: d a)
  case (Cons v vs)
  then obtain d1 where d1: "wr (Some d) a v = Some (0, Some d1)" "invar d1" "len d1 = len d"
      "\<forall>b. 0 \<le> b \<longrightarrow> cell d1 b = (if b = a then v else cell d b)"
    using wr_in [of d a v] by auto
  have "0 \<le> a + 1" "a + 1 + int (length vs) \<le> len d1" using Cons.prems d1(3) by auto
  from Cons.IH [OF d1(2) this] obtain d2 where d2: "wr_all (Some d1) (a + 1) vs = Some d2"
      "invar d2" "len d2 = len d1"
      "\<forall>b. 0 \<le> b \<longrightarrow> cell d2 b =
         (if a + 1 \<le> b \<and> b < a + 1 + int (length vs) then vs ! nat (b - (a + 1)) else cell d1 b)"
    by blast
  have "cell d2 b = (if a \<le> b \<and> b < a + int (length (v # vs)) then (v # vs) ! nat (b - a) else cell d b)"
    if "0 \<le> b" for b
  proof (cases "a < b")
    case True
    then have "nat (b - a) = Suc (nat (b - (a + 1)))" by auto
    with True that d1(4) d2(4) show ?thesis by auto
  next
    case False
    with that d1(4) d2(4) Cons.prems show ?thesis by auto
  qed
  with d1 d2 show ?case by auto
qed auto

lemma rd_after_wr:
  assumes "invar d" and "0 \<le> a" and "a < len d"
  shows "\<exists>d'. wr (Some d) a v = Some (0, Some d') \<and> rd (Some d') a = Some (0, Some v, Some d')"
  using wr_in [OF assms, of v] rd_in assms by fastforce

end

locale frame_allocator =
  fixes get :: "'d \<Rightarrow> int \<times> 'f option \<times> 'd"
    and put :: "'d \<Rightarrow> 'f \<Rightarrow> int \<times> 'd"
    and count :: "'d \<Rightarrow> int"
    and pool :: "'d \<Rightarrow> 'f set"
    and universe :: "'d \<Rightarrow> 'f set"
    and invar :: "'d \<Rightarrow> bool"
  assumes get_empty: "\<lbrakk>invar d; pool d = {}\<rbrakk> \<Longrightarrow> get d = (-1, None, d)"
    and get_frame: "\<lbrakk>invar d; pool d \<noteq> {}\<rbrakk> \<Longrightarrow>
      \<exists>f d'. get d = (0, Some f, d') \<and> f \<in> pool d \<and> pool d' = pool d - {f}
        \<and> invar d' \<and> universe d' = universe d"
    and put_frame: "\<lbrakk>invar d; f \<in> universe d; f \<notin> pool d\<rbrakk> \<Longrightarrow>
      \<exists>d'. put d f = (0, d') \<and> pool d' = insert f (pool d) \<and> invar d'
        \<and> universe d' = universe d"
    and count_pool: "invar d \<Longrightarrow> count d = int (card (pool d))"
    and pool_universe: "invar d \<Longrightarrow> pool d \<subseteq> universe d"
    and finite_universe: "finite (universe d)"
begin

primrec get_n :: "nat \<Rightarrow> 'd \<Rightarrow> 'f list \<times> 'd" where
  "get_n 0 d = ([], d)"
| "get_n (Suc n) d =
     (case get d of (r, fo, d1) \<Rightarrow>
        case fo of None \<Rightarrow> ([], d1) | Some f \<Rightarrow> (case get_n n d1 of (fs, d2) \<Rightarrow> (f # fs, d2)))"

lemma finite_pool: "invar d \<Longrightarrow> finite (pool d)"
  using pool_universe finite_universe finite_subset by blast

text \<open>Frames taken one after the other are different, and none is left in the pool.\<close>

lemma get_n_distinct:
  "\<lbrakk>invar d; get_n n d = (fs, d')\<rbrakk> \<Longrightarrow>
   distinct fs \<and> set fs \<subseteq> pool d \<and> pool d' = pool d - set fs \<and> invar d'
     \<and> length fs = min n (card (pool d))"
proof (induction n arbitrary: d fs d')
  case (Suc n)
  show ?case
  proof (cases "pool d = {}")
    case True
    with Suc.prems get_empty show ?thesis by auto
  next
    case False
    then obtain f d1 where d1: "get d = (0, Some f, d1)" "f \<in> pool d" "pool d1 = pool d - {f}"
        "invar d1" using get_frame [OF Suc.prems(1)] by blast
    obtain gs d2 where gs: "get_n n d1 = (gs, d2)" by (cases "get_n n d1")
    have "card (pool d1) = card (pool d) - 1" "0 < card (pool d)"
      using d1 finite_pool [OF Suc.prems(1)] card_gt_0_iff by auto
    with Suc.IH [OF d1(4) gs] Suc.prems d1 gs show ?thesis by auto
  qed
qed simp

end

definition mp_cell :: "memphy_struct \<Rightarrow> int \<Rightarrow> u8" where
  "mp_cell mp a = storage mp (nat a)"

interpretation mem: byte_store MEMPHY_read MEMPHY_write maxsz mp_cell dev_ok
proof (unfold_locales, goal_cases)
  case (1 d a)
  then show ?case by (simp add: MEMPHY_read_def dev_ok_def arr_simps mp_cell_def)
next
  case (2 d a v)
  let ?d = "d\<lparr>storage := (storage d)(nat a := v)\<rparr>"
  have "MEMPHY_write (Some d) a v = Some (0, Some ?d)"
    using 2 by (simp add: MEMPHY_write_def dev_ok_def arr_simps)
  moreover have "dev_ok ?d" using 2 by (simp add: dev_ok_def frames_def)
  ultimately show ?case using 2 by (auto simp: mp_cell_def nat_eq_iff2)
qed

interpretation fp: frame_allocator MEMPHY_get_freefp MEMPHY_put_freefp MEMPHY_count_free_frame
  "\<lambda>mp. set (free_fp_list mp)" frames dev_ok
proof (unfold_locales, goal_cases)
  case (1 d)
  then show ?case by (simp add: MEMPHY_get_freefp_def)
next
  case (2 d)
  then show ?case
    by (auto simp: MEMPHY_get_freefp_def dev_ok_def frames_def split: list.splits)
next
  case (3 d f)
  then show ?case by (simp add: MEMPHY_put_freefp_def dev_ok_def frames_def)
next
  case (4 d)
  then show ?case by (simp add: MEMPHY_count_free_frame_def dev_ok_def distinct_card)
next
  case (5 d)
  then show ?case by (simp add: dev_ok_def)
next
  case (6 d)
  then show ?case by (simp add: frames_def)
qed

section \<open>Facts the paging code uses\<close>

lemma MEMPHY_read_ok:
  "\<lbrakk>dev_ok mp; 0 \<le> a; a < maxsz mp\<rbrakk> \<Longrightarrow>
   MEMPHY_read (Some mp) a = Some (0, Some (storage mp (nat a)), Some mp)"
  using mem.rd_in [of mp a] by (simp add: mp_cell_def)

lemma MEMPHY_write_ok:
  "\<lbrakk>dev_ok mp; 0 \<le> a; a < maxsz mp\<rbrakk> \<Longrightarrow>
   MEMPHY_write (Some mp) a v = Some (0, Some (mp\<lparr>storage := (storage mp)(nat a := v)\<rparr>))"
  by (simp add: MEMPHY_write_def dev_ok_def arr_simps)

lemma dev_ok_storage [simp]: "dev_ok (mp\<lparr>storage := st\<rparr>) = dev_ok mp"
  and frames_storage [simp]: "frames (mp\<lparr>storage := st\<rparr>) = frames mp"
  and frames_free [simp]: "frames (mp\<lparr>free_fp_list := fl, num_of_free_frame := n\<rparr>) = frames mp"
  by (simp_all add: dev_ok_def frames_def)

lemma frame_byte_free [simp]:
  "frame_byte (mp\<lparr>free_fp_list := fl, num_of_free_frame := n\<rparr>) = frame_byte mp"
  by (intro ext) (simp add: frame_byte_def)

text \<open>Different frames have no byte in common.\<close>

lemma frame_offset_inj:
  assumes "0 \<le> i" "i < 256" "0 \<le> j" "j < (256::int)" and "f * 256 + i = g * 256 + j"
  shows "f = g \<and> i = j"
proof -
  have "(f * 256 + i) div 256 = f" "(g * 256 + j) div 256 = g" using assms by auto
  with assms(5) show ?thesis by auto
qed

section \<open>Properties\<close>

definition raw_memphy :: memphy_struct where
  "raw_memphy = \<lparr>storage = (\<lambda>_. 7), maxsz = 9, rdmflg = 5, cursor = 3, free_fp_list = [42],
     num_of_free_frame = 8, used_fp_list = [1], num_of_used_frame = 2\<rparr>"

lemma init_memphy_spec:
  assumes "2 * PAGING_PAGESZ \<le> sz" and "flag \<noteq> 0"
  shows "\<exists>mp'. init_memphy junk mp sz flag = Some (0, mp') \<and> dev_ok mp' \<and> maxsz mp' = sz
    \<and> free_fp_list mp' = [0..sz div PAGING_PAGESZ - 1]
    \<and> (\<forall>f\<in>frames mp'. \<forall>i. frame_byte mp' f i = 0)"
proof -
  define n where "n = sz div 256"
  have n: "2 \<le> n" "0 \<le> sz" using assms(1) by (auto simp: n_def PAGING_PAGESZ_def)
  have list: "0 # format_loop (nat (n - 1)) 1 = [0..n - 1]"
    using n by (simp add: format_loop_upto upto_rec1)
  have "n \<noteq> 1" "\<not> n \<le> 0" using n by auto
  then have "\<exists>mp'. init_memphy junk mp sz flag = Some (0, mp') \<and> maxsz mp' = sz \<and> rdmflg mp' = 1
      \<and> free_fp_list mp' = [0..n - 1] \<and> num_of_free_frame mp' = n \<and> storage mp' = (\<lambda>_. 0)"
    using n list assms(2)
    by (simp add: init_memphy_def MEMPHY_format_def PAGING_PAGESZ_def n_def [symmetric])
  then obtain mp' where mp': "init_memphy junk mp sz flag = Some (0, mp')" "maxsz mp' = sz"
      "rdmflg mp' = 1" "free_fp_list mp' = [0..n - 1]" "num_of_free_frame mp' = n"
      "storage mp' = (\<lambda>_. 0)" by blast
  have "dev_ok mp'"
    using mp' n by (auto simp: dev_ok_def frames_def PAGING_PAGESZ_def n_def [symmetric])
  then show ?thesis using mp' by (auto simp: frame_byte_def PAGING_PAGESZ_def n_def)
qed

text \<open>
  \<open>init_memphy\<close> turns any memory into a well-formed random-access device whose bytes
  are all zero and whose free list is every frame once, in order, when the device has at
  least two frames.
\<close>

theorem init_memphy_ok:
  assumes "2 * PAGING_PAGESZ \<le> sz" and "flag \<noteq> 0"
  shows "\<exists>mp'. init_memphy junk mp sz flag = Some (0, mp') \<and> dev_ok mp' \<and> maxsz mp' = sz
    \<and> free_fp_list mp' = [0..sz div PAGING_PAGESZ - 1]
    \<and> (\<forall>f\<in>frames mp'. \<forall>i. frame_byte mp' f i = 0)"
  using assms by (rule init_memphy_spec)

theorem init_memphy_ok_witness:
  "\<exists>mp'. init_memphy [99] raw_memphy 2048 1 = Some (0, mp') \<and> dev_ok mp'
     \<and> free_fp_list mp' = [0, 1, 2, 3, 4, 5, 6, 7]"
proof -
  have "[0..7] = [0, 1, 2, 3, 4, 5, 6, (7::int)]" by (simp add: upto_rec1)
  then show ?thesis
    using init_memphy_ok [of 2048 1 "[99]" raw_memphy] by (auto simp: PAGING_PAGESZ_def)
qed

text \<open>
  A device of exactly one frame has an indeterminate free list: the link of its only
  node is never set, so what follows frame 0 is what the fresh node happened to contain.
\<close>

theorem init_memphy_one_frame:
  assumes "PAGING_PAGESZ \<le> sz" and "sz < 2 * PAGING_PAGESZ"
  shows "\<exists>mp'. init_memphy junk mp sz flag = Some (0, mp') \<and> free_fp_list mp' = 0 # junk"
proof -
  have "sz div 256 = 1" using assms by (auto simp: PAGING_PAGESZ_def)
  then show ?thesis
    using assms by (simp add: init_memphy_def MEMPHY_format_def PAGING_PAGESZ_def)
qed

theorem init_memphy_one_frame_witness:
  "\<exists>mp'. init_memphy [1234] raw_memphy 256 1 = Some (0, mp') \<and> free_fp_list mp' = [0, 1234]"
  using init_memphy_one_frame [of 256 "[1234]" raw_memphy 1] by (auto simp: PAGING_PAGESZ_def)

text \<open>
  A sequential device cannot be used. Its reads and writes go to the sequential
  functions, whose test is the wrong way round: they refuse exactly the devices that are
  not random access, so every access of such a device returns \<open>-1\<close> and does nothing.
\<close>

theorem sequential_device_refused:
  assumes "rdmflg mp = 0"
  shows "MEMPHY_read (Some mp) a = Some (-1, None, Some mp)
    \<and> MEMPHY_write (Some mp) a v = Some (-1, Some mp)"
  using assms
  by (simp add: MEMPHY_read_def MEMPHY_seq_read_def MEMPHY_write_def MEMPHY_seq_write_def)

theorem sequential_device_refused_witness:
  "MEMPHY_read (Some (raw_memphy\<lparr>rdmflg := 0\<rparr>)) 4 = Some (-1, None, Some (raw_memphy\<lparr>rdmflg := 0\<rparr>))"
  using sequential_device_refused [of "raw_memphy\<lparr>rdmflg := 0\<rparr>" 4] by simp

fun get_frames :: "nat \<Rightarrow> memphy_struct \<Rightarrow> int list \<times> memphy_struct" where
  "get_frames 0 mp = ([], mp)"
| "get_frames (Suc n) mp =
     (case MEMPHY_get_freefp mp of (r, fo, mp1) \<Rightarrow>
        case fo of None \<Rightarrow> ([], mp1)
        | Some f \<Rightarrow> (case get_frames n mp1 of (fs, mp2) \<Rightarrow> (f # fs, mp2)))"

lemma get_frames_eq: "get_frames n mp = fp.get_n n mp"
  by (induction n arbitrary: mp) (auto split: prod.splits option.splits)

text \<open>
  Frames are handed out at most once: \<open>n\<close> calls of \<open>MEMPHY_get_freefp\<close> in a row return
  different frames of the device until none is left, and none of them is still free.
\<close>

theorem get_frames_distinct:
  assumes "dev_ok mp" and "get_frames n mp = (fs, mp')"
  shows "distinct fs \<and> set fs \<subseteq> frames mp \<and> set (free_fp_list mp') \<inter> set fs = {}
    \<and> length fs = min n (nat (MEMPHY_count_free_frame mp))"
  using fp.get_n_distinct [OF assms(1), of n fs mp'] assms get_frames_eq [of n mp]
    fp.pool_universe [OF assms(1)] fp.count_pool [OF assms(1)] by auto

theorem get_frames_distinct_witness:
  "\<exists>mp fs mp'. init_memphy [] raw_memphy 2048 1 = Some (0, mp)
     \<and> get_frames 3 mp = (fs, mp') \<and> distinct fs \<and> set fs \<subseteq> frames mp"
proof -
  obtain mp where mp: "init_memphy [] raw_memphy 2048 1 = Some (0, mp)" "dev_ok mp"
    using init_memphy_spec [of 2048 1 "[]" raw_memphy] by (auto simp: PAGING_PAGESZ_def)
  obtain fs mp' where "get_frames 3 mp = (fs, mp')" by (cases "get_frames 3 mp")
  with get_frames_distinct [OF mp(2) this] mp(1) show ?thesis by blast
qed

end
