(* ===== verification/Paging.thy ===== *)
theory Paging
  imports Bitops Memphy
begin

text \<open>
  Demand paging: the page lists and frame copies of \<open>src/mm.c\<close> and the page access of
  \<open>src/mm-vm.c\<close> (\<open>find_victim_page\<close>, \<open>bring_to_ram\<close>, \<open>pg_getpage\<close>, \<open>pg_getval\<close>,
  \<open>pg_setval\<close>). A process sees its own \<open>mm\<close> and the two devices all processes share:
  the RAM and the active swap. The state of these functions is this triple.

  The main results: the bytes of a process are the same whichever of its pages are in
  RAM (\<open>same_view\<close>), and the frames of the other processes are not touched.
\<close>

record vmctx =
  vmm :: mm_struct
  vram :: memphy_struct
  vswp :: memphy_struct

section \<open>Page lists and victims\<close>

definition enlist_pgn_node :: "int list \<Rightarrow> int \<Rightarrow> int list" where
  "enlist_pgn_node plist pgn = pgn # plist"

definition enlist_tail_pgn_node :: "mm_struct \<Rightarrow> int \<Rightarrow> mm_struct" where
  "enlist_tail_pgn_node m pgn = m
     \<lparr>num_of_fifo_using_pgn := num_of_fifo_using_pgn m + 1,
      current_max_pgn := (if pgn > current_max_pgn m then pgn else current_max_pgn m),
      fifo_using_pgn := fifo_using_pgn m @ [pgn]\<rparr>"

text \<open>The victim is the oldest page; the page named by the caller is skipped once.\<close>

definition find_victim_page :: "mm_struct \<Rightarrow> int \<Rightarrow> int \<times> int option \<times> mm_struct" where
  "find_victim_page m exception_page =
     (case fifo_using_pgn m of [] \<Rightarrow> (-1, None, m)
      | pgn # rest \<Rightarrow>
          if pgn \<noteq> exception_page then
            (0, Some pgn, m\<lparr>fifo_using_pgn := rest,
                           num_of_fifo_using_pgn := num_of_fifo_using_pgn m - 1\<rparr>)
          else
            (case rest of [] \<Rightarrow> (-1, Some (-1), m)
             | pgn2 # rest2 \<Rightarrow>
                 (0, Some pgn2, m\<lparr>fifo_using_pgn := pgn # rest2,
                                 num_of_fifo_using_pgn := num_of_fifo_using_pgn m - 1\<rparr>)))"

definition count_available_victim :: "mm_struct \<Rightarrow> int \<Rightarrow> int" where
  "count_available_victim m exception_page =
     (if exception_page < 0 \<or> exception_page > current_max_pgn m
      then num_of_fifo_using_pgn m else num_of_fifo_using_pgn m - 1)"

section \<open>Copying frames\<close>

text \<open>The loop of \<open>__swap_cp_page\<close>, with the cells left and the index.\<close>

fun swap_cp_loop :: "nat \<Rightarrow> memphy_struct \<Rightarrow> int \<Rightarrow> memphy_struct \<Rightarrow> int \<Rightarrow> int
    \<Rightarrow> (memphy_struct \<times> memphy_struct) option" where
  "swap_cp_loop 0 mpsrc srcfpn mpdst dstfpn cellidx = Some (mpsrc, mpdst)"
| "swap_cp_loop (Suc n) mpsrc srcfpn mpdst dstfpn cellidx =
     (let physical_address_src = srcfpn * PAGING_PAGESZ + cellidx;
          physical_address_dst = dstfpn * PAGING_PAGESZ + cellidx
      in do { (_, data, src') \<leftarrow> MEMPHY_read (Some mpsrc) physical_address_src;
              src1 \<leftarrow> src';
              d \<leftarrow> data;
              (_, dst') \<leftarrow> MEMPHY_write (Some mpdst) physical_address_dst d;
              dst1 \<leftarrow> dst';
              swap_cp_loop n src1 srcfpn dst1 dstfpn (cellidx + 1) })"

definition swap_cp_page :: "memphy_struct \<Rightarrow> int \<Rightarrow> memphy_struct \<Rightarrow> int
    \<Rightarrow> (int \<times> memphy_struct \<times> memphy_struct) option" where
  "swap_cp_page mpsrc srcfpn mpdst dstfpn =
     do { (src, dst) \<leftarrow> swap_cp_loop (nat PAGING_PAGESZ) mpsrc srcfpn mpdst dstfpn 0;
          Some (0, src, dst) }"

section \<open>Bringing a page to RAM\<close>

text \<open>
  The exchange that \<open>pg_getpage\<close> and \<open>bring_to_ram\<close> both write out: the oldest page goes
  to a free swap frame, the wanted page comes from its swap frame into the frame of the
  victim, and its swap frame becomes free. The status is 1 when there is no victim and 2
  when there is no free swap frame; the callers turn it into their own error codes.
\<close>

definition swap_in :: "vmctx \<Rightarrow> int \<Rightarrow> u32 \<Rightarrow> (int \<times> vmctx) option" where
  "swap_in c pgn pte =
     (let tgtfpn = uint (PAGING_SWAPFPN pte) in
      case find_victim_page (vmm c) (-1) of (r1, vic, mm1) \<Rightarrow>
        if r1 \<noteq> 0 then Some (1, c\<lparr>vmm := mm1\<rparr>)
        else
          do { vicpgn \<leftarrow> vic;
               victim_pte \<leftarrow> arr_get PAGING_MAX_PGN (pgd mm1) vicpgn;
               let victim_fpn = uint (PAGING_FPN victim_pte);
               (case MEMPHY_get_freefp (vswp c) of (r2, sf, swp1) \<Rightarrow>
                 if r2 \<noteq> 0 then Some (2, c\<lparr>vmm := mm1, vswp := swp1\<rparr>)
                 else
                   do { swpfpn \<leftarrow> sf;
                        (_, ram1, swp2) \<leftarrow> swap_cp_page (vram c) victim_fpn swp1 swpfpn;
                        (_, swp3, ram2) \<leftarrow> swap_cp_page swp2 tgtfpn ram1 victim_fpn;
                        let swp4 = snd (MEMPHY_put_freefp swp3 tgtfpn);
                        old1 \<leftarrow> arr_get PAGING_MAX_PGN (pgd mm1) vicpgn;
                        pgd1 \<leftarrow> arr_set PAGING_MAX_PGN (pgd mm1) vicpgn
                                  (pte_set_swap old1 SWPTYP swpfpn);
                        old2 \<leftarrow> arr_get PAGING_MAX_PGN pgd1 pgn;
                        pgd2 \<leftarrow> arr_set PAGING_MAX_PGN pgd1 pgn (pte_set_fpn old2 victim_fpn);
                        Some (0, c\<lparr>vmm := enlist_tail_pgn_node (mm1\<lparr>pgd := pgd2\<rparr>) pgn,
                                  vram := ram2, vswp := swp4\<rparr>) }) })"

definition bring_to_ram :: "vmctx \<Rightarrow> int \<Rightarrow> (int \<times> vmctx) option" where
  "bring_to_ram c page_num =
     do { pte \<leftarrow> arr_get PAGING_MAX_PGN (pgd (vmm c)) page_num;
          if pte = 0 \<or> PAGING_PAGE_PRESENT pte then Some (0, c)
          else
            do { (r, c') \<leftarrow> swap_in c page_num pte;
                 Some (if r = 1 then ERR_LACK_MEM_RAM
                       else if r = 2 then ERR_LACK_MEM_SWP else 0, c') } }"

definition pg_getpage :: "vmctx \<Rightarrow> int \<Rightarrow> (int \<times> int option \<times> vmctx) option" where
  "pg_getpage c pgn =
     do { pte \<leftarrow> arr_get PAGING_MAX_PGN (pgd (vmm c)) pgn;
          if pte = 0 then Some (ERR_INVALID_ACCESS, None, c)
          else if \<not> PAGING_PAGE_PRESENT pte then
            do { (r, c') \<leftarrow> swap_in c pgn pte;
                 if r \<noteq> 0 then Some (ERR_SWAPPING, None, c')
                 else
                   do { pte' \<leftarrow> arr_get PAGING_MAX_PGN (pgd (vmm c')) pgn;
                        Some (0, Some (uint (PAGING_FPN pte')), c') } }
          else Some (0, Some (uint (PAGING_FPN pte)), c) }"

definition pg_getval :: "vmctx \<Rightarrow> int \<Rightarrow> (int \<times> u8 option \<times> vmctx) option" where
  "pg_getval c addr =
     (let pgn = uint (PAGING_PGN (u32_of_int addr));
          off = uint (PAGING_OFFST (u32_of_int addr))
      in do { (getpage_status, fpn, c1) \<leftarrow> pg_getpage c pgn;
              if getpage_status \<noteq> 0 then Some (getpage_status, None, c1)
              else
                do { f \<leftarrow> fpn;
                     let phyaddr = f * PAGING_PAGESZ + off;
                     (_, data, ram) \<leftarrow> MEMPHY_read (Some (vram c1)) phyaddr;
                     ram1 \<leftarrow> ram;
                     Some (0, data, c1\<lparr>vram := ram1\<rparr>) } })"

definition pg_setval :: "vmctx \<Rightarrow> int \<Rightarrow> u8 \<Rightarrow> (int \<times> vmctx) option" where
  "pg_setval c addr v =
     (let pgn = uint (PAGING_PGN (u32_of_int addr));
          off = uint (PAGING_OFFST (u32_of_int addr))
      in do { (getpage_status, fpn, c1) \<leftarrow> pg_getpage c pgn;
              if getpage_status \<noteq> 0 then Some (getpage_status, c1)
              else
                do { f \<leftarrow> fpn;
                     let phyaddr = f * PAGING_PAGESZ + off;
                     (_, ram) \<leftarrow> MEMPHY_write (Some (vram c1)) phyaddr v;
                     ram1 \<leftarrow> ram;
                     Some (0, c1\<lparr>vram := ram1\<rparr>) } })"

section \<open>The bytes a process sees\<close>

definition pte_at :: "vmctx \<Rightarrow> int \<Rightarrow> u32" where
  "pte_at c p = pgd (vmm c) (nat p)"

definition mapped :: "vmctx \<Rightarrow> int set" where
  "mapped c = {0..current_max_pgn (vmm c)}"

definition resident :: "vmctx \<Rightarrow> int set" where
  "resident c = {p \<in> mapped c. PAGING_PAGE_PRESENT (pte_at c p)}"

definition swapped :: "vmctx \<Rightarrow> int set" where
  "swapped c = {p \<in> mapped c. \<not> PAGING_PAGE_PRESENT (pte_at c p)}"

definition ram_frame :: "vmctx \<Rightarrow> int \<Rightarrow> int" where
  "ram_frame c p = uint (PAGING_FPN (pte_at c p))"

definition swp_frame :: "vmctx \<Rightarrow> int \<Rightarrow> int" where
  "swp_frame c p = uint (PAGING_SWAPFPN (pte_at c p))"

definition vbyte :: "vmctx \<Rightarrow> int \<Rightarrow> int \<Rightarrow> u8" where
  "vbyte c p i = (if PAGING_PAGE_PRESENT (pte_at c p) then frame_byte (vram c) (ram_frame c p) i
                  else frame_byte (vswp c) (swp_frame c p) i)"

text \<open>
  The invariant, relative to the frames \<open>R\<close> of RAM and \<open>S\<close> of swap that belong to
  others (other processes, or frames just taken). Pages \<open>0\<close> to \<open>current_max_pgn\<close> are
  mapped and no others; two pages never share a frame; a frame in use is neither free
  nor somebody else's; the FIFO list holds resident pages, each once; a free frame of RAM
  holds only zeros. The RAM has at
  most 1024 frames because \<open>PAGING_FPN\<close> reads ten bits.
\<close>

definition vm_ok :: "int set \<Rightarrow> int set \<Rightarrow> vmctx \<Rightarrow> bool" where
  "vm_ok R S c \<longleftrightarrow>
     dev_ok (vram c) \<and> frames (vram c) \<subseteq> {0..<1024}
     \<and> dev_ok (vswp c) \<and> frames (vswp c) \<subseteq> {0..<2097152}
     \<and> -1 \<le> current_max_pgn (vmm c) \<and> current_max_pgn (vmm c) < PAGING_MAX_PGN
     \<and> (\<forall>p\<in>{0..<PAGING_MAX_PGN}. pte_at c p = 0 \<longleftrightarrow> p \<notin> mapped c)
     \<and> distinct (fifo_using_pgn (vmm c)) \<and> set (fifo_using_pgn (vmm c)) \<subseteq> resident c
     \<and> num_of_fifo_using_pgn (vmm c) = int (length (fifo_using_pgn (vmm c)))
     \<and> inj_on (ram_frame c) (resident c) \<and> inj_on (swp_frame c) (swapped c)
     \<and> ram_frame c ` resident c \<subseteq> frames (vram c)
     \<and> swp_frame c ` swapped c \<subseteq> frames (vswp c)
     \<and> ram_frame c ` resident c \<inter> (set (free_fp_list (vram c)) \<union> R) = {}
     \<and> swp_frame c ` swapped c \<inter> (set (free_fp_list (vswp c)) \<union> S) = {}
     \<and> set (free_fp_list (vram c)) \<inter> R = {} \<and> set (free_fp_list (vswp c)) \<inter> S = {}
     \<and> (\<forall>f\<in>set (free_fp_list (vram c)). \<forall>i\<in>{0..<PAGING_PAGESZ}. frame_byte (vram c) f i = 0)"

text \<open>
  What a step may not change: the process's areas, symbols and bytes, the devices' size,
  and the frames of the others.
\<close>

definition same_view :: "int set \<Rightarrow> int set \<Rightarrow> vmctx \<Rightarrow> vmctx \<Rightarrow> bool" where
  "same_view R S c c' \<longleftrightarrow>
     mmap (vmm c') = mmap (vmm c) \<and> symrgtbl (vmm c') = symrgtbl (vmm c)
     \<and> current_max_pgn (vmm c') = current_max_pgn (vmm c)
     \<and> frames (vram c') = frames (vram c) \<and> frames (vswp c') = frames (vswp c)
     \<and> (\<forall>p\<in>mapped c. \<forall>i\<in>{0..<PAGING_PAGESZ}. vbyte c' p i = vbyte c p i)
     \<and> (\<forall>f\<in>R. f \<in> frames (vram c) \<longrightarrow> (\<forall>i\<in>{0..<PAGING_PAGESZ}. frame_byte (vram c') f i = frame_byte (vram c) f i))
     \<and> (\<forall>f\<in>S. f \<in> frames (vswp c) \<longrightarrow> (\<forall>i\<in>{0..<PAGING_PAGESZ}. frame_byte (vswp c') f i = frame_byte (vswp c) f i))"

section \<open>Copying a frame\<close>

definition copy_bytes :: "(nat \<Rightarrow> u8) \<Rightarrow> int \<Rightarrow> (nat \<Rightarrow> u8) \<Rightarrow> int \<Rightarrow> int \<Rightarrow> int \<Rightarrow> nat \<Rightarrow> u8" where
  "copy_bytes src s dst d k n = (\<lambda>a. if d * 256 + k \<le> int a \<and> int a < d * 256 + k + n
     then src (nat (s * 256 + (int a - d * 256))) else dst a)"

definition copied :: "memphy_struct \<Rightarrow> int \<Rightarrow> memphy_struct \<Rightarrow> int \<Rightarrow> int \<Rightarrow> int \<Rightarrow> memphy_struct" where
  "copied src s dst d k n =
     dst\<lparr>storage := copy_bytes (storage src) s (storage dst) d k n\<rparr>"

lemma copy_bytes_0: "copy_bytes src s dst d k 0 = dst"
  by (auto simp: copy_bytes_def fun_eq_iff)

lemma copy_bytes_Suc:
  assumes "0 \<le> d * 256 + k"
  shows "copy_bytes src s (dst(nat (d * 256 + k) := src (nat (s * 256 + k)))) d (k + 1) (int n)
    = copy_bytes src s dst d k (int (Suc n))"
proof
  fix a
  show "copy_bytes src s (dst(nat (d * 256 + k) := src (nat (s * 256 + k)))) d (k + 1) (int n) a
    = copy_bytes src s dst d k (int (Suc n)) a"
  proof (cases "int a = d * 256 + k")
    case True
    then have "a = nat (d * 256 + k)" "int a - d * 256 = k" by auto
    with True show ?thesis by (simp add: copy_bytes_def)
  next
    case False
    then have "a \<noteq> nat (d * 256 + k)" using assms by auto
    with False show ?thesis by (auto simp: copy_bytes_def)
  qed
qed

lemma copied_0 [simp]: "copied src s dst d k 0 = dst"
  by (cases dst) (simp add: copied_def copy_bytes_0)

lemma swap_cp_loop_eq:
  "\<lbrakk>dev_ok src; dev_ok dst; s \<in> frames src; d \<in> frames dst; 0 \<le> k; k + int n \<le> 256\<rbrakk> \<Longrightarrow>
   swap_cp_loop n src s dst d k = Some (src, copied src s dst d k (int n))"
proof (induction n arbitrary: dst k)
  case 0
  then show ?case by simp
next
  case (Suc n)
  have s: "0 \<le> s * 256 + k" "s * 256 + k < maxsz src"
    using frame_address [of s src k] Suc.prems by auto
  have d: "0 \<le> d * 256 + k" "d * 256 + k < maxsz dst"
    using frame_address [of d dst k] Suc.prems by auto
  let ?dst = "dst\<lparr>storage := (storage dst)(nat (d * 256 + k) := storage src (nat (s * 256 + k)))\<rparr>"
  have "swap_cp_loop (Suc n) src s dst d k = swap_cp_loop n src s ?dst d (k + 1)"
    using MEMPHY_read_ok [OF Suc.prems(1) s] MEMPHY_write_ok [OF Suc.prems(2) d]
    by (simp add: PAGING_PAGESZ_def)
  also have "\<dots> = Some (src, copied src s ?dst d (k + 1) (int n))"
    using Suc.prems by (intro Suc.IH) auto
  also have "copied src s ?dst d (k + 1) (int n) = copied src s dst d k (int (Suc n))"
    using copy_bytes_Suc [OF d(1)] by (simp add: copied_def)
  finally show ?case .
qed

lemma swap_cp_page_eq:
  "\<lbrakk>dev_ok src; dev_ok dst; s \<in> frames src; d \<in> frames dst\<rbrakk> \<Longrightarrow>
   swap_cp_page src s dst d = Some (0, src, copied src s dst d 0 256)"
  using swap_cp_loop_eq [of src dst s d 0 256] by (simp add: swap_cp_page_def PAGING_PAGESZ_def)

lemma copied_fields [simp]:
  "dev_ok (copied src s dst d k n) = dev_ok dst"
  "frames (copied src s dst d k n) = frames dst"
  "free_fp_list (copied src s dst d k n) = free_fp_list dst"
  "num_of_free_frame (copied src s dst d k n) = num_of_free_frame dst"
  "used_fp_list (copied src s dst d k n) = used_fp_list dst"
  by (simp_all add: copied_def)

lemma frame_byte_copied:
  assumes "0 \<le> d" "0 \<le> g" "0 \<le> i" "i < 256"
  shows "frame_byte (copied src s dst d 0 256) g i =
    (if g = d then frame_byte src s i else frame_byte dst g i)"
proof (cases "g = d")
  case True
  with assms show ?thesis by (simp add: frame_byte_def copied_def copy_bytes_def PAGING_PAGESZ_def)
next
  case False
  then have "\<not> (d * 256 \<le> g * 256 + i \<and> g * 256 + i < d * 256 + 256)"
    using assms by auto
  then have "storage (copied src s dst d 0 256) (nat (g * 256 + i)) = storage dst (nat (g * 256 + i))"
    using assms by (simp only: copied_def copy_bytes_def memphy_struct.simps) auto
  with False show ?thesis by (simp add: frame_byte_def PAGING_PAGESZ_def)
qed
section \<open>The invariant, taken apart\<close>

lemma vm_okD:
  assumes "vm_ok R S c"
  shows vm_ok_ram: "dev_ok (vram c)" and vm_ok_ram_frames: "frames (vram c) \<subseteq> {0..<1024}"
    and vm_ok_swp: "dev_ok (vswp c)" and vm_ok_swp_frames: "frames (vswp c) \<subseteq> {0..<2097152}"
    and vm_ok_max: "-1 \<le> current_max_pgn (vmm c)" "current_max_pgn (vmm c) < PAGING_MAX_PGN"
    and vm_ok_pte: "\<And>p. 0 \<le> p \<Longrightarrow> p < PAGING_MAX_PGN \<Longrightarrow> pte_at c p = 0 \<longleftrightarrow> p \<notin> mapped c"
    and vm_ok_fifo: "distinct (fifo_using_pgn (vmm c))" "set (fifo_using_pgn (vmm c)) \<subseteq> resident c"
      "num_of_fifo_using_pgn (vmm c) = int (length (fifo_using_pgn (vmm c)))"
    and vm_ok_inj: "inj_on (ram_frame c) (resident c)" "inj_on (swp_frame c) (swapped c)"
    and vm_ok_ram_used: "ram_frame c ` resident c \<subseteq> frames (vram c)"
      "ram_frame c ` resident c \<inter> (set (free_fp_list (vram c)) \<union> R) = {}"
    and vm_ok_swp_used: "swp_frame c ` swapped c \<subseteq> frames (vswp c)"
      "swp_frame c ` swapped c \<inter> (set (free_fp_list (vswp c)) \<union> S) = {}"
    and vm_ok_free: "set (free_fp_list (vram c)) \<inter> R = {}" "set (free_fp_list (vswp c)) \<inter> S = {}"
    and vm_ok_zero: "\<And>f i. f \<in> set (free_fp_list (vram c)) \<Longrightarrow> 0 \<le> i \<Longrightarrow> i < 256 \<Longrightarrow>
      frame_byte (vram c) f i = 0"
  using assms by (simp_all add: vm_ok_def PAGING_PAGESZ_def)

lemma vm_okI:
  assumes "dev_ok (vram c)" "frames (vram c) \<subseteq> {0..<1024}"
    and "dev_ok (vswp c)" "frames (vswp c) \<subseteq> {0..<2097152}"
    and "-1 \<le> current_max_pgn (vmm c)" "current_max_pgn (vmm c) < PAGING_MAX_PGN"
    and "\<And>p. 0 \<le> p \<Longrightarrow> p < PAGING_MAX_PGN \<Longrightarrow> pte_at c p = 0 \<longleftrightarrow> p \<notin> mapped c"
    and "distinct (fifo_using_pgn (vmm c))" "set (fifo_using_pgn (vmm c)) \<subseteq> resident c"
      "num_of_fifo_using_pgn (vmm c) = int (length (fifo_using_pgn (vmm c)))"
    and "inj_on (ram_frame c) (resident c)" "inj_on (swp_frame c) (swapped c)"
    and "ram_frame c ` resident c \<subseteq> frames (vram c)"
      "ram_frame c ` resident c \<inter> (set (free_fp_list (vram c)) \<union> R) = {}"
    and "swp_frame c ` swapped c \<subseteq> frames (vswp c)"
      "swp_frame c ` swapped c \<inter> (set (free_fp_list (vswp c)) \<union> S) = {}"
    and "set (free_fp_list (vram c)) \<inter> R = {}" "set (free_fp_list (vswp c)) \<inter> S = {}"
    and "\<And>f i. f \<in> set (free_fp_list (vram c)) \<Longrightarrow> 0 \<le> i \<Longrightarrow> i < 256 \<Longrightarrow> frame_byte (vram c) f i = 0"
  shows "vm_ok R S c"
  using assms by (simp add: vm_ok_def PAGING_PAGESZ_def)

lemma mapped_page: "vm_ok R S c \<Longrightarrow> p \<in> mapped c \<Longrightarrow> 0 \<le> p \<and> p < PAGING_MAX_PGN"
  using vm_ok_max [of R S c] by (auto simp: mapped_def)

lemma resident_mapped: "p \<in> resident c \<Longrightarrow> p \<in> mapped c"
  and swapped_mapped: "p \<in> swapped c \<Longrightarrow> p \<in> mapped c"
  and resident_present: "p \<in> resident c \<Longrightarrow> PAGING_PAGE_PRESENT (pte_at c p)"
  and swapped_not_present: "p \<in> swapped c \<Longrightarrow> \<not> PAGING_PAGE_PRESENT (pte_at c p)"
  by (simp_all add: resident_def swapped_def)

lemma resident_or_swapped: "mapped c = resident c \<union> swapped c" "resident c \<inter> swapped c = {}"
  by (auto simp: resident_def swapped_def)

lemma arr_get_pte:
  "0 \<le> p \<Longrightarrow> p < PAGING_MAX_PGN \<Longrightarrow>
   arr_get PAGING_MAX_PGN (pgd (vmm c)) p = Some (pte_at c p)"
  by (simp add: arr_simps pte_at_def)

lemma ram_frame_in: "vm_ok R S c \<Longrightarrow> p \<in> resident c \<Longrightarrow> ram_frame c p \<in> frames (vram c)"
  using vm_ok_ram_used by blast

lemma swp_frame_in: "vm_ok R S c \<Longrightarrow> p \<in> swapped c \<Longrightarrow> swp_frame c p \<in> frames (vswp c)"
  using vm_ok_swp_used by blast

lemma free_frames_in:
  "vm_ok R S c \<Longrightarrow> set (free_fp_list (vram c)) \<subseteq> frames (vram c)"
  "vm_ok R S c \<Longrightarrow> set (free_fp_list (vswp c)) \<subseteq> frames (vswp c)"
  using vm_ok_ram vm_ok_swp by (auto simp: dev_ok_def)

lemma same_view_refl [simp]: "same_view R S c c"
  by (simp add: same_view_def)

lemma same_view_trans:
  assumes "same_view R S c c'" and "same_view R S c' c''"
  shows "same_view R S c c''"
proof -
  have "mapped c' = mapped c" using assms(1) by (simp add: same_view_def mapped_def)
  with assms show ?thesis unfolding same_view_def by auto
qed

lemma same_view_mono: "same_view R S c c' \<Longrightarrow> R' \<subseteq> R \<Longrightarrow> S' \<subseteq> S \<Longrightarrow> same_view R' S' c c'"
  by (auto simp: same_view_def)

section \<open>The exchange of two pages\<close>

lemma find_victim_none [simp]:
  "fifo_using_pgn m = [] \<Longrightarrow> find_victim_page m e = (-1, None, m)"
  by (simp add: find_victim_page_def)

lemma find_victim_head:
  "fifo_using_pgn m = v # rest \<Longrightarrow> v \<noteq> e \<Longrightarrow>
   find_victim_page m e = (0, Some v, m\<lparr>fifo_using_pgn := rest,
     num_of_fifo_using_pgn := num_of_fifo_using_pgn m - 1\<rparr>)"
  by (simp add: find_victim_page_def)

lemma swap_in_no_victim:
  "fifo_using_pgn (vmm c) = [] \<Longrightarrow> swap_in c pgn pte = Some (1, c)"
  by (simp add: swap_in_def)

lemma vm_ok_fifo_page:
  "vm_ok R S c \<Longrightarrow> v \<in> set (fifo_using_pgn (vmm c)) \<Longrightarrow> v \<in> resident c \<and> 0 \<le> v \<and> v < PAGING_MAX_PGN"
  using vm_ok_fifo(2) mapped_page resident_mapped by blast

lemma swap_in_no_frame:
  assumes "vm_ok R S c" and "fifo_using_pgn (vmm c) = v # rest" and "free_fp_list (vswp c) = []"
  shows "swap_in c pgn pte = Some (2, c\<lparr>vmm := (vmm c)\<lparr>fifo_using_pgn := rest,
     num_of_fifo_using_pgn := num_of_fifo_using_pgn (vmm c) - 1\<rparr>\<rparr>)"
proof -
  have v: "0 \<le> v" "v < PAGING_MAX_PGN" using vm_ok_fifo_page [OF assms(1), of v] assms(2) by auto
  then have "v \<noteq> -1" by simp
  with v assms show ?thesis
    by (simp add: swap_in_def find_victim_head arr_simps MEMPHY_get_freefp_def)
qed

text \<open>The state after a successful exchange, field by field.\<close>

definition exchanged :: "vmctx \<Rightarrow> int \<Rightarrow> int list \<Rightarrow> int \<Rightarrow> int \<Rightarrow> int list \<Rightarrow> vmctx \<Rightarrow> bool" where
  "exchanged c v rest pgn sf fl c' \<longleftrightarrow>
     pgd (vmm c') = (pgd (vmm c))(nat v := pte_set_swap (pte_at c v) SWPTYP sf,
                                  nat pgn := pte_set_fpn (pte_at c pgn) (ram_frame c v))
     \<and> fifo_using_pgn (vmm c') = rest @ [pgn]
     \<and> num_of_fifo_using_pgn (vmm c') = num_of_fifo_using_pgn (vmm c)
     \<and> current_max_pgn (vmm c') = current_max_pgn (vmm c)
     \<and> mmap (vmm c') = mmap (vmm c) \<and> symrgtbl (vmm c') = symrgtbl (vmm c)
     \<and> vram c' = copied (copied (vram c) (ram_frame c v) (vswp c) sf 0 256) (swp_frame c pgn)
                   (vram c) (ram_frame c v) 0 256
     \<and> vswp c' = (copied (vram c) (ram_frame c v) (vswp c) sf 0 256)
                   \<lparr>free_fp_list := swp_frame c pgn # fl, num_of_free_frame := num_of_free_frame (vswp c)\<rparr>"

lemma copied_free:
  "copied src s (dst\<lparr>free_fp_list := fl, num_of_free_frame := n\<rparr>) d k m =
   (copied src s dst d k m)\<lparr>free_fp_list := fl, num_of_free_frame := n\<rparr>"
  by (simp add: copied_def)

lemma copied_src_free:
  "copied (src\<lparr>free_fp_list := fl, num_of_free_frame := n\<rparr>) s dst d k m = copied src s dst d k m"
  by (simp add: copied_def)

lemma swap_in_exchange:
  assumes ok: "vm_ok R S c" and fifo: "fifo_using_pgn (vmm c) = v # rest"
    and free: "free_fp_list (vswp c) = sf # fl" and pgn: "pgn \<in> swapped c"
  shows "\<exists>c'. swap_in c pgn (pte_at c pgn) = Some (0, c') \<and> exchanged c v rest pgn sf fl c'"
proof -
  have v: "v \<in> resident c" "0 \<le> v" "v < PAGING_MAX_PGN"
    using vm_ok_fifo_page [OF ok, of v] fifo by auto
  have p: "0 \<le> pgn" "pgn < PAGING_MAX_PGN" "pgn \<le> current_max_pgn (vmm c)"
    using mapped_page [OF ok] swapped_mapped [OF pgn] by (auto simp: mapped_def)
  have ne: "v \<noteq> pgn" using v(1) pgn resident_or_swapped(2) by blast
  have sf: "sf \<in> frames (vswp c)" using free_frames_in(2) [OF ok] free by simp
  let ?swp1 = "(vswp c)\<lparr>free_fp_list := fl, num_of_free_frame := num_of_free_frame (vswp c) - 1\<rparr>"
  let ?vf = "ram_frame c v"
  let ?t = "swp_frame c pgn"
  have swp1: "dev_ok ?swp1" "frames ?swp1 = frames (vswp c)"
    using vm_ok_swp [OF ok] free by (auto simp: dev_ok_def frames_def)
  have vf: "?vf \<in> frames (vram c)" and t: "?t \<in> frames (vswp c)"
    using ram_frame_in [OF ok v(1)] swp_frame_in [OF ok pgn] .
  have copy1: "swap_cp_page (vram c) ?vf ?swp1 sf = Some (0, vram c, copied (vram c) ?vf ?swp1 sf 0 256)"
    using vm_ok_ram [OF ok] swp1 vf sf by (intro swap_cp_page_eq) auto
  let ?swp2 = "copied (vram c) ?vf ?swp1 sf 0 256"
  have copy2: "swap_cp_page ?swp2 ?t (vram c) ?vf = Some (0, ?swp2, copied ?swp2 ?t (vram c) ?vf 0 256)"
    using vm_ok_ram [OF ok] swp1 vf t by (intro swap_cp_page_eq) auto
  have get: "MEMPHY_get_freefp (vswp c) = (0, Some sf, ?swp1)"
    using free by (simp add: MEMPHY_get_freefp_def)
  have vf_eq: "uint (PAGING_FPN (pgd (vmm c) (nat v))) = ?vf"
    and t_eq: "uint (PAGING_SWAPFPN (pgd (vmm c) (nat pgn))) = ?t"
    by (simp_all add: ram_frame_def swp_frame_def pte_at_def)
  have "v \<noteq> -1" "nat v \<noteq> nat pgn" using v p ne by auto
  then show ?thesis
    using v p fifo copy1 copy2 get
    by (simp add: swap_in_def Let_def find_victim_head vf_eq t_eq arr_simps MEMPHY_put_freefp_def
        enlist_tail_pgn_node_def exchanged_def copied_free copied_src_free pte_at_def)
qed

lemma exchanged_pte:
  assumes "exchanged c v rest pgn sf fl c'" and "0 \<le> v" and "0 \<le> pgn" and "0 \<le> p"
  shows "pte_at c' p = (if p = pgn then pte_set_fpn (pte_at c pgn) (ram_frame c v)
    else if p = v then pte_set_swap (pte_at c v) SWPTYP sf else pte_at c p)"
  using assms by (auto simp: exchanged_def pte_at_def)


text \<open>The page sets and the frames of the pages after the exchange.\<close>

lemma exchanged_pages:
  assumes ok: "vm_ok R S c" and ex: "exchanged c v rest pgn sf fl c'"
    and v: "v \<in> resident c" and pgn: "pgn \<in> swapped c" and sf: "sf \<in> frames (vswp c)"
  shows "mapped c' = mapped c"
    and "resident c' = insert pgn (resident c - {v})"
    and "swapped c' = insert v (swapped c - {pgn})"
    and "\<And>p. p \<in> mapped c \<Longrightarrow> ram_frame c' p = (if p = pgn then ram_frame c v else
           if p = v then ram_frame c' v else ram_frame c p)"
    and "\<And>p. p \<in> mapped c \<Longrightarrow> swp_frame c' p = (if p = v then sf else
           if p = pgn then swp_frame c' pgn else swp_frame c p)"
proof -
  have ne: "v \<noteq> pgn" using v pgn resident_or_swapped(2) by blast
  have ranges: "0 \<le> v" "0 \<le> pgn" "\<And>p. p \<in> mapped c \<Longrightarrow> 0 \<le> p"
    using mapped_page [OF ok] resident_mapped [OF v] swapped_mapped [OF pgn] by auto
  show m: "mapped c' = mapped c" using ex by (simp add: mapped_def exchanged_def)
  note pte = exchanged_pte [OF ex ranges(1,2)]
  have vf: "0 \<le> ram_frame c v" "ram_frame c v < 1024"
    using ram_frame_in [OF ok v] vm_ok_ram_frames [OF ok] by auto
  have sf': "0 \<le> sf" "sf < 2097152" using sf vm_ok_swp_frames [OF ok] by auto
  show "resident c' = insert pgn (resident c - {v})"
    using ranges m pte ne swapped_mapped [OF pgn] by (auto simp: resident_def split: if_splits)
  show "swapped c' = insert v (swapped c - {pgn})"
    using ranges m pte ne resident_mapped [OF v] by (auto simp: swapped_def split: if_splits)
  show "ram_frame c' p = (if p = pgn then ram_frame c v else
           if p = v then ram_frame c' v else ram_frame c p)" if "p \<in> mapped c" for p
    using pte [of p] ranges(3) [OF that] vf ne by (cases "p = v") (simp_all add: ram_frame_def)
  show "swp_frame c' p = (if p = v then sf else
           if p = pgn then swp_frame c' pgn else swp_frame c p)" if "p \<in> mapped c" for p
    using pte [of p] ranges(3) [OF that] sf' ne
    by (cases "p = v"; cases "p = pgn") (simp_all add: swp_frame_def)
qed

lemma swp_head_free:
  assumes ok: "vm_ok R S c" and free: "free_fp_list (vswp c) = sf # fl"
  shows "sf \<in> frames (vswp c)" "sf \<notin> S" "sf \<notin> set fl" "sf \<notin> swp_frame c ` swapped c"
  using free_frames_in(2) [OF ok] vm_ok_free(2) [OF ok] vm_ok_swp [OF ok] vm_ok_swp_used(2) [OF ok] free
  by (auto simp: dev_ok_def)

lemma resident_frame_used:
  assumes ok: "vm_ok R S c" and v: "v \<in> resident c"
  shows "ram_frame c v \<in> frames (vram c)" "ram_frame c v \<notin> R" "ram_frame c v \<notin> set (free_fp_list (vram c))"
  using ram_frame_in [OF ok v] vm_ok_ram_used(2) [OF ok] v by auto

lemma frames_pos: "f \<in> frames mp \<Longrightarrow> 0 \<le> f"
  by (simp add: frames_def)

lemma inj_on_extend:
  assumes "inj_on f A" and "\<And>p. p \<in> A \<Longrightarrow> g p = f p" and "g v \<notin> f ` A"
  shows "inj_on g (insert v A)"
proof -
  have "inj_on g A" using assms(1,2) by (simp add: inj_on_def)
  moreover have "g ` A = f ` A" using assms(2) by (rule image_cong [OF refl])
  ultimately show ?thesis using assms(3) by (auto simp: inj_on_insert)
qed

lemma inj_on_exchange:
  assumes "inj_on f A" and "v \<in> A" and "\<And>p. p \<in> A - {v} \<Longrightarrow> g p = f p" and "g q = f v"
  shows "inj_on g (insert q (A - {v}))" and "g ` insert q (A - {v}) = f ` A"
proof -
  show "inj_on g (insert q (A - {v}))"
    using assms by (auto simp: inj_on_def)
  show "g ` insert q (A - {v}) = f ` A"
    using assms by force
qed

lemma exchanged_vm_ok:
  assumes ok: "vm_ok R S c" and fifo: "fifo_using_pgn (vmm c) = v # rest"
    and free: "free_fp_list (vswp c) = sf # fl" and pgn: "pgn \<in> swapped c"
    and ex: "exchanged c v rest pgn sf fl c'"
  shows "vm_ok R S c'"
proof (rule vm_okI)
  have v: "v \<in> resident c" "0 \<le> v" using vm_ok_fifo_page [OF ok, of v] fifo by auto
  note sf = swp_head_free [OF ok free]
  have t: "swp_frame c pgn \<in> frames (vswp c)" "swp_frame c pgn \<notin> S" "swp_frame c pgn \<notin> set fl"
    using swp_frame_in [OF ok pgn] vm_ok_swp_used(2) [OF ok] pgn free by auto
  note pages = exchanged_pages [OF ok ex v(1) pgn sf(1)]
  have ram: "dev_ok (vram c') = dev_ok (vram c)" "frames (vram c') = frames (vram c)"
      "free_fp_list (vram c') = free_fp_list (vram c)"
    using ex by (simp_all add: exchanged_def)
  have swp: "frames (vswp c') = frames (vswp c)" "free_fp_list (vswp c') = swp_frame c pgn # fl"
    using ex by (simp_all add: exchanged_def)
  have mm: "current_max_pgn (vmm c') = current_max_pgn (vmm c)" "fifo_using_pgn (vmm c') = rest @ [pgn]"
      "num_of_fifo_using_pgn (vmm c') = num_of_fifo_using_pgn (vmm c)"
    using ex by (simp_all add: exchanged_def)
  have new_ram: "ram_frame c' p = ram_frame c p" if "p \<in> resident c - {v}" for p
  proof -
    have "p \<noteq> v" "p \<noteq> pgn" "p \<in> mapped c"
      using that pgn resident_or_swapped(2) [of c] resident_mapped by auto
    then show ?thesis using pages(4) [of p] by simp
  qed
  have new_swp: "swp_frame c' p = swp_frame c p" if "p \<in> swapped c - {pgn}" for p
  proof -
    have "p \<noteq> v" "p \<noteq> pgn" "p \<in> mapped c"
      using that v(1) resident_or_swapped(2) [of c] swapped_mapped by auto
    then show ?thesis using pages(5) [of p] by simp
  qed
  have at: "ram_frame c' pgn = ram_frame c v" "swp_frame c' v = sf"
    using pages(4) [of pgn] pages(5) [of v] v(1) pgn resident_mapped swapped_mapped by auto
  note inj_ram = inj_on_exchange [OF vm_ok_inj(1) [OF ok] v(1), of "ram_frame c'" pgn, OF new_ram at(1)]
  have img_swp: "swp_frame c' ` swapped c' = insert sf (swp_frame c ` (swapped c - {pgn}))"
    using new_swp at(2) by (simp add: pages(3) image_def) blast
  have t_out: "swp_frame c pgn \<notin> swp_frame c ` (swapped c - {pgn})"
    using vm_ok_inj(2) [OF ok] pgn by (auto simp: inj_on_def)
  show "dev_ok (vram c')" "frames (vram c') \<subseteq> {0..<1024}"
    using ram vm_ok_ram [OF ok] vm_ok_ram_frames [OF ok] by auto
  show "dev_ok (vswp c')"
    using ex vm_ok_swp [OF ok] free t by (auto simp: exchanged_def dev_ok_def frames_def copied_def)
  show "frames (vswp c') \<subseteq> {0..<2097152}" using swp vm_ok_swp_frames [OF ok] by auto
  show "-1 \<le> current_max_pgn (vmm c')" "current_max_pgn (vmm c') < PAGING_MAX_PGN"
    using mm vm_ok_max [OF ok] by auto
  show "pte_at c' p = 0 \<longleftrightarrow> p \<notin> mapped c'" if "0 \<le> p" "p < PAGING_MAX_PGN" for p
  proof -
    have "0 \<le> pgn" using mapped_page [OF ok swapped_mapped [OF pgn]] by simp
    from exchanged_pte [OF ex v(2) this that(1)] show ?thesis
      using vm_ok_pte [OF ok that] swapped_mapped [OF pgn] resident_mapped [OF v(1)]
      by (simp add: pages(1))
  qed
  show "distinct (fifo_using_pgn (vmm c'))" "set (fifo_using_pgn (vmm c')) \<subseteq> resident c'"
    using vm_ok_fifo(1,2) [OF ok] fifo pgn resident_or_swapped(2) [of c]
    by (auto simp: mm pages(2))
  show "num_of_fifo_using_pgn (vmm c') = int (length (fifo_using_pgn (vmm c')))"
    using vm_ok_fifo(3) [OF ok] fifo by (simp add: mm)
  show "inj_on (ram_frame c') (resident c')" "ram_frame c' ` resident c' \<subseteq> frames (vram c')"
    "ram_frame c' ` resident c' \<inter> (set (free_fp_list (vram c')) \<union> R) = {}"
    using inj_ram vm_ok_ram_used [OF ok] by (auto simp: pages(2) ram)
  have "sf \<notin> swp_frame c ` (swapped c - {pgn})" using sf(4) by auto
  then show "inj_on (swp_frame c') (swapped c')"
    using inj_on_extend [OF inj_on_diff [OF vm_ok_inj(2) [OF ok]], of "{pgn}" "swp_frame c'" v] new_swp at(2)
    by (simp add: pages(3))
  show "swp_frame c' ` swapped c' \<subseteq> frames (vswp c')"
    "swp_frame c' ` swapped c' \<inter> (set (free_fp_list (vswp c')) \<union> S) = {}"
  proof -
    have "set fl \<subseteq> set (free_fp_list (vswp c))" using free by auto
    then show "swp_frame c' ` swapped c' \<subseteq> frames (vswp c')"
        "swp_frame c' ` swapped c' \<inter> (set (free_fp_list (vswp c')) \<union> S) = {}"
      using vm_ok_swp_used [OF ok] sf t_out pgn unfolding img_swp swp by auto
  qed
  show "set (free_fp_list (vram c')) \<inter> R = {}" "set (free_fp_list (vswp c')) \<inter> S = {}"
    using vm_ok_free [OF ok] free t(2) by (auto simp: ram swp)
  show "frame_byte (vram c') f i = 0" if "f \<in> set (free_fp_list (vram c'))" "0 \<le> i" "i < 256" for f i
  proof -
    have vf: "ram_frame c v \<in> frames (vram c)" using ram_frame_in [OF ok v(1)] .
    have "f \<in> set (free_fp_list (vram c))" using that(1) ram(3) by simp
    moreover from this have "f \<noteq> ram_frame c v" "f \<in> frames (vram c)"
      using vm_ok_ram_used(2) [OF ok] v(1) free_frames_in(1) [OF ok] by auto
    ultimately show ?thesis
      using ex vm_ok_zero [OF ok] vf that(2,3) by (simp add: exchanged_def frame_byte_copied frames_def)
  qed
qed

lemma exchanged_same_view:
  assumes ok: "vm_ok R S c" and fifo: "fifo_using_pgn (vmm c) = v # rest"
    and free: "free_fp_list (vswp c) = sf # fl" and pgn: "pgn \<in> swapped c"
    and ex: "exchanged c v rest pgn sf fl c'"
  shows "same_view R S c c'"
proof -
  have v: "v \<in> resident c" "0 \<le> v" using vm_ok_fifo_page [OF ok, of v] fifo by auto
  note sf = swp_head_free(1,2,4) [OF ok free] and vf = resident_frame_used [OF ok v(1)]
  have t: "swp_frame c pgn \<in> frames (vswp c)" "swp_frame c pgn \<noteq> sf"
    using swp_frame_in [OF ok pgn] sf(3) pgn by auto
  note pages = exchanged_pages [OF ok ex v(1) pgn sf(1)]
  have ram: "frame_byte (vram c') f i = (if f = ram_frame c v then frame_byte (vswp c) (swp_frame c pgn) i
      else frame_byte (vram c) f i)" if "0 \<le> f" "0 \<le> i" "i < 256" for f i
    using ex that frames_pos [OF vf(1)] frames_pos [OF t(1)] frames_pos [OF sf(1)] t(2)
    by (simp add: exchanged_def frame_byte_copied)
  have swp: "frame_byte (vswp c') f i = (if f = sf then frame_byte (vram c) (ram_frame c v) i
      else frame_byte (vswp c) f i)" if "0 \<le> f" "0 \<le> i" "i < 256" for f i
    using ex that frames_pos [OF sf(1)] by (simp add: exchanged_def frame_byte_copied)
  have bytes: "vbyte c' p i = vbyte c p i" if "p \<in> mapped c" "0 \<le> i" "i < 256" for p i
  proof -
    have "p \<in> resident c \<union> swapped c" using that(1) resident_or_swapped(1) [of c] by simp
    then consider "p = pgn" | "p = v" | "p \<noteq> pgn" "p \<noteq> v" "p \<in> resident c"
      | "p \<noteq> pgn" "p \<noteq> v" "p \<in> swapped c" by blast
    then show ?thesis
    proof cases
      case 1
      have "pgn \<in> resident c'" "pgn \<in> swapped c" using pages(2) pgn by auto
      moreover have "ram_frame c' pgn = ram_frame c v" using pages(4) [of pgn] that(1) 1 by simp
      ultimately show ?thesis
        using 1 ram [OF frames_pos [OF vf(1)] that(2,3)]
        by (simp add: vbyte_def resident_present swapped_not_present)
    next
      case 2
      have "v \<in> swapped c'" using pages(3) by auto
      moreover have "swp_frame c' v = sf" using pages(5) [of v] that(1) 2 by simp
      ultimately show ?thesis
        using 2 v(1) swp [OF frames_pos [OF sf(1)] that(2,3)]
        by (simp add: vbyte_def resident_present swapped_not_present)
    next
      case 3
      have "p \<in> resident c'" "ram_frame c' p = ram_frame c p"
        using 3 pages(2,4) that(1) by auto
      moreover have "ram_frame c p \<noteq> ram_frame c v"
        using vm_ok_inj(1) [OF ok] 3 v(1) by (auto simp: inj_on_def)
      ultimately show ?thesis
        using 3 ram [OF frames_pos [OF ram_frame_in [OF ok 3(3)]] that(2,3)]
        by (simp add: vbyte_def resident_present)
    next
      case 4
      have "p \<in> swapped c'" "swp_frame c' p = swp_frame c p"
        using 4 pages(3,5) that(1) by auto
      moreover have "swp_frame c p \<noteq> sf" using sf(3) 4(3) by auto
      ultimately show ?thesis
        using 4 swp [OF frames_pos [OF swp_frame_in [OF ok 4(3)]] that(2,3)]
        by (simp add: vbyte_def swapped_not_present)
    qed
  qed
  have "frames (vram c') = frames (vram c)" "frames (vswp c') = frames (vswp c)"
    using ex by (simp_all add: exchanged_def)
  then show ?thesis
    using ex bytes ram swp vf(2) sf(2) frames_pos unfolding same_view_def PAGING_PAGESZ_def
    by (auto simp: exchanged_def)
qed


section \<open>Page access keeps the bytes\<close>

lemma page_sets_cong:
  assumes "pgd (vmm c') = pgd (vmm c)" and "current_max_pgn (vmm c') = current_max_pgn (vmm c)"
  shows "mapped c' = mapped c" "resident c' = resident c" "swapped c' = swapped c"
    "pte_at c' = pte_at c" "ram_frame c' = ram_frame c" "swp_frame c' = swp_frame c"
proof -
  show pte: "pte_at c' = pte_at c" using assms by (simp add: pte_at_def fun_eq_iff)
  show m: "mapped c' = mapped c" using assms by (simp add: mapped_def)
  show "resident c' = resident c" "swapped c' = swapped c"
    by (simp_all add: resident_def swapped_def pte m)
  show "ram_frame c' = ram_frame c" "swp_frame c' = swp_frame c"
    by (simp_all add: ram_frame_def swp_frame_def pte fun_eq_iff)
qed

lemma vbyte_cong:
  assumes "pte_at c' = pte_at c" and "vram c' = vram c" and "vswp c' = vswp c"
  shows "vbyte c' = vbyte c"
  using assms by (simp add: vbyte_def ram_frame_def swp_frame_def fun_eq_iff)

text \<open>A victim that was taken and not used is only gone from the FIFO list.\<close>

definition drop_victim :: "vmctx \<Rightarrow> vmctx" where
  "drop_victim c = c\<lparr>vmm := (vmm c)\<lparr>fifo_using_pgn := tl (fifo_using_pgn (vmm c)),
     num_of_fifo_using_pgn := num_of_fifo_using_pgn (vmm c) - 1\<rparr>\<rparr>"

lemma drop_victim_ok:
  assumes "vm_ok R S c" and "fifo_using_pgn (vmm c) \<noteq> []"
  shows "vm_ok R S (drop_victim c)" and "same_view R S c (drop_victim c)"
proof -
  obtain v rest where fifo: "fifo_using_pgn (vmm c) = v # rest"
    using assms(2) by (cases "fifo_using_pgn (vmm c)") auto
  have eqs: "pgd (vmm (drop_victim c)) = pgd (vmm c)"
      "current_max_pgn (vmm (drop_victim c)) = current_max_pgn (vmm c)"
      "vram (drop_victim c) = vram c" "vswp (drop_victim c) = vswp c"
      "fifo_using_pgn (vmm (drop_victim c)) = rest"
      "num_of_fifo_using_pgn (vmm (drop_victim c)) = num_of_fifo_using_pgn (vmm c) - 1"
      "mmap (vmm (drop_victim c)) = mmap (vmm c)" "symrgtbl (vmm (drop_victim c)) = symrgtbl (vmm c)"
    using fifo by (simp_all add: drop_victim_def)
  note sets = page_sets_cong [OF eqs(1,2)]
  show "vm_ok R S (drop_victim c)"
    using assms(1) fifo by (simp add: vm_ok_def sets eqs)
  show "same_view R S c (drop_victim c)"
    using vbyte_cong [OF sets(4) eqs(3,4)] by (simp add: same_view_def eqs)
qed

text \<open>
  A process is ready when none of its pages is on swap, or when a page can be exchanged:
  one of its own pages can leave RAM and swap has a free frame.
\<close>

definition ready :: "vmctx \<Rightarrow> bool" where
  "ready c \<longleftrightarrow> swapped c = {} \<or> (fifo_using_pgn (vmm c) \<noteq> [] \<and> free_fp_list (vswp c) \<noteq> [])"

lemma swap_in_cases:
  assumes ok: "vm_ok R S c" and pgn: "pgn \<in> swapped c"
  obtains (no_victim) "fifo_using_pgn (vmm c) = []" "swap_in c pgn (pte_at c pgn) = Some (1, c)"
  | (no_frame) "fifo_using_pgn (vmm c) \<noteq> []" "free_fp_list (vswp c) = []"
      "swap_in c pgn (pte_at c pgn) = Some (2, drop_victim c)"
  | (swapped) c' where "fifo_using_pgn (vmm c) \<noteq> []" "free_fp_list (vswp c) \<noteq> []"
      "swap_in c pgn (pte_at c pgn) = Some (0, c')" "vm_ok R S c'" "same_view R S c c'"
      "pgn \<in> resident c'" "ready c'"
proof (cases "fifo_using_pgn (vmm c)")
  case Nil
  with no_victim swap_in_no_victim show ?thesis by blast
next
  case (Cons v rest)
  note fifo = Cons
  show ?thesis
  proof (cases "free_fp_list (vswp c)")
    case Nil
    with no_frame swap_in_no_frame [OF ok fifo Nil] fifo show ?thesis by (simp add: drop_victim_def)
  next
    case (Cons sf fl)
    from swap_in_exchange [OF ok fifo Cons pgn] obtain c' where
      c': "swap_in c pgn (pte_at c pgn) = Some (0, c')" "exchanged c v rest pgn sf fl c'" by blast
    have v: "v \<in> resident c" using vm_ok_fifo_page [OF ok, of v] fifo by auto
    have sf: "sf \<in> frames (vswp c)" using free_frames_in(2) [OF ok] Cons by simp
    have "pgn \<in> resident c'" using exchanged_pages(2) [OF ok c'(2) v pgn sf] by simp
    moreover have "ready c'" using c'(2) by (simp add: ready_def exchanged_def)
    ultimately show ?thesis
      using c'(1) exchanged_vm_ok [OF ok fifo Cons pgn c'(2)]
      exchanged_same_view [OF ok fifo Cons pgn c'(2)] swapped fifo Cons by simp
  qed
qed

text \<open>
  What a page access can do: it fails and names the reason, or it makes the page
  resident. In every case the invariant holds and nobody's bytes have changed.
\<close>

lemma pg_getpage_spec:
  assumes ok: "vm_ok R S c" and pgn: "0 \<le> pgn" "pgn < PAGING_MAX_PGN"
  obtains (unmapped) "pgn \<notin> mapped c" "pg_getpage c pgn = Some (ERR_INVALID_ACCESS, None, c)"
  | (stuck) c' where "pgn \<in> swapped c" "\<not> ready c"
      "pg_getpage c pgn = Some (ERR_SWAPPING, None, c')" "vm_ok R S c'" "same_view R S c c'"
  | (loaded) c' where "pgn \<in> mapped c"
      "pg_getpage c pgn = Some (0, Some (ram_frame c' pgn), c')" "vm_ok R S c'" "same_view R S c c'"
      "pgn \<in> resident c'" "ready c \<Longrightarrow> ready c'"
proof -
  have pte: "arr_get PAGING_MAX_PGN (pgd (vmm c)) pgn = Some (pte_at c pgn)"
    using arr_get_pte [OF pgn] .
  consider "pgn \<notin> mapped c" | "pgn \<in> resident c" | "pgn \<in> swapped c"
    using resident_or_swapped(1) [of c] by blast
  then show ?thesis
  proof cases
    case 1
    with vm_ok_pte [OF ok pgn] pte have "pg_getpage c pgn = Some (ERR_INVALID_ACCESS, None, c)"
      by (simp add: pg_getpage_def)
    with 1 unmapped show ?thesis by blast
  next
    case 2
    with vm_ok_pte [OF ok pgn] pte have "pg_getpage c pgn = Some (0, Some (ram_frame c pgn), c)"
      using resident_present resident_mapped by (auto simp: pg_getpage_def ram_frame_def)
    with 2 ok loaded [of c] resident_mapped show ?thesis by simp
  next
    case 3
    have "pte_at c pgn \<noteq> 0" using vm_ok_pte [OF ok pgn] swapped_mapped [OF 3] by simp
    then have go: "pg_getpage c pgn = do { (r, c') \<leftarrow> swap_in c pgn (pte_at c pgn);
        if r \<noteq> 0 then Some (ERR_SWAPPING, None, c')
        else do { pte' \<leftarrow> arr_get PAGING_MAX_PGN (pgd (vmm c')) pgn;
                  Some (0, Some (uint (PAGING_FPN pte')), c') } }"
      using pte swapped_not_present [OF 3] by (simp add: pg_getpage_def)
    from ok 3 show ?thesis
    proof (cases rule: swap_in_cases)
      case no_victim
      moreover from 3 no_victim(1) have "\<not> ready c" by (auto simp: ready_def)
      ultimately show ?thesis using 3 ok stuck [of c] go by simp
    next
      case no_frame
      moreover from 3 no_frame(2) have "\<not> ready c" by (auto simp: ready_def)
      ultimately show ?thesis
        using 3 drop_victim_ok [OF ok no_frame(1)] stuck [of "drop_victim c"] go by simp
    next
      case (swapped c')
      with go loaded [of c'] swapped_mapped [OF 3] arr_get_pte [OF pgn, of c'] show ?thesis
        by (simp add: ram_frame_def)
    qed
  qed
qed

lemma bring_to_ram_spec:
  assumes ok: "vm_ok R S c" and pgn: "0 \<le> pgn" "pgn < PAGING_MAX_PGN"
  obtains (failed) r c' where "bring_to_ram c pgn = Some (r, c')" "r = ERR_LACK_MEM_RAM \<or> r = ERR_LACK_MEM_SWP"
      "vm_ok R S c'" "same_view R S c c'" "pgn \<in> swapped c"
  | (done_ok) c' where "bring_to_ram c pgn = Some (0, c')" "vm_ok R S c'" "same_view R S c c'"
      "pgn \<in> mapped c \<Longrightarrow> pgn \<in> resident c'"
proof -
  have pte: "arr_get PAGING_MAX_PGN (pgd (vmm c)) pgn = Some (pte_at c pgn)"
    using arr_get_pte [OF pgn] .
  show ?thesis
  proof (cases "pgn \<in> swapped c")
    case False
    then have "bring_to_ram c pgn = Some (0, c)"
      using pte vm_ok_pte [OF ok pgn] by (auto simp: bring_to_ram_def swapped_def)
    with False ok done_ok [of c] resident_or_swapped(1) [of c] show ?thesis by auto
  next
    case True
    have "pte_at c pgn \<noteq> 0" using vm_ok_pte [OF ok pgn] swapped_mapped [OF True] by simp
    then have go: "bring_to_ram c pgn = do { (r, c') \<leftarrow> swap_in c pgn (pte_at c pgn);
        Some (if r = 1 then ERR_LACK_MEM_RAM else if r = 2 then ERR_LACK_MEM_SWP else 0, c') }"
      using pte swapped_not_present [OF True] by (simp add: bring_to_ram_def)
    from ok True show ?thesis
    proof (cases rule: swap_in_cases)
      case no_victim
      with True ok failed [of _ c] go show ?thesis by simp
    next
      case no_frame
      with True drop_victim_ok [OF ok no_frame(1)] failed [of _ "drop_victim c"] go show ?thesis by simp
    next
      case (swapped c')
      with go done_ok [of c'] show ?thesis by simp
    qed
  qed
qed


end
