(* ===== verification/Flat_Memory.thy ===== *)
theory Flat_Memory
  imports Paging
begin

text \<open>
  What paging promises: the pages of a process behave as one flat array of bytes. The
  locale \<open>byte_memory\<close> is the contract of a memory that is read and written byte by
  byte and may fail; its client is any sequence of accesses. The interpretation gives the
  contract for \<open>pg_getval\<close> and \<open>pg_setval\<close> of \<open>src/mm-vm.c\<close>.
\<close>

section \<open>Byte access is access to a flat memory\<close>

definition vread :: "vmctx \<Rightarrow> int \<Rightarrow> u8" where
  "vread c a = vbyte c (a div PAGING_PAGESZ) (a mod PAGING_PAGESZ)"

definition vdom :: "vmctx \<Rightarrow> int set" where
  "vdom c = {0..<PAGING_PAGESZ * (current_max_pgn (vmm c) + 1)}"

text \<open>The effect of a step on everything that can be observed of the memory.\<close>

definition view_becomes :: "int set \<Rightarrow> int set \<Rightarrow> vmctx \<Rightarrow> (int \<Rightarrow> u8) \<Rightarrow> vmctx \<Rightarrow> bool" where
  "view_becomes R S c f c' \<longleftrightarrow>
     mmap (vmm c') = mmap (vmm c) \<and> symrgtbl (vmm c') = symrgtbl (vmm c)
     \<and> current_max_pgn (vmm c') = current_max_pgn (vmm c)
     \<and> frames (vram c') = frames (vram c) \<and> frames (vswp c') = frames (vswp c)
     \<and> (\<forall>a\<in>vdom c. vread c' a = f a)
     \<and> (\<forall>g\<in>R. g \<in> frames (vram c) \<longrightarrow> (\<forall>i\<in>{0..<PAGING_PAGESZ}. frame_byte (vram c') g i = frame_byte (vram c) g i))
     \<and> (\<forall>g\<in>S. g \<in> frames (vswp c) \<longrightarrow> (\<forall>i\<in>{0..<PAGING_PAGESZ}. frame_byte (vswp c') g i = frame_byte (vswp c) g i))"

lemma div_256_le: "a div 256 \<le> m \<longleftrightarrow> a < 256 * (m + 1)" for a m :: int
proof -
  define q r where "q = a div 256" and "r = a mod 256"
  then have "a = 256 * q + r" "0 \<le> r" "r < 256" by simp_all
  moreover from this have "q \<le> m \<longleftrightarrow> 256 * q + r < 256 * (m + 1)" by auto
  ultimately show ?thesis by (simp add: q_def)
qed

lemma vdom_page: "a \<in> vdom c \<longleftrightarrow> a div 256 \<in> mapped c"
  unfolding vdom_def mapped_def PAGING_PAGESZ_def atLeastAtMost_iff atLeastLessThan_iff div_256_le
  by auto

lemma vread_at: "0 \<le> i \<Longrightarrow> i < 256 \<Longrightarrow> vread c (p * 256 + i) = vbyte c p i"
  by (simp add: vread_def PAGING_PAGESZ_def)

lemma same_view_becomes: "same_view R S c c' \<longleftrightarrow> view_becomes R S c (vread c) c'"
proof -
  have "(\<forall>p\<in>mapped c. \<forall>i\<in>{0..<PAGING_PAGESZ}. vbyte c' p i = vbyte c p i) \<longleftrightarrow>
      (\<forall>a\<in>vdom c. vread c' a = vread c a)" (is "?L \<longleftrightarrow> ?R")
  proof
    assume ?L
    then show ?R by (auto simp: vdom_page vread_def PAGING_PAGESZ_def)
  next
    assume R: ?R
    show ?L
    proof (intro ballI)
      fix p i assume p: "p \<in> mapped c" "i \<in> {0..<PAGING_PAGESZ}"
      then have "p * 256 + i \<in> vdom c" by (simp add: vdom_page PAGING_PAGESZ_def)
      then have "vread c' (p * 256 + i) = vread c (p * 256 + i)" using R by blast
      with p show "vbyte c' p i = vbyte c p i" by (simp add: vread_at PAGING_PAGESZ_def)
    qed
  qed
  then show ?thesis by (simp add: same_view_def view_becomes_def)
qed

lemma view_becomes_trans:
  assumes "view_becomes R S c f c1" and "view_becomes R S c1 g c2"
  shows "view_becomes R S c g c2"
proof -
  have "vdom c1 = vdom c" using assms(1) by (simp add: view_becomes_def vdom_def)
  with assms show ?thesis unfolding view_becomes_def by auto
qed

lemma view_becomes_cong:
  "view_becomes R S c f c' \<Longrightarrow> (\<And>a. a \<in> vdom c \<Longrightarrow> f a = g a) \<Longrightarrow> view_becomes R S c g c'"
  by (simp add: view_becomes_def)

text \<open>Writing a byte of a resident page.\<close>

definition poke :: "vmctx \<Rightarrow> int \<Rightarrow> u8 \<Rightarrow> vmctx" where
  "poke c a v = c\<lparr>vram := (vram c)\<lparr>storage := (storage (vram c))
     (nat (ram_frame c (a div 256) * 256 + a mod 256) := v)\<rparr>\<rparr>"

lemma poke_ok:
  assumes ok: "vm_ok R S c" and res: "a div 256 \<in> resident c"
  shows "vm_ok R S (poke c a v)" and "view_becomes R S c ((vread c)(a := v)) (poke c a v)"
    and "ready (poke c a v) \<longleftrightarrow> ready c" and "resident (poke c a v) = resident c"
proof -
  let ?f = "ram_frame c (a div 256)"
  let ?c = "poke c a v"
  have f: "?f \<in> frames (vram c)" "?f \<notin> R" "0 \<le> ?f"
    using ram_frame_in [OF ok res] vm_ok_ram_used(2) [OF ok] res by (auto simp: frames_def)
  have eqs: "vmm ?c = vmm c" "vswp ?c = vswp c" "free_fp_list (vram ?c) = free_fp_list (vram c)"
      "dev_ok (vram ?c) = dev_ok (vram c)" "frames (vram ?c) = frames (vram c)"
    by (simp_all add: poke_def)
  have sets: "mapped ?c = mapped c" "resident ?c = resident c" "swapped ?c = swapped c"
      "pte_at ?c = pte_at c" "ram_frame ?c = ram_frame c" "swp_frame ?c = swp_frame c"
    using page_sets_cong [of ?c c] eqs(1) by simp_all
  show "ready ?c \<longleftrightarrow> ready c" by (simp add: ready_def sets eqs)
  show "resident ?c = resident c" by (rule sets)
  have byte: "frame_byte (vram ?c) g i = (if g = ?f \<and> i = a mod 256 then v else frame_byte (vram c) g i)"
    if "0 \<le> g" "0 \<le> i" "i < 256" for g i
  proof -
    have "nat (g * 256 + i) = nat (?f * 256 + a mod 256) \<longleftrightarrow> g = ?f \<and> i = a mod 256"
      using frame_offset_inj [of i "a mod 256" g ?f] that f(3) by (auto simp: nat_eq_iff2)
    then show ?thesis by (simp add: frame_byte_def poke_def PAGING_PAGESZ_def)
  qed
  have "vread ?c b = ((vread c)(a := v)) b" if "b \<in> vdom c" for b
  proof (cases "b div 256 \<in> resident c")
    case True
    have "0 \<le> ram_frame c (b div 256)" using ram_frame_in [OF ok True] by (simp add: frames_def)
    from byte [OF this, of "b mod 256"] have
      "vread ?c b = (if ram_frame c (b div 256) = ?f \<and> b mod 256 = a mod 256 then v else vread c b)"
      using resident_present [OF True]
      by (simp add: vread_def vbyte_def sets PAGING_PAGESZ_def)
    moreover have "ram_frame c (b div 256) = ?f \<longleftrightarrow> b div 256 = a div 256"
      using vm_ok_inj(1) [OF ok] True res by (auto simp: inj_on_def)
    moreover have "b div 256 = a div 256 \<and> b mod 256 = a mod 256 \<longleftrightarrow> b = a"
      by (metis div_mult_mod_eq)
    ultimately show ?thesis by auto
  next
    case False
    then have "b div 256 \<in> swapped c" using that resident_or_swapped(1) [of c] by (auto simp: vdom_page)
    moreover have "b \<noteq> a" using False res by auto
    ultimately show ?thesis
      using swapped_not_present by (simp add: vread_def vbyte_def sets eqs PAGING_PAGESZ_def)
  qed
  moreover have "frame_byte (vram ?c) g i = frame_byte (vram c) g i"
    if "g \<in> R" "g \<in> frames (vram c)" "0 \<le> i" "i < 256" for g i
    using byte [of g i] that f(2) by (auto simp: frames_def)
  ultimately show "view_becomes R S c ((vread c)(a := v)) ?c"
    by (simp add: view_becomes_def eqs PAGING_PAGESZ_def)
  have "frame_byte (vram ?c) g i = 0" if "g \<in> set (free_fp_list (vram c))" "0 \<le> i" "i < 256" for g i
  proof -
    have "g \<noteq> ?f" "0 \<le> g"
      using that(1) vm_ok_ram_used(2) [OF ok] res free_frames_in(1) [OF ok] by (auto simp: frames_def)
    then show ?thesis using byte that vm_ok_zero [OF ok that] by simp
  qed
  then show "vm_ok R S ?c" using ok by (simp add: vm_ok_def sets eqs PAGING_PAGESZ_def)
qed


lemma pg_getval_spec:
  assumes ok: "vm_ok R S c" and a: "0 \<le> a" "a < 2 ^ 22"
  obtains (unmapped) "a \<notin> vdom c" "pg_getval c a = Some (ERR_INVALID_ACCESS, None, c)"
  | (stuck) c' where "a \<in> vdom c" "\<not> ready c" "pg_getval c a = Some (ERR_SWAPPING, None, c')"
      "vm_ok R S c'" "view_becomes R S c (vread c) c'"
  | (loaded) c' where "a \<in> vdom c" "pg_getval c a = Some (0, Some (vread c a), c')"
      "vm_ok R S c'" "view_becomes R S c (vread c) c'" "ready c \<Longrightarrow> ready c'"
proof -
  have page: "uint (PAGING_PGN (u32_of_int a)) = a div 256" "uint (PAGING_OFFST (u32_of_int a)) = a mod 256"
    using a by (simp_all add: uint_PGN_of_int uint_OFFST_of_int)
  have "0 \<le> a div 256" "a div 256 < PAGING_MAX_PGN"
    using a by (auto simp: PAGING_MAX_PGN_def)
  from ok this show ?thesis
  proof (cases rule: pg_getpage_spec)
    case unmapped
    then have "pg_getval c a = Some (ERR_INVALID_ACCESS, None, c)"
      by (simp add: pg_getval_def page err_defs)
    with unmapped that(1) show ?thesis by (simp add: vdom_page)
  next
    case (stuck c')
    then have "pg_getval c a = Some (ERR_SWAPPING, None, c')"
      by (simp add: pg_getval_def page err_defs)
    with stuck that(2) show ?thesis
      using swapped_mapped by (simp add: vdom_page same_view_becomes)
  next
    case (loaded c')
    have f: "ram_frame c' (a div 256) \<in> frames (vram c')" using ram_frame_in [OF loaded(3,5)] .
    have "pg_getval c a = Some (0, Some (frame_byte (vram c') (ram_frame c' (a div 256)) (a mod 256)), c')"
      using loaded MEMPHY_read_ok [OF vm_ok_ram [OF loaded(3)]] frame_address [OF f, of "a mod 256"]
      by (simp add: pg_getval_def page frame_byte_def PAGING_PAGESZ_def)
    also have "frame_byte (vram c') (ram_frame c' (a div 256)) (a mod 256) = vread c' a"
      using resident_present [OF loaded(5)] by (simp add: vread_def vbyte_def PAGING_PAGESZ_def)
    also have "vread c' a = vread c a"
      using loaded(1,4) by (simp add: same_view_becomes view_becomes_def vdom_page)
    finally show ?thesis using loaded that(3) by (simp add: vdom_page same_view_becomes)
  qed
qed

lemma pg_setval_spec:
  assumes ok: "vm_ok R S c" and a: "0 \<le> a" "a < 2 ^ 22"
  obtains (unmapped) "a \<notin> vdom c" "pg_setval c a v = Some (ERR_INVALID_ACCESS, c)"
  | (stuck) c' where "a \<in> vdom c" "\<not> ready c" "pg_setval c a v = Some (ERR_SWAPPING, c')"
      "vm_ok R S c'" "view_becomes R S c (vread c) c'"
  | (loaded) c' where "a \<in> vdom c" "pg_setval c a v = Some (0, c')"
      "vm_ok R S c'" "view_becomes R S c ((vread c)(a := v)) c'" "ready c \<Longrightarrow> ready c'"
proof -
  have page: "uint (PAGING_PGN (u32_of_int a)) = a div 256" "uint (PAGING_OFFST (u32_of_int a)) = a mod 256"
    using a by (simp_all add: uint_PGN_of_int uint_OFFST_of_int)
  have "0 \<le> a div 256" "a div 256 < PAGING_MAX_PGN"
    using a by (auto simp: PAGING_MAX_PGN_def)
  from ok this show ?thesis
  proof (cases rule: pg_getpage_spec)
    case unmapped
    then have "pg_setval c a v = Some (ERR_INVALID_ACCESS, c)"
      by (simp add: pg_setval_def page err_defs)
    with unmapped that(1) show ?thesis by (simp add: vdom_page)
  next
    case (stuck c')
    then have "pg_setval c a v = Some (ERR_SWAPPING, c')"
      by (simp add: pg_setval_def page err_defs)
    with stuck that(2) show ?thesis
      using swapped_mapped by (simp add: vdom_page same_view_becomes)
  next
    case (loaded c')
    have f: "ram_frame c' (a div 256) \<in> frames (vram c')" using ram_frame_in [OF loaded(3,5)] .
    have "pg_setval c a v = Some (0, poke c' a v)"
      using loaded MEMPHY_write_ok [OF vm_ok_ram [OF loaded(3)]] frame_address [OF f, of "a mod 256"]
      by (simp add: pg_setval_def page poke_def PAGING_PAGESZ_def)
    moreover note poke = poke_ok [OF loaded(3,5), of v]
    moreover have "view_becomes R S c ((vread c)(a := v)) (poke c' a v)"
    proof (rule view_becomes_cong)
      show "view_becomes R S c ((vread c')(a := v)) (poke c' a v)"
        using view_becomes_trans [OF _ poke(2)] loaded(4) same_view_becomes by blast
      show "((vread c')(a := v)) b = ((vread c)(a := v)) b" if "b \<in> vdom c" for b
        using loaded(4) that by (simp add: same_view_becomes view_becomes_def)
    qed
    ultimately show ?thesis using loaded that(3) by (simp add: vdom_page)
  qed
qed

section \<open>The contract and its client\<close>

datatype mem_access = Get int | Put int u8

fun access_addr :: "mem_access \<Rightarrow> int" where
  "access_addr (Get a) = a"
| "access_addr (Put a v) = a"

text \<open>A run returns the status and the value of every access.\<close>

fun run_accesses ::
  "('s \<Rightarrow> int \<Rightarrow> (int \<times> u8 option \<times> 's) option) \<Rightarrow> ('s \<Rightarrow> int \<Rightarrow> u8 \<Rightarrow> (int \<times> 's) option)
   \<Rightarrow> 's \<Rightarrow> mem_access list \<Rightarrow> ((int \<times> u8 option) list \<times> 's) option" where
  "run_accesses rd wr s [] = Some ([], s)"
| "run_accesses rd wr s (Get a # as) =
     do { (r, v, s1) \<leftarrow> rd s a;
          (rs, s2) \<leftarrow> run_accesses rd wr s1 as;
          Some ((r, v) # rs, s2) }"
| "run_accesses rd wr s (Put a v # as) =
     do { (r, s1) \<leftarrow> wr s a v;
          (rs, s2) \<leftarrow> run_accesses rd wr s1 as;
          Some ((r, None) # rs, s2) }"

text \<open>A flat memory over the addresses \<open>D\<close>, told which accesses succeed.\<close>

fun flat_run :: "(int \<Rightarrow> u8) \<Rightarrow> mem_access list \<Rightarrow> bool list \<Rightarrow> u8 option list" where
  "flat_run m (Get a # as) (b # bs) = (if b then Some (m a) else None) # flat_run m as bs"
| "flat_run m (Put a v # as) (b # bs) = None # flat_run (if b then m(a := v) else m) as bs"
| "flat_run m as bs = []"

fun flat_mem :: "(int \<Rightarrow> u8) \<Rightarrow> mem_access list \<Rightarrow> bool list \<Rightarrow> int \<Rightarrow> u8" where
  "flat_mem m (Get a # as) (b # bs) = flat_mem m as bs"
| "flat_mem m (Put a v # as) (b # bs) = flat_mem (if b then m(a := v) else m) as bs"
| "flat_mem m as bs = m"

lemma flat_run_cong:
  assumes "\<And>a. a \<in> D \<Longrightarrow> m a = m' a" and "length bs = length as"
    and "\<And>i. i < length as \<Longrightarrow> bs ! i \<Longrightarrow> access_addr (as ! i) \<in> D"
  shows "flat_run m as bs = flat_run m' as bs \<and> (\<forall>a\<in>D. flat_mem m as bs a = flat_mem m' as bs a)"
  using assms
proof (induction as arbitrary: bs m m')
  case Nil
  then show ?case by simp
next
  case (Cons x as)
  obtain b bs' where bs: "bs = b # bs'" using Cons.prems(2) by (cases bs) auto
  have addr: "b \<Longrightarrow> access_addr x \<in> D" using Cons.prems(3) [of 0] bs by simp
  have rest: "\<And>i. i < length as \<Longrightarrow> bs' ! i \<Longrightarrow> access_addr (as ! i) \<in> D"
    using Cons.prems(3) [of "Suc _"] bs by auto
  show ?case
  proof (cases x)
    case (Get a)
    have "flat_run m as bs' = flat_run m' as bs' \<and> (\<forall>a\<in>D. flat_mem m as bs' a = flat_mem m' as bs' a)"
      using Cons.prems bs rest by (intro Cons.IH) auto
    then show ?thesis using Get bs addr Cons.prems(1) by simp
  next
    case (Put a v)
    let ?m = "if b then m(a := v) else m" and ?m' = "if b then m'(a := v) else m'"
    have "flat_run ?m as bs' = flat_run ?m' as bs' \<and> (\<forall>a\<in>D. flat_mem ?m as bs' a = flat_mem ?m' as bs' a)"
      using Cons.prems bs rest by (intro Cons.IH) auto
    then show ?thesis using Put bs by simp
  qed
qed

locale byte_memory =
  fixes rd :: "'s \<Rightarrow> int \<Rightarrow> (int \<times> u8 option \<times> 's) option"
    and wr :: "'s \<Rightarrow> int \<Rightarrow> u8 \<Rightarrow> (int \<times> 's) option"
    and look :: "'s \<Rightarrow> int \<Rightarrow> u8"
    and addrs :: "'s \<Rightarrow> int set"
    and in_range :: "int \<Rightarrow> bool"
    and live :: "'s \<Rightarrow> bool"
    and step_ok :: "'s \<Rightarrow> (int \<Rightarrow> u8) \<Rightarrow> 's \<Rightarrow> bool"
    and invar :: "'s \<Rightarrow> bool"
  assumes rd_ok: "\<lbrakk>invar s; in_range a\<rbrakk> \<Longrightarrow> \<exists>r v s'. rd s a = Some (r, v, s') \<and> invar s'
      \<and> step_ok s (look s) s' \<and> v = (if r = 0 then Some (look s a) else None)
      \<and> (r = 0 \<longrightarrow> a \<in> addrs s) \<and> (live s \<longrightarrow> live s' \<and> (r = 0 \<longleftrightarrow> a \<in> addrs s))"
    and wr_ok: "\<lbrakk>invar s; in_range a\<rbrakk> \<Longrightarrow> \<exists>r s'. wr s a v = Some (r, s') \<and> invar s'
      \<and> step_ok s (if r = 0 then (look s)(a := v) else look s) s'
      \<and> (r = 0 \<longrightarrow> a \<in> addrs s) \<and> (live s \<longrightarrow> live s' \<and> (r = 0 \<longleftrightarrow> a \<in> addrs s))"
    and step_view: "step_ok s f s' \<Longrightarrow> addrs s' = addrs s \<and> (\<forall>a\<in>addrs s. look s' a = f a)"
    and step_refl: "step_ok s (look s) s"
    and step_trans: "\<lbrakk>step_ok s f s1; step_ok s1 g s2\<rbrakk> \<Longrightarrow> step_ok s g s2"
    and step_cong: "\<lbrakk>step_ok s f s'; \<And>a. a \<in> addrs s \<Longrightarrow> f a = g a\<rbrakk> \<Longrightarrow> step_ok s g s'"
begin

lemma run_flat:
  "\<lbrakk>invar s; \<And>x. x \<in> set as \<Longrightarrow> in_range (access_addr x)\<rbrakk> \<Longrightarrow>
   \<exists>rs s' bs. run_accesses rd wr s as = Some (rs, s') \<and> invar s'
     \<and> bs = map (\<lambda>r. fst r = 0) rs \<and> length rs = length as
     \<and> map snd rs = flat_run (look s) as bs
     \<and> step_ok s (flat_mem (look s) as bs) s'
     \<and> (\<forall>i<length as. bs ! i \<longrightarrow> access_addr (as ! i) \<in> addrs s)
     \<and> (live s \<longrightarrow> live s' \<and> (\<forall>i<length as. bs ! i \<longleftrightarrow> access_addr (as ! i) \<in> addrs s))"
proof (induction as arbitrary: s)
  case Nil
  then show ?case using step_refl by simp
next
  case (Cons x as)
  have rng: "in_range (access_addr x)" using Cons.prems(2) by simp
  have rest: "\<And>y. y \<in> set as \<Longrightarrow> in_range (access_addr y)" using Cons.prems(2) by simp
  have "\<exists>r v s1 m. run_accesses rd wr s (x # as) = do { (rs, s2) \<leftarrow> run_accesses rd wr s1 as; Some ((r, v) # rs, s2) }
      \<and> invar s1 \<and> step_ok s m s1 \<and> (r = 0 \<longrightarrow> access_addr x \<in> addrs s)
      \<and> (live s \<longrightarrow> live s1 \<and> (r = 0 \<longleftrightarrow> access_addr x \<in> addrs s))
      \<and> (\<forall>as bs. flat_run (look s) (x # as) ((r = 0) # bs) = v # flat_run m as bs)
      \<and> (\<forall>as bs. flat_mem (look s) (x # as) ((r = 0) # bs) = flat_mem m as bs)"
  proof (cases x)
    case (Get a)
    from rd_ok [OF Cons.prems(1), of a] rng Get obtain r v s1 where s1: "rd s a = Some (r, v, s1)" "invar s1"
        "step_ok s (look s) s1" "v = (if r = 0 then Some (look s a) else None)"
        "r = 0 \<longrightarrow> a \<in> addrs s" "live s \<longrightarrow> live s1 \<and> (r = 0 \<longleftrightarrow> a \<in> addrs s)" by auto
    show ?thesis
      by (rule exI [of _ r], rule exI [of _ v], rule exI [of _ s1], rule exI [of _ "look s"])
        (use s1 Get in simp)
  next
    case (Put a v)
    from wr_ok [OF Cons.prems(1), of a v] rng Put obtain r s1 where s1: "wr s a v = Some (r, s1)" "invar s1"
        "step_ok s (if r = 0 then (look s)(a := v) else look s) s1"
        "r = 0 \<longrightarrow> a \<in> addrs s" "live s \<longrightarrow> live s1 \<and> (r = 0 \<longleftrightarrow> a \<in> addrs s)" by auto
    show ?thesis
      by (rule exI [of _ r], rule exI [of _ None], rule exI [of _ s1],
          rule exI [of _ "if r = 0 then (look s)(a := v) else look s"])
        (use s1 Put in simp)
  qed
  then obtain r v s1 m where x: "run_accesses rd wr s (x # as) =
        do { (rs, s2) \<leftarrow> run_accesses rd wr s1 as; Some ((r, v) # rs, s2) }"
      "invar s1" "step_ok s m s1" "r = 0 \<longrightarrow> access_addr x \<in> addrs s"
      "live s \<longrightarrow> live s1 \<and> (r = 0 \<longleftrightarrow> access_addr x \<in> addrs s)"
      "\<And>as bs. flat_run (look s) (x # as) ((r = 0) # bs) = v # flat_run m as bs"
      "\<And>as bs. flat_mem (look s) (x # as) ((r = 0) # bs) = flat_mem m as bs" by blast
  from Cons.IH [OF x(2) rest] obtain rs s2 bs where IH: "run_accesses rd wr s1 as = Some (rs, s2)" "invar s2"
      "bs = map (\<lambda>r. fst r = 0) rs" "length rs = length as"
      "map snd rs = flat_run (look s1) as bs" "step_ok s1 (flat_mem (look s1) as bs) s2"
      "\<forall>i<length as. bs ! i \<longrightarrow> access_addr (as ! i) \<in> addrs s1"
      "live s1 \<longrightarrow> live s2 \<and> (\<forall>i<length as. bs ! i \<longleftrightarrow> access_addr (as ! i) \<in> addrs s1)" by blast
  have view: "addrs s1 = addrs s" "\<forall>a\<in>addrs s. look s1 a = m a" using step_view [OF x(3)] by auto
  have same: "flat_run (look s1) as bs = flat_run m as bs
      \<and> (\<forall>a\<in>addrs s. flat_mem (look s1) as bs a = flat_mem m as bs a)"
    using view IH(3,4,7) by (intro flat_run_cong) auto
  have step: "step_ok s (flat_mem m as bs) s2"
    using step_trans [OF x(3) IH(6)] same step_cong by blast
  show ?case
  proof (intro exI conjI)
    show "run_accesses rd wr s (x # as) = Some ((r, v) # rs, s2)" using x(1) IH(1) by simp
    show "map snd ((r, v) # rs) = flat_run (look s) (x # as) ((r = 0) # bs)" using IH(5) same x(6) by simp
    show "step_ok s (flat_mem (look s) (x # as) ((r = 0) # bs)) s2" using step x(7) by simp
    show "\<forall>i<length (x # as). ((r = 0) # bs) ! i \<longrightarrow> access_addr ((x # as) ! i) \<in> addrs s"
      using x(4) IH(7) view(1) by (auto simp: nth_Cons split: nat.splits)
    show "live s \<longrightarrow> live s2 \<and>
        (\<forall>i<length (x # as). ((r = 0) # bs) ! i \<longleftrightarrow> access_addr ((x # as) ! i) \<in> addrs s)"
      using x(5) IH(8) view(1) by (auto simp: nth_Cons split: nat.splits)
  qed (use IH in auto)
qed

end

definition in_bus :: "int \<Rightarrow> bool" where
  "in_bus a \<longleftrightarrow> 0 \<le> a \<and> a < 2 ^ 22"

interpretation vmem: byte_memory pg_getval pg_setval vread vdom in_bus ready
  "view_becomes R S" "vm_ok R S" for R S
proof (unfold_locales, goal_cases)
  case (1 s a)
  then have a: "0 \<le> a" "a < 2 ^ 22" by (simp_all add: in_bus_def)
  from 1(1) a show ?case
  proof (cases rule: pg_getval_spec)
    case unmapped
    then show ?thesis using 1 by (simp add: err_defs same_view_becomes [symmetric])
  qed (simp_all add: err_defs)
next
  case (2 s a v)
  then have a: "0 \<le> a" "a < 2 ^ 22" by (simp_all add: in_bus_def)
  from 2(1) a show ?case
  proof (cases rule: pg_setval_spec [where v = v])
    case unmapped
    then show ?thesis using 2 by (simp add: err_defs same_view_becomes [symmetric])
  qed (simp_all add: err_defs)
next
  case (3 s f s')
  then show ?case by (simp add: view_becomes_def vdom_def)
next
  case (4 s)
  then show ?case by (simp add: same_view_becomes [symmetric])
next
  case (5 s f s1 g s2)
  then show ?case by (rule view_becomes_trans)
next
  case (6 s f s' g)
  then show ?case by (rule view_becomes_cong)
qed



section \<open>Properties\<close>

text \<open>A process of three pages, two in a RAM of two frames and one on swap.\<close>

definition sample_mm :: mm_struct where
  "sample_mm = \<lparr>pgd = (\<lambda>_. 0)(0 := 0x80000000, 1 := 0x80000001, 2 := 0x40000040),
     mmap = [], symrgtbl = [], fifo_using_pgn = [0, 1], current_max_pgn = 2, num_of_fifo_using_pgn = 2\<rparr>"

definition sample_ram :: memphy_struct where
  "sample_ram = \<lparr>storage = (\<lambda>a. if a < 256 then 5 else 6), maxsz = 512, rdmflg = 1, cursor = 0,
     free_fp_list = [], num_of_free_frame = 0, used_fp_list = [0, 1], num_of_used_frame = 0\<rparr>"

definition sample_swp :: memphy_struct where
  "sample_swp = \<lparr>storage = (\<lambda>_. 7), maxsz = 768, rdmflg = 1, cursor = 0,
     free_fp_list = [0, 1], num_of_free_frame = 2, used_fp_list = [], num_of_used_frame = 0\<rparr>"

definition sample_ctx :: vmctx where
  "sample_ctx = \<lparr>vmm = sample_mm, vram = sample_ram, vswp = sample_swp\<rparr>"

lemmas sample_defs = sample_ctx_def sample_mm_def sample_ram_def sample_swp_def

lemma int_interval_2: "{0..2} = {0, 1, 2::int}"
  by auto

lemma sample_sets:
  "mapped sample_ctx = {0, 1, 2}" "resident sample_ctx = {0, 1}" "swapped sample_ctx = {2}"
  "frames (vram sample_ctx) = {0, 1}" "frames (vswp sample_ctx) = {0, 1, 2}"
  "ram_frame sample_ctx 0 = 0" "ram_frame sample_ctx 1 = 1" "swp_frame sample_ctx 2 = 2"
proof -
  show m: "mapped sample_ctx = {0, 1, 2}"
    using int_interval_2 by (simp add: mapped_def sample_defs)
  show "resident sample_ctx = {0, 1}" "swapped sample_ctx = {2}"
    unfolding resident_def swapped_def m
    by (auto simp: pte_at_def sample_defs PAGING_PAGE_PRESENT_def PAGING_PTE_PRESENT_MASK_def BIT_def)
  show "frames (vram sample_ctx) = {0, 1}" "frames (vswp sample_ctx) = {0, 1, 2}"
    by (auto simp: frames_def sample_defs PAGING_PAGESZ_def)
  show "ram_frame sample_ctx 0 = 0" "ram_frame sample_ctx 1 = 1" "swp_frame sample_ctx 2 = 2"
    by (simp_all add: ram_frame_def swp_frame_def pte_at_def sample_defs PAGING_FPN_eq PAGING_SWAPFPN_eq)
qed

lemma sample_ok: "vm_ok {} {} sample_ctx" "ready sample_ctx"
proof -
  have pte: "pte_at sample_ctx p = 0 \<longleftrightarrow> p \<notin> {0, 1, 2}" if "0 \<le> p" for p
    using that by (auto simp: pte_at_def sample_defs nat_eq_iff2)
  have dev: "dev_ok (vram sample_ctx)" "dev_ok (vswp sample_ctx)"
    by (auto simp: dev_ok_def sample_sets) (simp_all add: sample_defs)
  show "vm_ok {} {} sample_ctx"
    unfolding vm_ok_def sample_sets using pte dev sample_sets(6,7,8)
    by (auto simp: sample_ctx_def sample_mm_def sample_swp_def sample_ram_def PAGING_MAX_PGN_def)
  show "ready sample_ctx" by (simp add: ready_def sample_defs)
qed

text \<open>
  C3: paging is a flat memory. When a page can be exchanged, any sequence of byte reads and
  writes returns exactly what a flat array over the mapped addresses would: an access
  succeeds if and only if its address is mapped, a read returns the byte last written
  there, however often the page went to swap and back in between; at the end the memory is
  that array, and no frame of another process has changed.
\<close>

theorem paging_is_flat_memory:
  assumes "vm_ok R S c" and "ready c" and "\<And>x. x \<in> set as \<Longrightarrow> in_bus (access_addr x)"
  defines "bs \<equiv> map (\<lambda>x. access_addr x \<in> vdom c) as"
  shows "\<exists>rs c'. run_accesses pg_getval pg_setval c as = Some (rs, c')
    \<and> map (\<lambda>r. fst r = 0) rs = bs \<and> map snd rs = flat_run (vread c) as bs
    \<and> vm_ok R S c' \<and> ready c' \<and> view_becomes R S c (flat_mem (vread c) as bs) c'"
proof -
  from vmem.run_flat [OF assms(1,3)] obtain rs c' cs where run:
    "run_accesses pg_getval pg_setval c as = Some (rs, c')" "vm_ok R S c'"
    "cs = map (\<lambda>r. fst r = 0) rs" "length rs = length as" "map snd rs = flat_run (vread c) as cs"
    "view_becomes R S c (flat_mem (vread c) as cs) c'"
    "ready c \<longrightarrow> ready c' \<and> (\<forall>i<length as. cs ! i \<longleftrightarrow> access_addr (as ! i) \<in> vdom c)" by blast
  have "cs = bs" using run(3,4,7) assms(2) by (auto simp: bs_def intro: nth_equalityI)
  with run assms(2) show ?thesis by blast
qed

theorem paging_is_flat_memory_witness:
  "\<exists>rs c'. run_accesses pg_getval pg_setval sample_ctx [Put 600 9, Put 10 4, Get 600, Get 300, Get 10, Get 900]
      = Some (rs, c')
    \<and> map snd rs = [None, None, Some 9, Some 6, Some 4, None] \<and> vm_ok {} {} c'"
proof -
  let ?as = "[Put 600 9, Put 10 4, Get 600, Get 300, Get 10, Get 900]"
  have m: "vdom sample_ctx = {0..<768}" by (simp add: vdom_def sample_defs PAGING_PAGESZ_def)
  have "vread sample_ctx 300 = 6"
    by (simp add: vread_def vbyte_def PAGING_PAGESZ_def sample_sets(7) frame_byte_def)
      (simp add: sample_defs pte_at_def PAGE_PRESENT_bit)
  then have "flat_run (vread sample_ctx) ?as (map (\<lambda>x. access_addr x \<in> vdom sample_ctx) ?as)
      = [None, None, Some 9, Some 6, Some 4, None]" by (simp add: m)
  moreover have "in_bus (access_addr x)" if "x \<in> set ?as" for x using that by (auto simp: in_bus_def)
  ultimately show ?thesis
    using paging_is_flat_memory [OF sample_ok, of ?as] by metis
qed

text \<open>
  C28: when no page can be exchanged an access may fail, but a failed access changes no
  byte: the values returned are the ones of a flat array on which the accesses with a
  nonzero status are skipped, and no access faults.
\<close>

theorem failed_access_is_skipped:
  assumes "vm_ok R S c" and "\<And>x. x \<in> set as \<Longrightarrow> in_bus (access_addr x)"
  shows "\<exists>rs c'. run_accesses pg_getval pg_setval c as = Some (rs, c')
    \<and> map snd rs = flat_run (vread c) as (map (\<lambda>r. fst r = 0) rs)
    \<and> vm_ok R S c' \<and> view_becomes R S c (flat_mem (vread c) as (map (\<lambda>r. fst r = 0) rs)) c'"
  using vmem.run_flat [OF assms] by blast

text \<open>The same process when swap has no free frame.\<close>

definition full_ctx :: vmctx where
  "full_ctx = sample_ctx\<lparr>vswp := sample_swp\<lparr>free_fp_list := [], num_of_free_frame := 0\<rparr>\<rparr>"

lemma full_sets:
  "mapped full_ctx = mapped sample_ctx" "resident full_ctx = resident sample_ctx"
  "swapped full_ctx = swapped sample_ctx" "pte_at full_ctx = pte_at sample_ctx"
  "ram_frame full_ctx = ram_frame sample_ctx" "swp_frame full_ctx = swp_frame sample_ctx"
  using page_sets_cong [of full_ctx sample_ctx] by (simp_all add: full_ctx_def)

lemma full_ok: "vm_ok {} {} full_ctx"
proof -
  have "frames (vswp full_ctx) = frames (vswp sample_ctx)"
    by (simp add: full_ctx_def sample_ctx_def)
  with sample_ok(1) show ?thesis
    unfolding vm_ok_def full_sets by (simp add: full_ctx_def sample_ctx_def sample_swp_def dev_ok_def)
qed

theorem failed_access_is_skipped_witness:
  "\<exists>rs c'. run_accesses pg_getval pg_setval full_ctx [Put 600 9, Get 10] = Some (rs, c')
    \<and> map snd rs = flat_run (vread full_ctx) [Put 600 9, Get 10] (map (\<lambda>r. fst r = 0) rs)
    \<and> vm_ok {} {} c'"
proof -
  have "in_bus (access_addr x)" if "x \<in> set [Put 600 9, Get 10]" for x
    using that by (auto simp: in_bus_def)
  then show ?thesis using failed_access_is_skipped [OF full_ok, of "[Put 600 9, Get 10]"] by blast
qed

text \<open>
  C17: a page fault exchanges two pages and nothing else. The page that was in RAM longest
  goes to a free swap frame, the wanted page takes its RAM frame and the end of the FIFO
  list, and the swap frame it came from is free again; every byte of the process and of
  the others is unchanged.
\<close>

theorem page_fault_exchanges:
  assumes "vm_ok R S c" and "fifo_using_pgn (vmm c) = v # rest"
    and "free_fp_list (vswp c) = sf # fl" and "pgn \<in> swapped c"
  shows "\<exists>c'. pg_getpage c pgn = Some (0, Some (ram_frame c v), c')
    \<and> resident c' = insert pgn (resident c - {v}) \<and> swapped c' = insert v (swapped c - {pgn})
    \<and> swp_frame c' v = sf \<and> fifo_using_pgn (vmm c') = rest @ [pgn]
    \<and> free_fp_list (vswp c') = swp_frame c pgn # fl \<and> vm_ok R S c' \<and> same_view R S c c'"
proof -
  from swap_in_exchange [OF assms] obtain c' where
    c': "swap_in c pgn (pte_at c pgn) = Some (0, c')" "exchanged c v rest pgn sf fl c'" by blast
  have v: "v \<in> resident c" using vm_ok_fifo_page [OF assms(1), of v] assms(2) by auto
  have sf: "sf \<in> frames (vswp c)" using free_frames_in(2) [OF assms(1)] assms(3) by simp
  note pages = exchanged_pages [OF assms(1) c'(2) v assms(4) sf]
  have pgn: "0 \<le> pgn" "pgn < PAGING_MAX_PGN" using mapped_page [OF assms(1) swapped_mapped [OF assms(4)]] by auto
  have "pte_at c pgn \<noteq> 0" using vm_ok_pte [OF assms(1) pgn] swapped_mapped [OF assms(4)] by simp
  then have "pg_getpage c pgn = Some (0, Some (ram_frame c' pgn), c')"
    using c'(1) arr_get_pte [OF pgn] swapped_not_present [OF assms(4)]
    by (simp add: pg_getpage_def ram_frame_def)
  moreover have "ram_frame c' pgn = ram_frame c v" "swp_frame c' v = sf"
    using pages(4) [of pgn] pages(5) [of v] v assms(4) resident_mapped swapped_mapped by auto
  ultimately show ?thesis
    using exchanged_vm_ok [OF assms c'(2)] exchanged_same_view [OF assms c'(2)] pages(2,3) c'(2)
    by (simp add: exchanged_def)
qed

theorem page_fault_exchanges_witness:
  "\<exists>c'. pg_getpage sample_ctx 2 = Some (0, Some 0, c') \<and> resident c' = {1, 2} \<and> swapped c' = {0}
    \<and> fifo_using_pgn (vmm c') = [1, 2] \<and> free_fp_list (vswp c') = [2, 1]"
proof -
  have "fifo_using_pgn (vmm sample_ctx) = [0, 1]" "free_fp_list (vswp sample_ctx) = [0, 1]"
      "2 \<in> swapped sample_ctx" by (simp_all add: sample_sets) (simp_all add: sample_defs)
  from page_fault_exchanges [OF sample_ok(1) this] show ?thesis
    unfolding sample_sets by auto
qed

text \<open>
  C34: a page fault that finds swap full takes the oldest page out of the FIFO list before
  it looks for a swap frame, and does not put it back: the access fails and that page
  stays in RAM but can never be chosen as a victim again.
\<close>

theorem swap_full_loses_victim:
  assumes "vm_ok R S c" and "fifo_using_pgn (vmm c) = v # rest"
    and "free_fp_list (vswp c) = []" and "pgn \<in> swapped c"
  shows "\<exists>c'. pg_getpage c pgn = Some (ERR_SWAPPING, None, c')
    \<and> fifo_using_pgn (vmm c') = rest \<and> v \<in> resident c' \<and> v \<notin> set (fifo_using_pgn (vmm c'))"
proof -
  have v: "v \<in> resident c" "v \<notin> set rest"
    using vm_ok_fifo_page [OF assms(1), of v] vm_ok_fifo(1) [OF assms(1)] assms(2) by auto
  have pgn: "0 \<le> pgn" "pgn < PAGING_MAX_PGN" using mapped_page [OF assms(1) swapped_mapped [OF assms(4)]] by auto
  have "pte_at c pgn \<noteq> 0" using vm_ok_pte [OF assms(1) pgn] swapped_mapped [OF assms(4)] by simp
  then have "pg_getpage c pgn = Some (ERR_SWAPPING, None, drop_victim c)"
    using swap_in_no_frame [OF assms(1-3)] arr_get_pte [OF pgn] swapped_not_present [OF assms(4)] assms(2)
    by (simp add: pg_getpage_def drop_victim_def)
  moreover have "resident (drop_victim c) = resident c"
    by (rule page_sets_cong) (simp_all add: drop_victim_def)
  ultimately show ?thesis using v assms(2) by (simp add: drop_victim_def)
qed

theorem swap_full_loses_victim_witness:
  "\<exists>c'. pg_getpage full_ctx 2 = Some (ERR_SWAPPING, None, c') \<and> fifo_using_pgn (vmm c') = [1]
    \<and> 0 \<in> resident c'"
proof -
  have "fifo_using_pgn (vmm full_ctx) = [0, 1]" "free_fp_list (vswp full_ctx) = []"
      "2 \<in> swapped full_ctx"
    by (simp_all add: full_sets sample_sets) (simp_all add: full_ctx_def sample_defs)
  from swap_full_loses_victim [OF full_ok this] show ?thesis by auto
qed


end
