(* ===== verification/Mm.thy ===== *)
theory Mm
  imports Flat_Memory
begin

text \<open>
  Mapping pages to frames, from \<open>src/mm.c\<close>: frames are collected from the free list and,
  when it is empty, from victim pages sent to swap; then they are entered in the page
  table. The main result: when the initial counts pass, the collection never fails half
  way, and the new pages read as zero.
\<close>

section \<open>Mapping\<close>

fun vmap_loop :: "mm_struct \<Rightarrow> int \<Rightarrow> int \<Rightarrow> int list \<Rightarrow> mm_struct option" where
  "vmap_loop m page_number_begin pgit [] = Some m"
| "vmap_loop m page_number_begin pgit (frame_number # roam) =
     do { pgd' \<leftarrow> arr_set PAGING_MAX_PGN (pgd m) (page_number_begin + pgit) (vmap_pte frame_number);
          vmap_loop (enlist_tail_pgn_node (m\<lparr>pgd := pgd'\<rparr>) (page_number_begin + pgit))
            page_number_begin (pgit + 1) roam }"

text \<open>The region that is returned starts and ends at the address until the caller sets it.\<close>

definition vmap_page_range ::
  "mm_struct \<Rightarrow> int \<Rightarrow> int \<Rightarrow> int list \<Rightarrow> (int \<times> (ulong \<times> ulong) option \<times> mm_struct) option" where
  "vmap_page_range m addr pgnum frms =
     do { m' \<leftarrow> vmap_loop m (uint (PAGING_PGN (u32_of_int addr))) 0 frms;
          Some (0, Some (ulong_of_int addr, ulong_of_int addr), m') }"

section \<open>Collecting frames\<close>

fun alloc_loop :: "nat \<Rightarrow> vmctx \<Rightarrow> int list \<Rightarrow> int \<Rightarrow> (int \<times> int list \<times> vmctx) option" where
  "alloc_loop 0 c frm_lst exception_page = Some (0, frm_lst, c)"
| "alloc_loop (Suc n) c frm_lst exception_page =
     (case MEMPHY_get_freefp (vram c) of (r, mram_fpn, ram1) \<Rightarrow>
        if r = 0 then
          do { fpn \<leftarrow> mram_fpn;
               alloc_loop n (c\<lparr>vram := ram1\<rparr>) (fpn # frm_lst) exception_page }
        else
          (case find_victim_page (vmm c) exception_page of (r1, vic, mm1) \<Rightarrow>
             if r1 \<noteq> 0 then Some (ERR_LACK_MEM_RAM, frm_lst, c\<lparr>vmm := mm1, vram := ram1\<rparr>)
             else
               do { vicpgn \<leftarrow> vic;
                    victim_pte \<leftarrow> arr_get PAGING_MAX_PGN (pgd mm1) vicpgn;
                    let victim_fpn = uint (PAGING_FPN victim_pte);
                    (case MEMPHY_get_freefp (vswp c) of (r2, sf, swp1) \<Rightarrow>
                       if r2 \<noteq> 0 then
                         Some (ERR_LACK_MEM_SWP, frm_lst, c\<lparr>vmm := mm1, vram := ram1, vswp := swp1\<rparr>)
                       else
                         do { swp_fpn \<leftarrow> sf;
                              (_, ram2, swp2) \<leftarrow> swap_cp_page ram1 victim_fpn swp1 swp_fpn;
                              (_, ram3) \<leftarrow> MEMPHY_clean_frame ram2 victim_fpn;
                              old \<leftarrow> arr_get PAGING_MAX_PGN (pgd mm1) vicpgn;
                              pgd1 \<leftarrow> arr_set PAGING_MAX_PGN (pgd mm1) vicpgn
                                        (pte_set_swap old SWPTYP swp_fpn);
                              alloc_loop n (c\<lparr>vmm := mm1\<lparr>pgd := pgd1\<rparr>, vram := ram3, vswp := swp2\<rparr>)
                                (victim_fpn # frm_lst) exception_page }) }))"

definition alloc_pages_range :: "vmctx \<Rightarrow> int \<Rightarrow> int \<Rightarrow> (int \<times> int list \<times> vmctx) option" where
  "alloc_pages_range c req_pgnum exception_page =
     (let ram_free_fpn_count = MEMPHY_count_free_frame (vram c);
          victim_count = count_available_victim (vmm c) exception_page;
          swp_free_fpn_count = MEMPHY_count_free_frame (vswp c);
          swap_frame_count = req_pgnum - ram_free_fpn_count
      in if req_pgnum > ram_free_fpn_count \<and> swap_frame_count > victim_count
         then Some (ERR_LACK_MEM_RAM, [], c)
         else if req_pgnum > ram_free_fpn_count \<and> swap_frame_count > swp_free_fpn_count
         then Some (ERR_LACK_MEM_SWP, [], c)
         else do { (r, frm_lst, c') \<leftarrow> alloc_loop (nat req_pgnum) c [] exception_page;
                   Some (if r < 0 then r else req_pgnum, frm_lst, c') })"

definition vm_map_ram ::
  "vmctx \<Rightarrow> int \<Rightarrow> int \<Rightarrow> int \<Rightarrow> int \<Rightarrow> (int \<times> (ulong \<times> ulong) option \<times> vmctx) option" where
  "vm_map_ram c astart aend mapstart increase_page_number =
     (let pgn = uint (PAGING_PGN (u32_of_int astart)) in
      do { (bring_to_ram_status, c1) \<leftarrow> bring_to_ram c pgn;
           if bring_to_ram_status \<noteq> 0 then Some (bring_to_ram_status, None, c1)
           else
             do { (num, frm_lst, c2) \<leftarrow> alloc_pages_range c1 increase_page_number pgn;
                  if num < 0 then Some (num, None, c2)
                  else
                    do { (_, _, mm') \<leftarrow> vmap_page_range (vmm c2) mapstart num frm_lst;
                         let ram' = snd (MEMPHY_concat_usedfp (vram c2) frm_lst);
                         Some (0, Some (ulong_of_int astart, ulong_of_int aend),
                               c2\<lparr>vmm := mm', vram := ram'\<rparr>) } } })"

section \<open>Regions and the empty memory of a new process\<close>

text \<open>
  \<open>init_mm\<close> sets the fields of a zeroed \<open>mm_struct\<close>. The area itself comes from
  \<open>malloc\<close>: its free list is never initialised, and the first region is linked in front
  of what the field contained, which is the parameter \<open>junk\<close>.
\<close>

definition init_vm_rg :: "int \<Rightarrow> int \<Rightarrow> vm_rg_struct" where
  "init_vm_rg start end' = \<lparr>rg_start = ulong_of_int start, rg_end = ulong_of_int end', valid = 0\<rparr>"

definition enlist_vm_rg_node :: "vm_rg_struct list \<Rightarrow> vm_rg_struct \<Rightarrow> int \<times> vm_rg_struct list" where
  "enlist_vm_rg_node rglist rgnode = (0, rgnode # rglist)"

definition init_mm :: "vm_rg_struct list \<Rightarrow> mm_struct \<Rightarrow> int \<times> mm_struct" where
  "init_mm junk m =
     (let vma = \<lparr>vm_id = 1, vm_start = 0, vm_end = 0, sbrk = 0, vm_freerg_list = junk\<rparr>;
          first_rg = init_vm_rg (int_of_ulong (vm_start vma)) (int_of_ulong (vm_end vma));
          vma1 = vma\<lparr>vm_freerg_list := snd (enlist_vm_rg_node (vm_freerg_list vma) first_rg)\<rparr>
      in (0, m\<lparr>pgd := (\<lambda>_. 0), mmap := [vma1], fifo_using_pgn := [], num_of_fifo_using_pgn := 0,
               current_max_pgn := -1\<rparr>))"

section \<open>What the dump functions print\<close>

datatype out_line =
    NullList string
  | Title string
  | FpLine int
  | RgLine ulong ulong
  | VmaLine ulong ulong
  | PgnLine int
  | Plain string
  | PgtblRange u32 u32
  | PteLine int u32

definition print_list_fp :: "int list \<Rightarrow> int \<times> out_line list" where
  "print_list_fp ifp = (if ifp = [] then (-1, [NullList ''print_list_fp: ''])
     else (0, [Title ''print_list_fp: ''] @ map FpLine ifp @ [Plain []]))"

definition print_list_rg :: "vm_rg_struct list \<Rightarrow> int \<times> out_line list" where
  "print_list_rg irg = (if irg = [] then (-1, [NullList ''print_list_rg: ''])
     else (0, [Title ''print_list_rg: ''] @ map (\<lambda>rg. RgLine (rg_start rg) (rg_end rg)) irg @ [Plain []]))"

definition print_list_vma :: "vm_area_struct list \<Rightarrow> int \<times> out_line list" where
  "print_list_vma ivma = (if ivma = [] then (-1, [NullList ''print_list_vma: ''])
     else (0, [Title ''print_list_vma: ''] @ map (\<lambda>vma. VmaLine (vm_start vma) (vm_end vma)) ivma @ [Plain []]))"

definition print_list_pgn :: "int list \<Rightarrow> int \<times> out_line list" where
  "print_list_pgn ip = (if ip = [] then (-1, [NullList ''print_list_pgn: ''])
     else (0, [Title ''print_list_pgn: ''] @ map PgnLine ip @ [Plain ''n'']))"

section \<open>One frame taken\<close>

text \<open>
  A frame that leaves the free list, or the page of a victim, belongs to nobody the
  process knows of until it is mapped: it joins the frames \<open>R\<close> that are left alone.
\<close>

lemma take_free_frame:
  assumes ok: "vm_ok R S c" and free: "free_fp_list (vram c) = f # fl"
  defines "c' \<equiv> c\<lparr>vram := (vram c)\<lparr>free_fp_list := fl, num_of_free_frame := num_of_free_frame (vram c) - 1\<rparr>\<rparr>"
  shows "vm_ok (insert f R) S c'" and "same_view R S c c'" and "resident c' = resident c"
    and "f \<in> frames (vram c)" and "f \<notin> R"
    and "\<And>i. 0 \<le> i \<Longrightarrow> i < 256 \<Longrightarrow> frame_byte (vram c') f i = 0"
proof -
  have eqs: "vmm c' = vmm c" "vswp c' = vswp c" "frame_byte (vram c') = frame_byte (vram c)"
      "frames (vram c') = frames (vram c)" "free_fp_list (vram c') = fl"
    by (simp_all add: c'_def)
  have sets: "mapped c' = mapped c" "resident c' = resident c" "swapped c' = swapped c"
      "pte_at c' = pte_at c" "ram_frame c' = ram_frame c" "swp_frame c' = swp_frame c"
    using page_sets_cong [of c' c] eqs(1) by simp_all
  have f: "f \<in> frames (vram c)" "f \<notin> R" "f \<notin> set fl" "f \<notin> ram_frame c ` resident c"
    using free_frames_in(1) [OF ok] vm_ok_free(1) [OF ok] vm_ok_ram [OF ok] vm_ok_ram_used(2) [OF ok] free
    by (auto simp: dev_ok_def)
  have dev: "dev_ok (vram c')" using vm_ok_ram [OF ok] free by (auto simp: dev_ok_def c'_def)
  show "vm_ok (insert f R) S c'"
    using ok f dev free unfolding vm_ok_def sets eqs by auto
  have "vbyte c' = vbyte c"
    by (simp add: vbyte_def fun_eq_iff sets eqs)
  then show "same_view R S c c'" by (simp add: same_view_def eqs)
  show "resident c' = resident c" "f \<in> frames (vram c)" "f \<notin> R" by (fact sets f)+
  show "frame_byte (vram c') f i = 0" if "0 \<le> i" "i < 256" for i
    using vm_ok_zero [OF ok] free that by (simp add: eqs)
qed

text \<open>The victim when one page is excepted.\<close>

lemma find_victim_except:
  assumes "distinct (fifo_using_pgn m)" and "filter (\<lambda>p. p \<noteq> e) (fifo_using_pgn m) \<noteq> []"
  obtains v where "v \<in> set (fifo_using_pgn m)" "v \<noteq> e"
    "find_victim_page m e = (0, Some v, m\<lparr>fifo_using_pgn := remove1 v (fifo_using_pgn m),
       num_of_fifo_using_pgn := num_of_fifo_using_pgn m - 1\<rparr>)"
proof -
  obtain a rest where fifo: "fifo_using_pgn m = a # rest" using assms(2) by (cases "fifo_using_pgn m") auto
  show ?thesis
  proof (cases "a = e")
    case False
    with fifo that [of a] show ?thesis by (simp add: find_victim_page_def)
  next
    case True
    with assms fifo obtain b rest2 where "rest = b # rest2" "b \<noteq> e" by (cases rest) auto
    with True fifo that [of b] show ?thesis by (simp add: find_victim_page_def)
  qed
qed

definition evicted :: "vmctx \<Rightarrow> int \<Rightarrow> int \<Rightarrow> int list \<Rightarrow> vmctx \<Rightarrow> bool" where
  "evicted c v sf fl c' \<longleftrightarrow>
     pgd (vmm c') = (pgd (vmm c))(nat v := pte_set_swap (pte_at c v) SWPTYP sf)
     \<and> fifo_using_pgn (vmm c') = remove1 v (fifo_using_pgn (vmm c))
     \<and> num_of_fifo_using_pgn (vmm c') = num_of_fifo_using_pgn (vmm c) - 1
     \<and> current_max_pgn (vmm c') = current_max_pgn (vmm c)
     \<and> mmap (vmm c') = mmap (vmm c) \<and> symrgtbl (vmm c') = symrgtbl (vmm c)
     \<and> dev_ok (vram c') \<and> frames (vram c') = frames (vram c) \<and> free_fp_list (vram c') = free_fp_list (vram c)
     \<and> (\<forall>f i. 0 \<le> f \<longrightarrow> 0 \<le> i \<longrightarrow> i < 256 \<longrightarrow> frame_byte (vram c') f i =
          (if f = ram_frame c v then 0 else frame_byte (vram c) f i))
     \<and> vswp c' = (copied (vram c) (ram_frame c v) (vswp c) sf 0 256)
                   \<lparr>free_fp_list := fl, num_of_free_frame := num_of_free_frame (vswp c) - 1\<rparr>"

lemma evicted_pages:
  assumes ok: "vm_ok R S c" and ev: "evicted c v sf fl c'" and v: "v \<in> resident c"
    and sf: "sf \<in> frames (vswp c)"
  shows "mapped c' = mapped c" and "resident c' = resident c - {v}" and "swapped c' = insert v (swapped c)"
    and "\<And>p. p \<in> mapped c \<Longrightarrow> pte_at c' p = (if p = v then pte_set_swap (pte_at c v) SWPTYP sf else pte_at c p)"
    and "swp_frame c' v = sf"
proof -
  have ranges: "0 \<le> v" "\<And>p. p \<in> mapped c \<Longrightarrow> 0 \<le> p"
    using mapped_page [OF ok] resident_mapped [OF v] by auto
  have pte: "pte_at c' p = (if p = v then pte_set_swap (pte_at c v) SWPTYP sf else pte_at c p)" if "0 \<le> p" for p
    using ev ranges(1) that by (auto simp: evicted_def pte_at_def)
  show m: "mapped c' = mapped c" using ev by (simp add: mapped_def evicted_def)
  show "resident c' = resident c - {v}" "swapped c' = insert v (swapped c)"
    using ranges m pte resident_mapped [OF v] by (auto simp: resident_def swapped_def split: if_splits)
  show "pte_at c' p = (if p = v then pte_set_swap (pte_at c v) SWPTYP sf else pte_at c p)" if "p \<in> mapped c" for p
    using pte ranges(2) [OF that] by simp
  show "swp_frame c' v = sf"
    using pte [of v] ranges(1) sf vm_ok_swp_frames [OF ok] by (auto simp: swp_frame_def)
qed

text \<open>The frames of the other pages and the bytes of the devices after the eviction.\<close>

lemma evicted_frames:
  assumes ok: "vm_ok R S c" and ev: "evicted c v sf fl c'" and v: "v \<in> resident c" and sf: "sf \<in> frames (vswp c)"
  shows "\<And>p. p \<in> resident c - {v} \<Longrightarrow> ram_frame c' p = ram_frame c p \<and> pte_at c' p = pte_at c p"
    and "\<And>p. p \<in> swapped c \<Longrightarrow> swp_frame c' p = swp_frame c p \<and> pte_at c' p = pte_at c p \<and> p \<noteq> v"
    and "\<And>f i. 0 \<le> f \<Longrightarrow> 0 \<le> i \<Longrightarrow> i < 256 \<Longrightarrow>
      frame_byte (vram c') f i = (if f = ram_frame c v then 0 else frame_byte (vram c) f i)"
    and "\<And>f i. 0 \<le> f \<Longrightarrow> 0 \<le> i \<Longrightarrow> i < 256 \<Longrightarrow>
      frame_byte (vswp c') f i = (if f = sf then frame_byte (vram c) (ram_frame c v) i else frame_byte (vswp c) f i)"
proof -
  note pages = evicted_pages [OF ok ev v sf]
  show "ram_frame c' p = ram_frame c p \<and> pte_at c' p = pte_at c p" if "p \<in> resident c - {v}" for p
    using pages(4) [of p] that resident_mapped by (auto simp: ram_frame_def)
  show "swp_frame c' p = swp_frame c p \<and> pte_at c' p = pte_at c p \<and> p \<noteq> v" if "p \<in> swapped c" for p
    using pages(4) [of p] that swapped_mapped v resident_or_swapped(2) [of c] by (auto simp: swp_frame_def)
  show "frame_byte (vram c') f i = (if f = ram_frame c v then 0 else frame_byte (vram c) f i)"
    if "0 \<le> f" "0 \<le> i" "i < 256" for f i using ev that by (simp add: evicted_def)
  show "frame_byte (vswp c') f i = (if f = sf then frame_byte (vram c) (ram_frame c v) i else frame_byte (vswp c) f i)"
    if "0 \<le> f" "0 \<le> i" "i < 256" for f i
    using ev that frames_pos [OF sf] by (simp add: evicted_def frame_byte_copied)
qed

lemma evicted_vm_ok:
  assumes ok: "vm_ok R S c" and ev: "evicted c v sf fl c'" and v: "v \<in> set (fifo_using_pgn (vmm c))"
    and free: "free_fp_list (vswp c) = sf # fl"
  shows "vm_ok (insert (ram_frame c v) R) S c'"
proof (rule vm_okI)
  have res: "v \<in> resident c" "0 \<le> v" using vm_ok_fifo_page [OF ok v] by auto
  note sf = swp_head_free [OF ok free] and vf = resident_frame_used [OF ok res(1)]
  note pages = evicted_pages [OF ok ev res(1) sf(1)] and kept = evicted_frames [OF ok ev res(1) sf(1)]
  have swp_img: "swp_frame c' ` swapped c' = insert sf (swp_frame c ` swapped c)"
    using kept(2) pages(5) by (simp add: pages(3))
  have ram_img: "ram_frame c' ` resident c' = ram_frame c ` (resident c - {v})"
    using kept(1) by (simp add: pages(2))
  have swp: "frames (vswp c') = frames (vswp c)" "free_fp_list (vswp c') = fl"
    using ev by (simp_all add: evicted_def)
  have ram: "dev_ok (vram c')" "frames (vram c') = frames (vram c)" "free_fp_list (vram c') = free_fp_list (vram c)"
    using ev by (simp_all add: evicted_def)
  have mm: "current_max_pgn (vmm c') = current_max_pgn (vmm c)"
      "fifo_using_pgn (vmm c') = remove1 v (fifo_using_pgn (vmm c))"
      "num_of_fifo_using_pgn (vmm c') = num_of_fifo_using_pgn (vmm c) - 1"
    using ev by (simp_all add: evicted_def)
  show "dev_ok (vram c')" by (rule ram)
  show "frames (vram c') \<subseteq> {0..<1024}" "frames (vswp c') \<subseteq> {0..<2097152}"
    using ram(2) swp(1) vm_ok_ram_frames [OF ok] vm_ok_swp_frames [OF ok] by auto
  show "dev_ok (vswp c')"
    using ev vm_ok_swp [OF ok] free by (auto simp: evicted_def dev_ok_def frames_def copied_def)
  show "-1 \<le> current_max_pgn (vmm c')" "current_max_pgn (vmm c') < PAGING_MAX_PGN"
    using mm(1) vm_ok_max [OF ok] by auto
  show "pte_at c' p = 0 \<longleftrightarrow> p \<notin> mapped c'" if "0 \<le> p" "p < PAGING_MAX_PGN" for p
  proof (cases "p \<in> mapped c")
    case True
    then show ?thesis using pages(1,4) vm_ok_pte [OF ok that] by simp
  next
    case False
    then have "p \<noteq> v" using resident_mapped [OF res(1)] by auto
    then have "nat p \<noteq> nat v" using that(1) res(2) by auto
    then have "pte_at c' p = pte_at c p" using ev by (simp add: evicted_def pte_at_def)
    with False vm_ok_pte [OF ok that] pages(1) show ?thesis by simp
  qed
  show "distinct (fifo_using_pgn (vmm c'))" "set (fifo_using_pgn (vmm c')) \<subseteq> resident c'"
    using vm_ok_fifo(1,2) [OF ok] by (auto simp: mm pages(2) distinct_remove1 set_remove1_eq)
  have "0 < length (fifo_using_pgn (vmm c))" using v by (cases "fifo_using_pgn (vmm c)") auto
  then show "num_of_fifo_using_pgn (vmm c') = int (length (fifo_using_pgn (vmm c')))"
    using vm_ok_fifo(3) [OF ok] v by (simp add: mm length_remove1 of_nat_diff Suc_leI)
  show "inj_on (ram_frame c') (resident c')"
    using vm_ok_inj(1) [OF ok] kept(1) by (auto simp: pages(2) inj_on_def)
  show "inj_on (swp_frame c') (swapped c')"
    using inj_on_extend [OF vm_ok_inj(2) [OF ok], of "swp_frame c'" v] kept(2) pages(5) sf(4) by (simp add: pages(3))
  show "ram_frame c' ` resident c' \<subseteq> frames (vram c')"
    using vm_ok_ram_used(1) [OF ok] ram(2) unfolding ram_img by auto
  have "ram_frame c v \<notin> ram_frame c ` (resident c - {v})"
    using vm_ok_inj(1) [OF ok] res(1) by (auto simp: inj_on_def)
  then show "ram_frame c' ` resident c' \<inter> (set (free_fp_list (vram c')) \<union> insert (ram_frame c v) R) = {}"
    using vm_ok_ram_used(2) [OF ok] ram(3) unfolding ram_img by auto
  have "set fl \<subseteq> set (free_fp_list (vswp c))" using free by auto
  then show "swp_frame c' ` swapped c' \<subseteq> frames (vswp c')"
    "swp_frame c' ` swapped c' \<inter> (set (free_fp_list (vswp c')) \<union> S) = {}"
    using vm_ok_swp_used [OF ok] sf unfolding swp_img swp by auto
  show "set (free_fp_list (vram c')) \<inter> insert (ram_frame c v) R = {}"
    "set (free_fp_list (vswp c')) \<inter> S = {}"
    using vm_ok_free [OF ok] vf(3) free by (auto simp: ram swp)
  show "frame_byte (vram c') f i = 0" if "f \<in> set (free_fp_list (vram c'))" "0 \<le> i" "i < 256" for f i
    using vm_ok_zero [OF ok] kept(3) [of f i] that ram(3) free_frames_in(1) [OF ok] frames_pos by auto
qed

lemma evicted_same_view:
  assumes ok: "vm_ok R S c" and ev: "evicted c v sf fl c'" and v: "v \<in> set (fifo_using_pgn (vmm c))"
    and free: "free_fp_list (vswp c) = sf # fl"
  shows "same_view R S c c'"
proof -
  have res: "v \<in> resident c" "0 \<le> v" using vm_ok_fifo_page [OF ok v] by auto
  note sf = swp_head_free [OF ok free] and vf = resident_frame_used [OF ok res(1)]
  note pages = evicted_pages [OF ok ev res(1) sf(1)] and kept = evicted_frames [OF ok ev res(1) sf(1)]
  have "vbyte c' p i = vbyte c p i" if p: "p \<in> mapped c" "0 \<le> i" "i < 256" for p i
  proof (cases "p \<in> resident c")
    case False
    then have s: "p \<in> swapped c" using p(1) resident_or_swapped(1) [of c] by auto
    then have "swp_frame c p \<noteq> sf" using sf(4) by auto
    with s show ?thesis
      using kept(4) [OF frames_pos [OF swp_frame_in [OF ok s]] p(2,3)] kept(2) [OF s] swapped_not_present [OF s]
      by (simp add: vbyte_def)
  next
    case True
    show ?thesis
    proof (cases "p = v")
      case True
      then show ?thesis
        using pages(4) [OF resident_mapped [OF res(1)]] pages(5) resident_present [OF res(1)]
          kept(4) [OF frames_pos [OF sf(1)] p(2,3)] by (simp add: vbyte_def)
    next
      case False
      then have "ram_frame c p \<noteq> ram_frame c v"
        using vm_ok_inj(1) [OF ok] True res(1) by (auto simp: inj_on_def)
      then show ?thesis
        using False True kept(1) [of p] resident_present [OF True]
          kept(3) [OF frames_pos [OF ram_frame_in [OF ok True]] p(2,3)] by (simp add: vbyte_def)
    qed
  qed
  then show "same_view R S c c'"
    using ev kept(3,4) vf(2) sf(2) frames_pos unfolding same_view_def PAGING_PAGESZ_def
    by (auto simp: evicted_def)
qed

lemmas evicted_ok = evicted_vm_ok evicted_same_view


section \<open>The collection never fails half way\<close>

definition victims :: "vmctx \<Rightarrow> int \<Rightarrow> int" where
  "victims c e = int (length (filter (\<lambda>p. p \<noteq> e) (fifo_using_pgn (vmm c))))"

lemma count_available_victims:
  assumes ok: "vm_ok R S c"
  shows "count_available_victim (vmm c) e \<le> victims c e"
proof (cases "e \<in> set (fifo_using_pgn (vmm c))")
  case True
  have d: "distinct (fifo_using_pgn (vmm c))" using vm_ok_fifo(1) [OF ok] .
  have "remove1 e (fifo_using_pgn (vmm c)) = filter (\<lambda>p. p \<noteq> e) (fifo_using_pgn (vmm c))"
    using distinct_remove1_removeAll [OF d] by (simp add: removeAll_filter_not_eq neq_commute)
  moreover have "0 < length (fifo_using_pgn (vmm c))" using True by (cases "fifo_using_pgn (vmm c)") auto
  moreover have "length (remove1 e (fifo_using_pgn (vmm c))) = length (fifo_using_pgn (vmm c)) - 1"
    using True by (simp add: length_remove1)
  moreover have "0 \<le> e" "e \<le> current_max_pgn (vmm c)"
    using vm_ok_fifo_page [OF ok True] resident_mapped by (auto simp: mapped_def)
  ultimately show ?thesis
    using vm_ok_fifo(3) [OF ok] by (simp add: victims_def count_available_victim_def)
next
  case False
  then have "filter (\<lambda>p. p \<noteq> e) (fifo_using_pgn (vmm c)) = fifo_using_pgn (vmm c)"
    by (auto simp: filter_id_conv)
  then show ?thesis
    using vm_ok_fifo(3) [OF ok] by (simp add: victims_def count_available_victim_def)
qed

text \<open>The frame of a victim: what the copy, the cleaning and the new entry give.\<close>

lemma evict_parts:
  assumes ok: "vm_ok R S c" and v: "v \<in> set (fifo_using_pgn (vmm c))" and swp: "free_fp_list (vswp c) = sf # fl"
  obtains ram3 swp2 c' where
    "swap_cp_page (vram c) (ram_frame c v) ((vswp c)\<lparr>free_fp_list := fl, num_of_free_frame := num_of_free_frame (vswp c) - 1\<rparr>) sf
      = Some (0, vram c, swp2)"
    "MEMPHY_clean_frame (vram c) (ram_frame c v) = Some (0, ram3)"
    "c' = c\<lparr>vmm := (vmm c)\<lparr>fifo_using_pgn := remove1 v (fifo_using_pgn (vmm c)),
        num_of_fifo_using_pgn := num_of_fifo_using_pgn (vmm c) - 1,
        pgd := (pgd (vmm c))(nat v := pte_set_swap (pte_at c v) SWPTYP sf)\<rparr>, vram := ram3, vswp := swp2\<rparr>"
    "vm_ok (insert (ram_frame c v) R) S c'" "same_view R S c c'"
    "ram_frame c v \<in> frames (vram c)" "ram_frame c v \<notin> R"
    "\<And>i. 0 \<le> i \<Longrightarrow> i < 256 \<Longrightarrow> frame_byte (vram c') (ram_frame c v) i = 0"
    "\<And>e. e \<in> resident c \<Longrightarrow> e \<noteq> v \<Longrightarrow> e \<in> resident c'"
    "free_fp_list (vram c') = free_fp_list (vram c)" "free_fp_list (vswp c') = fl"
proof -
  have res: "v \<in> resident c" "0 \<le> v" "v < PAGING_MAX_PGN" using vm_ok_fifo_page [OF ok v] by auto
  let ?vf = "ram_frame c v"
  let ?swp1 = "(vswp c)\<lparr>free_fp_list := fl, num_of_free_frame := num_of_free_frame (vswp c) - 1\<rparr>"
  let ?ram3 = "(vram c)\<lparr>storage := (\<lambda>a. if ?vf * 256 \<le> int a \<and> int a < ?vf * 256 + 256 then 0
      else storage (vram c) a)\<rparr>"
  let ?c = "c\<lparr>vmm := (vmm c)\<lparr>fifo_using_pgn := remove1 v (fifo_using_pgn (vmm c)),
       num_of_fifo_using_pgn := num_of_fifo_using_pgn (vmm c) - 1,
       pgd := (pgd (vmm c))(nat v := pte_set_swap (pte_at c v) SWPTYP sf)\<rparr>,
     vram := ?ram3, vswp := copied (vram c) ?vf ?swp1 sf 0 256\<rparr>"
  have vf: "?vf \<in> frames (vram c)" "?vf \<notin> R"
    using ram_frame_in [OF ok res(1)] vm_ok_ram_used(2) [OF ok] res(1) by auto
  have sf: "sf \<in> frames (vswp c)" using free_frames_in(2) [OF ok] swp by simp
  have swp1: "dev_ok ?swp1" "frames ?swp1 = frames (vswp c)"
    using vm_ok_swp [OF ok] swp by (auto simp: dev_ok_def frames_def)
  have copy: "swap_cp_page (vram c) ?vf ?swp1 sf = Some (0, vram c, copied (vram c) ?vf ?swp1 sf 0 256)"
    using vm_ok_ram [OF ok] swp1 vf sf by (intro swap_cp_page_eq) auto
  have clean: "MEMPHY_clean_frame (vram c) ?vf = Some (0, ?ram3)"
    using frame_address [OF vf(1), of 0] frame_address [OF vf(1), of 255]
    by (simp add: MEMPHY_clean_frame_def PAGING_PAGESZ_def Let_def)
  have clean_byte: "frame_byte ?ram3 f i = (if f = ?vf then 0 else frame_byte (vram c) f i)"
    if "0 \<le> f" "0 \<le> i" "i < 256" for f i
  proof -
    have "?vf * 256 \<le> f * 256 + i \<and> f * 256 + i < ?vf * 256 + 256 \<longleftrightarrow> f = ?vf" using that by auto
    then show ?thesis using that by (simp add: frame_byte_def PAGING_PAGESZ_def)
  qed
  have ev: "evicted c v sf fl ?c"
    unfolding evicted_def using clean_byte vm_ok_ram [OF ok]
    by (simp add: copied_free)
  have "frame_byte (vram ?c) ?vf i = 0" if "0 \<le> i" "i < 256" for i
    using clean_byte [of ?vf i] vf(1) that by (simp add: frames_def)
  moreover have "e \<in> resident ?c" if "e \<in> resident c" "e \<noteq> v" for e
    using evicted_pages(2) [OF ok ev res(1) sf] that by simp
  ultimately show ?thesis
    using that [OF copy clean refl evicted_ok(1,2) [OF ok ev v swp] vf] by simp
qed

text \<open>One round of the loop: a free frame, or the frame of a victim.\<close>

lemma alloc_step:
  assumes ok: "vm_ok R S c"
    and enough: "free_fp_list (vram c) = [] \<longrightarrow> 1 \<le> victims c e \<and> free_fp_list (vswp c) \<noteq> []"
  obtains f c' where "\<And>n frm. alloc_loop (Suc n) c frm e = alloc_loop n c' (f # frm) e"
    "vm_ok (insert f R) S c'" "same_view R S c c'" "f \<in> frames (vram c)" "f \<notin> R"
    "\<And>i. 0 \<le> i \<Longrightarrow> i < 256 \<Longrightarrow> frame_byte (vram c') f i = 0"
    "e \<in> resident c \<Longrightarrow> e \<in> resident c'"
    "length (free_fp_list (vram c')) = length (free_fp_list (vram c)) - 1"
    "victims c' e = (if free_fp_list (vram c) = [] then victims c e - 1 else victims c e)"
    "length (free_fp_list (vswp c')) =
       (if free_fp_list (vram c) = [] then length (free_fp_list (vswp c)) - 1 else length (free_fp_list (vswp c)))"
proof (cases "free_fp_list (vram c)")
  case (Cons f fl)
  let ?c = "c\<lparr>vram := (vram c)\<lparr>free_fp_list := fl, num_of_free_frame := num_of_free_frame (vram c) - 1\<rparr>\<rparr>"
  have "alloc_loop (Suc n) c frm e = alloc_loop n ?c (f # frm) e" for n frm
    using Cons by (simp add: MEMPHY_get_freefp_def)
  moreover note take_free_frame [OF ok Cons]
  ultimately show ?thesis using that [of ?c f] Cons by (simp add: victims_def)
next
  case Nil
  have enough': "filter (\<lambda>p. p \<noteq> e) (fifo_using_pgn (vmm c)) \<noteq> []" using enough Nil by (auto simp: victims_def)
  obtain sf fl where swp: "free_fp_list (vswp c) = sf # fl"
    using enough Nil by (cases "free_fp_list (vswp c)") auto
  obtain v where v: "v \<in> set (fifo_using_pgn (vmm c))" "v \<noteq> e"
      "find_victim_page (vmm c) e = (0, Some v, (vmm c)\<lparr>fifo_using_pgn := remove1 v (fifo_using_pgn (vmm c)),
       num_of_fifo_using_pgn := num_of_fifo_using_pgn (vmm c) - 1\<rparr>)"
    using find_victim_except [OF vm_ok_fifo(1) [OF ok] enough'] .
  have res: "v \<in> resident c" "0 \<le> v" "v < PAGING_MAX_PGN" using vm_ok_fifo_page [OF ok v(1)] by auto
  obtain ram3 swp2 c' where
    parts: "swap_cp_page (vram c) (ram_frame c v) ((vswp c)\<lparr>free_fp_list := fl, num_of_free_frame := num_of_free_frame (vswp c) - 1\<rparr>) sf
      = Some (0, vram c, swp2)" "MEMPHY_clean_frame (vram c) (ram_frame c v) = Some (0, ram3)"
    and c': "c' = c\<lparr>vmm := (vmm c)\<lparr>fifo_using_pgn := remove1 v (fifo_using_pgn (vmm c)),
        num_of_fifo_using_pgn := num_of_fifo_using_pgn (vmm c) - 1,
        pgd := (pgd (vmm c))(nat v := pte_set_swap (pte_at c v) SWPTYP sf)\<rparr>, vram := ram3, vswp := swp2\<rparr>"
    and ev: "vm_ok (insert (ram_frame c v) R) S c'" "same_view R S c c'" "ram_frame c v \<in> frames (vram c)" "ram_frame c v \<notin> R"
      "\<And>i. 0 \<le> i \<Longrightarrow> i < 256 \<Longrightarrow> frame_byte (vram c') (ram_frame c v) i = 0" "\<And>e. e \<in> resident c \<Longrightarrow> e \<noteq> v \<Longrightarrow> e \<in> resident c'"
      "free_fp_list (vram c') = free_fp_list (vram c)" "free_fp_list (vswp c') = fl"
    by (rule evict_parts [OF ok v(1) swp]) (rule that)
  have vf_eq: "uint (PAGING_FPN (pgd (vmm c) (nat v))) = ram_frame c v"
    by (simp add: ram_frame_def pte_at_def)
  have step: "alloc_loop (Suc n) c frm e = alloc_loop n c' (ram_frame c v # frm) e" for n frm
    using v(3) res Nil swp parts
    by (simp add: Let_def MEMPHY_get_freefp_def arr_simps vf_eq pte_at_def c')
  have "victims c' e = victims c e - 1"
  proof -
    have "filter (\<lambda>p. p \<noteq> e) (remove1 v (fifo_using_pgn (vmm c))) = remove1 v (filter (\<lambda>p. p \<noteq> e) (fifo_using_pgn (vmm c)))"
      using v(2) by (simp add: filter_remove1)
    moreover have "v \<in> set (filter (\<lambda>p. p \<noteq> e) (fifo_using_pgn (vmm c)))" using v by simp
    moreover from this have "0 < length (filter (\<lambda>p. p \<noteq> e) (fifo_using_pgn (vmm c)))" by (rule length_pos_if_in_set)
    ultimately show ?thesis by (simp add: c' victims_def length_remove1 of_nat_diff Suc_leI)
  qed
  then show ?thesis
    using that [OF step ev(1-5)] ev(6-8) v(2) Nil swp by simp
qed


lemma alloc_loop_ok:
  "\<lbrakk>vm_ok R S c;
    int n \<le> int (length (free_fp_list (vram c))) + min (victims c e) (int (length (free_fp_list (vswp c))))\<rbrakk> \<Longrightarrow>
   \<exists>new c'. alloc_loop n c frm e = Some (0, new @ frm, c') \<and> vm_ok (R \<union> set new) S c'
     \<and> same_view R S c c' \<and> length new = n \<and> distinct new \<and> set new \<subseteq> frames (vram c) - R
     \<and> (\<forall>f\<in>set new. \<forall>i\<in>{0..<256}. frame_byte (vram c') f i = 0)
     \<and> (e \<in> resident c \<longrightarrow> e \<in> resident c')"
proof (induction n arbitrary: c R frm)
  case 0
  then show ?case by simp
next
  case (Suc n)
  have need: "free_fp_list (vram c) = [] \<longrightarrow> 1 \<le> victims c e \<and> free_fp_list (vswp c) \<noteq> []"
    using Suc.prems(2) by auto
  obtain f c1 where
    c1: "\<And>n frm. alloc_loop (Suc n) c frm e = alloc_loop n c1 (f # frm) e"
    "vm_ok (insert f R) S c1" "same_view R S c c1" "f \<in> frames (vram c)" "f \<notin> R"
    "\<And>i. 0 \<le> i \<Longrightarrow> i < 256 \<Longrightarrow> frame_byte (vram c1) f i = 0"
    "e \<in> resident c \<Longrightarrow> e \<in> resident c1"
    "length (free_fp_list (vram c1)) = length (free_fp_list (vram c)) - 1"
    "victims c1 e = (if free_fp_list (vram c) = [] then victims c e - 1 else victims c e)"
    "length (free_fp_list (vswp c1)) =
       (if free_fp_list (vram c) = [] then length (free_fp_list (vswp c)) - 1 else length (free_fp_list (vswp c)))"
    by (rule alloc_step [OF Suc.prems(1) need]) (rule that)
  have "int n \<le> int (length (free_fp_list (vram c1))) + min (victims c1 e) (int (length (free_fp_list (vswp c1))))"
  proof (cases "free_fp_list (vram c)")
    case Nil
    with need have "free_fp_list (vswp c) \<noteq> []" by simp
    then have "0 < length (free_fp_list (vswp c))" by simp
    with Nil c1(8-10) Suc.prems(2) show ?thesis by simp
  next
    case (Cons a as)
    with c1(8-10) Suc.prems(2) show ?thesis by simp
  qed
  from Suc.IH [OF c1(2) this, of "f # frm"] obtain new c2 where
    c2: "alloc_loop n c1 (f # frm) e = Some (0, new @ f # frm, c2)" "vm_ok (insert f R \<union> set new) S c2"
    "same_view (insert f R) S c1 c2" "length new = n" "distinct new" "set new \<subseteq> frames (vram c1) - insert f R"
    "\<forall>f\<in>set new. \<forall>i\<in>{0..<256}. frame_byte (vram c2) f i = 0" "e \<in> resident c1 \<longrightarrow> e \<in> resident c2" by blast
  have fr: "frames (vram c1) = frames (vram c)" using c1(3) by (simp add: same_view_def)
  have "frame_byte (vram c2) f i = 0" if "0 \<le> i" "i < 256" for i
    using c2(3) c1(4) c1(6) [OF that] that fr by (simp add: same_view_def PAGING_PAGESZ_def)
  moreover have "same_view R S c c2"
    using same_view_trans [OF c1(3) same_view_mono [OF c2(3)]] by blast
  ultimately show ?case
    using c1 c2 fr by (intro exI [of _ "new @ [f]"] exI [of _ c2]) (auto simp: Un_insert_right)
qed

lemma vm_ok_counts:
  assumes "vm_ok R S c"
  shows "MEMPHY_count_free_frame (vram c) = int (length (free_fp_list (vram c)))"
    and "MEMPHY_count_free_frame (vswp c) = int (length (free_fp_list (vswp c)))"
  using vm_ok_ram [OF assms] vm_ok_swp [OF assms] by (simp_all add: MEMPHY_count_free_frame_def dev_ok_def)

text \<open>\<open>alloc_pages_range\<close> is all or nothing.\<close>

lemma alloc_pages_range_spec:
  assumes ok: "vm_ok R S c" and req: "0 \<le> req"
  obtains (failed) r where "alloc_pages_range c req e = Some (r, [], c)"
      "r = ERR_LACK_MEM_RAM \<or> r = ERR_LACK_MEM_SWP"
  | (collected) frm c' where "alloc_pages_range c req e = Some (req, frm, c')"
      "vm_ok (R \<union> set frm) S c'" "same_view R S c c'" "int (length frm) = req" "distinct frm"
      "set frm \<subseteq> frames (vram c) - R"
      "\<And>f i. f \<in> set frm \<Longrightarrow> 0 \<le> i \<Longrightarrow> i < 256 \<Longrightarrow> frame_byte (vram c') f i = 0"
      "e \<in> resident c \<Longrightarrow> e \<in> resident c'"
proof -
  let ?ram = "int (length (free_fp_list (vram c)))" and ?swp = "int (length (free_fp_list (vswp c)))"
  let ?vic = "count_available_victim (vmm c) e"
  note counts = vm_ok_counts [OF ok]
  show ?thesis
  proof (cases "req > ?ram \<and> (req - ?ram > ?vic \<or> req - ?ram > ?swp)")
    case True
    then have "alloc_pages_range c req e
        = Some (if req - ?ram > ?vic then ERR_LACK_MEM_RAM else ERR_LACK_MEM_SWP, [], c)"
      by (auto simp: alloc_pages_range_def Let_def counts)
    with failed show ?thesis by simp
  next
    case False
    have "?vic \<le> victims c e" "0 \<le> victims c e" using count_available_victims [OF ok] by (auto simp: victims_def)
    with False req have "int (nat req) \<le> ?ram + min (victims c e) ?swp" by auto
    from alloc_loop_ok [OF ok this, of "[]"] obtain new c' where c': "alloc_loop (nat req) c [] e = Some (0, new, c')"
      "vm_ok (R \<union> set new) S c'" "same_view R S c c'" "length new = nat req" "distinct new"
      "set new \<subseteq> frames (vram c) - R" "\<forall>f\<in>set new. \<forall>i\<in>{0..<256}. frame_byte (vram c') f i = 0"
      "e \<in> resident c \<longrightarrow> e \<in> resident c'" by auto
    have "alloc_pages_range c req e = Some (req, new, c')"
      using False c'(1) by (auto simp: alloc_pages_range_def Let_def counts)
    with c' req collected [of new c'] show ?thesis by auto
  qed
qed

section \<open>Entering the frames in the page table\<close>

text \<open>Mapping one frame at the first unmapped page.\<close>

lemma map_one:
  assumes ok: "vm_ok (insert f R) S c" and f: "f \<in> frames (vram c)" "f \<notin> R"
    and p: "p = current_max_pgn (vmm c) + 1" "p < PAGING_MAX_PGN"
  defines "c' \<equiv> c\<lparr>vmm := enlist_tail_pgn_node ((vmm c)\<lparr>pgd := (pgd (vmm c))(nat p := vmap_pte f)\<rparr>) p\<rparr>"
  shows "vm_ok R S c'" and "current_max_pgn (vmm c') = p"
    and "\<And>q. q \<in> mapped c \<Longrightarrow> vbyte c' q = vbyte c q" and "vbyte c' p = frame_byte (vram c) f"
    and "resident c' = insert p (resident c)"
proof -
  have p0: "0 \<le> p" using vm_ok_max [OF ok] p by simp
  have f': "0 \<le> f" "f < 1024" using f(1) vm_ok_ram_frames [OF ok] by auto
  have p_new: "p \<notin> mapped c" using p by (simp add: mapped_def)
  have eqs: "vram c' = vram c" "vswp c' = vswp c" "current_max_pgn (vmm c') = p"
      "fifo_using_pgn (vmm c') = fifo_using_pgn (vmm c) @ [p]"
      "num_of_fifo_using_pgn (vmm c') = num_of_fifo_using_pgn (vmm c) + 1"
    using p by (simp_all add: c'_def enlist_tail_pgn_node_def)
  have pte: "pte_at c' q = (if q = p then vmap_pte f else pte_at c q)" if "0 \<le> q" for q
    using that p0 by (auto simp: pte_at_def c'_def enlist_tail_pgn_node_def)
  have m: "mapped c' = insert p (mapped c)" using p vm_ok_max [OF ok] by (auto simp: mapped_def eqs)
  have m0: "0 \<le> q" "q \<noteq> p" if "q \<in> mapped c" for q using mapped_page [OF ok that] p_new that by auto
  have present: "PAGING_PAGE_PRESENT (vmap_pte f)" using f' by simp
  have pf: "ram_frame c' p = f" using pte [OF p0] f' by (simp add: ram_frame_def)
  have old: "pte_at c' q = pte_at c q" "ram_frame c' q = ram_frame c q" "swp_frame c' q = swp_frame c q"
    if "q \<in> mapped c" for q using pte m0 [OF that] by (simp_all add: ram_frame_def swp_frame_def)
  show res: "resident c' = insert p (resident c)"
    using pte [OF p0] present old(1) by (auto simp: resident_def m)
  have swp: "swapped c' = swapped c"
    using pte [OF p0] present old(1) by (auto simp: swapped_def m)
  have ram_img: "ram_frame c' ` resident c' = insert f (ram_frame c ` resident c)"
    using old(2) resident_mapped by (auto simp: res pf)
  have swp_img: "swp_frame c' ` swapped c' = swp_frame c ` swapped c"
    using old(3) swapped_mapped by (auto simp: swp)
  have f_unused: "f \<notin> ram_frame c ` resident c" "f \<notin> set (free_fp_list (vram c))"
    using vm_ok_ram_used(2) [OF ok] vm_ok_free(1) [OF ok] by auto
  show "vm_ok R S c'"
  proof (rule vm_okI)
    show "dev_ok (vram c')" "dev_ok (vswp c')" "frames (vram c') \<subseteq> {0..<1024}"
      "frames (vswp c') \<subseteq> {0..<2097152}"
      using vm_ok_ram [OF ok] vm_ok_swp [OF ok] vm_ok_ram_frames [OF ok] vm_ok_swp_frames [OF ok]
      by (simp_all add: eqs)
    show "-1 \<le> current_max_pgn (vmm c')" "current_max_pgn (vmm c') < PAGING_MAX_PGN"
      using p0 p(2) by (simp_all add: eqs)
    show "pte_at c' q = 0 \<longleftrightarrow> q \<notin> mapped c'" if "0 \<le> q" "q < PAGING_MAX_PGN" for q
      using pte [OF that(1)] vm_ok_pte [OF ok that] f' by (simp add: m)
    show "distinct (fifo_using_pgn (vmm c'))" "set (fifo_using_pgn (vmm c')) \<subseteq> resident c'"
      using vm_ok_fifo(1,2) [OF ok] p_new resident_mapped by (auto simp: eqs res)
    show "num_of_fifo_using_pgn (vmm c') = int (length (fifo_using_pgn (vmm c')))"
      using vm_ok_fifo(3) [OF ok] by (simp add: eqs)
    have "inj_on (ram_frame c') (resident c) = inj_on (ram_frame c) (resident c)"
      by (rule inj_on_cong) (use old(2) resident_mapped in blast)
    moreover have "ram_frame c' ` (resident c - {p}) \<subseteq> ram_frame c ` resident c"
      using old(2) resident_mapped by auto
    ultimately show "inj_on (ram_frame c') (resident c')"
      using vm_ok_inj(1) [OF ok] f_unused(1) pf by (auto simp: res inj_on_insert)
    have "inj_on (swp_frame c') (swapped c) = inj_on (swp_frame c) (swapped c)"
      by (rule inj_on_cong) (use old(3) swapped_mapped in blast)
    then show "inj_on (swp_frame c') (swapped c')" using vm_ok_inj(2) [OF ok] by (simp add: swp)
    show "ram_frame c' ` resident c' \<subseteq> frames (vram c')"
      "ram_frame c' ` resident c' \<inter> (set (free_fp_list (vram c')) \<union> R) = {}"
      using vm_ok_ram_used [OF ok] f f_unused(2) unfolding ram_img eqs by auto
    show "swp_frame c' ` swapped c' \<subseteq> frames (vswp c')"
      "swp_frame c' ` swapped c' \<inter> (set (free_fp_list (vswp c')) \<union> S) = {}"
      using vm_ok_swp_used [OF ok] unfolding swp_img eqs by auto
    show "set (free_fp_list (vram c')) \<inter> R = {}" "set (free_fp_list (vswp c')) \<inter> S = {}"
      using vm_ok_free [OF ok] by (auto simp: eqs)
    show "frame_byte (vram c') g i = 0" if "g \<in> set (free_fp_list (vram c'))" "0 \<le> i" "i < 256" for g i
      using vm_ok_zero [OF ok] that by (simp add: eqs)
  qed
  show "current_max_pgn (vmm c') = p" by (rule eqs)
  show "vbyte c' q = vbyte c q" if "q \<in> mapped c" for q
    using old [OF that] by (simp add: vbyte_def fun_eq_iff eqs)
  show "vbyte c' p = frame_byte (vram c) f"
    using pte [OF p0] present pf by (simp add: vbyte_def fun_eq_iff eqs)
qed


lemma vmap_loop_ok:
  "\<lbrakk>vm_ok (set frm \<union> R) S c; distinct frm; set frm \<subseteq> frames (vram c) - R;
    b + k = current_max_pgn (vmm c) + 1; current_max_pgn (vmm c) + int (length frm) < PAGING_MAX_PGN\<rbrakk> \<Longrightarrow>
   \<exists>m'. vmap_loop (vmm c) b k frm = Some m' \<and> vm_ok R S (c\<lparr>vmm := m'\<rparr>)
     \<and> current_max_pgn m' = current_max_pgn (vmm c) + int (length frm)
     \<and> mmap m' = mmap (vmm c) \<and> symrgtbl m' = symrgtbl (vmm c)
     \<and> (\<forall>q\<in>mapped c. vbyte (c\<lparr>vmm := m'\<rparr>) q = vbyte c q)
     \<and> (\<forall>j<length frm. vbyte (c\<lparr>vmm := m'\<rparr>) (current_max_pgn (vmm c) + 1 + int j)
          = frame_byte (vram c) (frm ! j))"
proof (induction frm arbitrary: c k)
  case Nil
  then show ?case by simp
next
  case (Cons f frm)
  define p where "p = current_max_pgn (vmm c) + 1"
  define m1 where "m1 = enlist_tail_pgn_node ((vmm c)\<lparr>pgd := (pgd (vmm c))(nat p := vmap_pte f)\<rparr>) p"
  let ?c1 = "c\<lparr>vmm := m1\<rparr>"
  have ok: "vm_ok (insert f (set frm \<union> R)) S c" using Cons.prems(1) by simp
  have p: "p < PAGING_MAX_PGN" "0 \<le> p" "b + k = p"
    using Cons.prems(4,5) vm_ok_max [OF ok] by (simp_all add: p_def)
  have f: "f \<in> frames (vram c)" "f \<notin> set frm \<union> R" using Cons.prems(2,3) by auto
  note one = map_one [OF ok f p_def p(1), folded m1_def]
  have m1: "mmap m1 = mmap (vmm c)" "symrgtbl m1 = symrgtbl (vmm c)"
    by (simp_all add: m1_def enlist_tail_pgn_node_def)
  have max1: "current_max_pgn m1 = p" using one(2) by simp
  have step: "vmap_loop (vmm c) b k (f # frm) = vmap_loop (vmm ?c1) b (k + 1) frm"
    using p by (simp add: arr_simps m1_def)
  have "\<exists>m'. vmap_loop (vmm ?c1) b (k + 1) frm = Some m' \<and> vm_ok R S (?c1\<lparr>vmm := m'\<rparr>)
     \<and> current_max_pgn m' = current_max_pgn (vmm ?c1) + int (length frm)
     \<and> mmap m' = mmap (vmm ?c1) \<and> symrgtbl m' = symrgtbl (vmm ?c1)
     \<and> (\<forall>q\<in>mapped ?c1. vbyte (?c1\<lparr>vmm := m'\<rparr>) q = vbyte ?c1 q)
     \<and> (\<forall>j<length frm. vbyte (?c1\<lparr>vmm := m'\<rparr>) (current_max_pgn (vmm ?c1) + 1 + int j)
          = frame_byte (vram ?c1) (frm ! j))"
  proof (rule Cons.IH)
    show "vm_ok (set frm \<union> R) S ?c1" by (rule one(1))
    show "distinct frm" "set frm \<subseteq> frames (vram ?c1) - R" using Cons.prems(2,3) by auto
    show "b + (k + 1) = current_max_pgn (vmm ?c1) + 1" using p(3) by (simp add: max1)
    show "current_max_pgn (vmm ?c1) + int (length frm) < PAGING_MAX_PGN"
      using Cons.prems(5) by (simp add: max1 p_def)
  qed
  then obtain m' where m': "vmap_loop (vmm ?c1) b (k + 1) frm = Some m'" "vm_ok R S (c\<lparr>vmm := m'\<rparr>)"
     "current_max_pgn m' = p + int (length frm)" "mmap m' = mmap (vmm c)" "symrgtbl m' = symrgtbl (vmm c)"
     "\<forall>q\<in>mapped ?c1. vbyte (c\<lparr>vmm := m'\<rparr>) q = vbyte ?c1 q"
     "\<forall>j<length frm. vbyte (c\<lparr>vmm := m'\<rparr>) (p + 1 + int j) = frame_byte (vram c) (frm ! j)"
    by (auto simp: max1 m1)
  have pm: "p \<in> mapped ?c1" "q \<in> mapped c \<Longrightarrow> q \<in> mapped ?c1" for q
    using p(2) by (auto simp: mapped_def max1 p_def)
  have new: "vbyte (c\<lparr>vmm := m'\<rparr>) (p + int j) = frame_byte (vram c) ((f # frm) ! j)"
    if "j < length (f # frm)" for j
  proof (cases j)
    case 0
    then show ?thesis using m'(6) pm(1) one(4) by simp
  next
    case (Suc i)
    then have "i < length frm" using that by simp
    with m'(7) have "vbyte (c\<lparr>vmm := m'\<rparr>) (p + 1 + int i) = frame_byte (vram c) (frm ! i)" by blast
    then show ?thesis by (simp add: Suc algebra_simps)
  qed
  show ?case
  proof (intro exI conjI)
    show "vmap_loop (vmm c) b k (f # frm) = Some m'" using step m'(1) by simp
    show "\<forall>q\<in>mapped c. vbyte (c\<lparr>vmm := m'\<rparr>) q = vbyte c q" using m'(6) pm(2) one(3) by auto
    show "\<forall>j<length (f # frm). vbyte (c\<lparr>vmm := m'\<rparr>) (current_max_pgn (vmm c) + 1 + int j)
          = frame_byte (vram c) ((f # frm) ! j)" using new by (simp add: p_def)
  qed (use m' in \<open>auto simp: p_def\<close>)
qed

section \<open>Growing the memory of a process\<close>

text \<open>The memory after growing by \<open>n\<close> pages: the old bytes, and zeros.\<close>

definition view_grows :: "int set \<Rightarrow> int set \<Rightarrow> vmctx \<Rightarrow> int \<Rightarrow> vmctx \<Rightarrow> bool" where
  "view_grows R S c n c' \<longleftrightarrow>
     mmap (vmm c') = mmap (vmm c) \<and> symrgtbl (vmm c') = symrgtbl (vmm c)
     \<and> current_max_pgn (vmm c') = current_max_pgn (vmm c) + n
     \<and> frames (vram c') = frames (vram c) \<and> frames (vswp c') = frames (vswp c)
     \<and> (\<forall>a\<in>vdom c'. vread c' a = (if a \<in> vdom c then vread c a else 0))
     \<and> (\<forall>g\<in>R. g \<in> frames (vram c) \<longrightarrow> (\<forall>i\<in>{0..<PAGING_PAGESZ}. frame_byte (vram c') g i = frame_byte (vram c) g i))
     \<and> (\<forall>g\<in>S. g \<in> frames (vswp c) \<longrightarrow> (\<forall>i\<in>{0..<PAGING_PAGESZ}. frame_byte (vswp c') g i = frame_byte (vswp c) g i))"

lemma vm_ok_used:
  "vm_ok R S (c\<lparr>vram := (vram c)\<lparr>used_fp_list := u\<rparr>\<rparr>) = vm_ok R S c"
proof -
  let ?c = "c\<lparr>vram := (vram c)\<lparr>used_fp_list := u\<rparr>\<rparr>"
  note sets = page_sets_cong [of ?c c]
  show ?thesis
    unfolding vm_ok_def using sets
    by (simp add: dev_ok_def frames_def frame_byte_def)
qed

lemma concat_usedfp_ram:
  "\<exists>u. snd (MEMPHY_concat_usedfp mp frm) = mp\<lparr>used_fp_list := u\<rparr>"
proof (cases "frm = []")
  case True
  then show ?thesis by (intro exI [of _ "used_fp_list mp"]) (simp add: MEMPHY_concat_usedfp_def)
qed (auto simp: MEMPHY_concat_usedfp_def)

text \<open>Mapping the collected frames behind the last page gives the old bytes and zeros.\<close>

lemma mapped_grows:
  assumes view: "same_view R S c c2" and max: "-1 \<le> current_max_pgn (vmm c)" and frm: "int (length frm) = inc"
    and zero: "\<And>f i. f \<in> set frm \<Longrightarrow> 0 \<le> i \<Longrightarrow> i < 256 \<Longrightarrow> frame_byte (vram c2) f i = 0"
    and m': "current_max_pgn m' = current_max_pgn (vmm c2) + int (length frm)"
      "mmap m' = mmap (vmm c2)" "symrgtbl m' = symrgtbl (vmm c2)"
      "\<forall>q\<in>mapped c2. vbyte (c2\<lparr>vmm := m'\<rparr>) q = vbyte c2 q"
      "\<forall>j<length frm. vbyte (c2\<lparr>vmm := m'\<rparr>) (current_max_pgn (vmm c2) + 1 + int j) = frame_byte (vram c2) (frm ! j)"
  shows "view_grows R S c inc (c2\<lparr>vmm := m', vram := (vram c2)\<lparr>used_fp_list := u\<rparr>\<rparr>)" (is "view_grows R S c inc ?c3")
proof -
  have max2: "current_max_pgn (vmm c2) = current_max_pgn (vmm c)" using view by (simp add: same_view_def)
  have v3: "vbyte ?c3 = vbyte (c2\<lparr>vmm := m'\<rparr>)"
    by (simp add: vbyte_def fun_eq_iff frame_byte_def pte_at_def ram_frame_def swp_frame_def)
  have max3: "current_max_pgn m' = current_max_pgn (vmm c) + inc" using m'(1) max2 frm by simp
  have bytes: "vread ?c3 a = (if a \<in> vdom c then vread c a else 0)" if a: "a \<in> vdom ?c3" for a
  proof (cases "a \<in> vdom c")
    case True
    then have "a div 256 \<in> mapped c2" by (simp add: vdom_page mapped_def max2)
    then have "vread ?c3 a = vread c2 a" using m'(4) by (simp add: vread_def v3 PAGING_PAGESZ_def)
    also have "\<dots> = vread c a" using view True by (simp add: same_view_becomes view_becomes_def)
    finally show ?thesis using True by simp
  next
    case False
    let ?j = "nat (a div 256 - (current_max_pgn (vmm c2) + 1))"
    have q: "0 \<le> a div 256" "a div 256 \<le> current_max_pgn (vmm c) + inc" "\<not> a div 256 \<le> current_max_pgn (vmm c)"
      using a False by (auto simp: vdom_page mapped_def max3)
    then have j: "?j < length frm" "current_max_pgn (vmm c2) + 1 + int ?j = a div 256"
      using frm max2 by auto
    then have "vbyte ?c3 (a div 256) = frame_byte (vram c2) (frm ! ?j)" using m'(5) v3 by metis
    moreover have "frm ! ?j \<in> set frm" using j(1) by simp
    ultimately show ?thesis using zero [of "frm ! ?j" "a mod 256"] False by (simp add: vread_def PAGING_PAGESZ_def)
  qed
  then show ?thesis
    using view m'(2,3) max3 max by (simp add: view_grows_def same_view_def frames_def frame_byte_def)
qed

lemma vm_map_ram_spec:
  assumes ok: "vm_ok R S c" and a: "0 \<le> astart" "astart < 2 ^ 22"
    and inc: "1 \<le> inc" "current_max_pgn (vmm c) + inc < PAGING_MAX_PGN"
    and mapstart: "mapstart = PAGING_PAGESZ * (current_max_pgn (vmm c) + 1)"
  obtains (failed) r c' where "vm_map_ram c astart aend mapstart inc = Some (r, None, c')"
      "r = ERR_LACK_MEM_RAM \<or> r = ERR_LACK_MEM_SWP" "vm_ok R S c'" "view_becomes R S c (vread c) c'"
  | (grown) c' where "vm_map_ram c astart aend mapstart inc =
        Some (0, Some (ulong_of_int astart, ulong_of_int aend), c')"
      "vm_ok R S c'" "view_grows R S c inc c'"
proof -
  let ?pgn = "astart div 256"
  have pgn: "uint (PAGING_PGN (u32_of_int astart)) = ?pgn" "0 \<le> ?pgn" "?pgn < PAGING_MAX_PGN"
    using a by (simp_all add: uint_PGN_of_int PAGING_MAX_PGN_def)
  have neg: "ERR_LACK_MEM_RAM < 0" "ERR_LACK_MEM_SWP < 0" by (simp_all add: err_defs)
  from ok pgn(2,3) show ?thesis
  proof (cases rule: bring_to_ram_spec)
    case (failed r c')
    with neg have "vm_map_ram c astart aend mapstart inc = Some (r, None, c')"
      by (auto simp: vm_map_ram_def Let_def pgn(1))
    with failed that(1) show ?thesis by (simp add: same_view_becomes)
  next
    case (done_ok c1)
    have max1: "current_max_pgn (vmm c1) = current_max_pgn (vmm c)" using done_ok(3) by (simp add: same_view_def)
    have inc0: "0 \<le> inc" using inc(1) by simp
    from done_ok(2) inc0 show ?thesis
    proof (cases rule: alloc_pages_range_spec [where e = ?pgn])
      case (failed r)
      with neg done_ok(1) have "vm_map_ram c astart aend mapstart inc = Some (r, None, c1)"
        by (auto simp: vm_map_ram_def Let_def pgn(1))
      with failed done_ok that(1) show ?thesis by (simp add: same_view_becomes)
    next
      case (collected frm c2)
      have max2: "current_max_pgn (vmm c2) = current_max_pgn (vmm c)"
        using collected(3) max1 by (simp add: same_view_def)
      have fr: "frames (vram c2) = frames (vram c1)" using collected(3) by (simp add: same_view_def)
      have max_ok: "-1 \<le> current_max_pgn (vmm c)" using vm_ok_max [OF ok] by simp
      then have mp: "uint (PAGING_PGN (u32_of_int mapstart)) = current_max_pgn (vmm c2) + 1"
        using inc by (simp add: mapstart max2 uint_PGN_of_int PAGING_PAGESZ_def PAGING_MAX_PGN_def)
      have ok2: "vm_ok (set frm \<union> R) S c2" using collected(2) by (simp add: Un_commute)
      from vmap_loop_ok [OF ok2 collected(5), of "current_max_pgn (vmm c2) + 1" 0] obtain m' where
        m': "vmap_loop (vmm c2) (current_max_pgn (vmm c2) + 1) 0 frm = Some m'" "vm_ok R S (c2\<lparr>vmm := m'\<rparr>)"
         "current_max_pgn m' = current_max_pgn (vmm c2) + int (length frm)"
         "mmap m' = mmap (vmm c2)" "symrgtbl m' = symrgtbl (vmm c2)"
         "\<forall>q\<in>mapped c2. vbyte (c2\<lparr>vmm := m'\<rparr>) q = vbyte c2 q"
         "\<forall>j<length frm. vbyte (c2\<lparr>vmm := m'\<rparr>) (current_max_pgn (vmm c2) + 1 + int j)
            = frame_byte (vram c2) (frm ! j)"
        using collected(4,6) fr inc(2) max2 by auto
      obtain u where u: "snd (MEMPHY_concat_usedfp (vram c2) frm) = (vram c2)\<lparr>used_fp_list := u\<rparr>"
        using concat_usedfp_ram by blast
      let ?c3 = "c2\<lparr>vmm := m', vram := (vram c2)\<lparr>used_fp_list := u\<rparr>\<rparr>"
      have run: "vm_map_ram c astart aend mapstart inc = Some (0, Some (ulong_of_int astart, ulong_of_int aend), ?c3)"
        using done_ok(1) collected(1) m'(1) inc(1) u
        by (simp add: vm_map_ram_def Let_def pgn(1) vmap_page_range_def mp)
      have "vm_ok R S ?c3" using m'(2) vm_ok_used [where c = "c2\<lparr>vmm := m'\<rparr>" and R = R and S = S and u = u] by simp
      moreover have "view_grows R S c inc ?c3"
        by (rule mapped_grows [OF same_view_trans [OF done_ok(3) collected(3)] max_ok collected(4) _ m'(3-7)])
          (rule collected(7))
      ultimately show ?thesis using run that(2) by blast
    qed
  qed
qed


section \<open>Properties\<close>

text \<open>
  C15: collecting frames is all or nothing. When the free frames, or the free frames
  together with the victims and the swap frames to receive them, are enough, exactly the
  requested number of frames is returned: all different, none of them anybody else's, all
  zero, and the bytes of every process are unchanged. Otherwise the error says whether RAM
  or swap is short and nothing has changed at all.
\<close>

theorem alloc_pages_all_or_nothing:
  assumes "vm_ok R S c" and "0 \<le> req"
  defines "short \<equiv> req - MEMPHY_count_free_frame (vram c)"
  shows "if 0 < short \<and> count_available_victim (vmm c) e < short
    then alloc_pages_range c req e = Some (ERR_LACK_MEM_RAM, [], c)
    else if 0 < short \<and> MEMPHY_count_free_frame (vswp c) < short
    then alloc_pages_range c req e = Some (ERR_LACK_MEM_SWP, [], c)
    else \<exists>frm c'. alloc_pages_range c req e = Some (req, frm, c') \<and> int (length frm) = req
      \<and> distinct frm \<and> set frm \<subseteq> frames (vram c) - R \<and> vm_ok (R \<union> set frm) S c' \<and> same_view R S c c'
      \<and> (\<forall>f\<in>set frm. \<forall>i\<in>{0..<PAGING_PAGESZ}. frame_byte (vram c') f i = 0)"
proof (cases "0 < short \<and> (count_available_victim (vmm c) e < short \<or> MEMPHY_count_free_frame (vswp c) < short)")
  case True
  then show ?thesis by (auto simp: alloc_pages_range_def Let_def short_def)
next
  case False
  from assms(1,2) show ?thesis
  proof (cases rule: alloc_pages_range_spec [where e = e])
    case (failed r)
    have "req \<noteq> r" using failed(2) assms(2) by (auto simp: err_defs)
    moreover have "alloc_pages_range c req e = do { (r, frm, c') \<leftarrow> alloc_loop (nat req) c [] e;
        Some (if r < 0 then r else req, frm, c') }"
      using False by (auto simp: alloc_pages_range_def Let_def short_def)
    moreover have "int (nat req) \<le> int (length (free_fp_list (vram c)))
        + min (victims c e) (int (length (free_fp_list (vswp c))))"
    proof -
      have "count_available_victim (vmm c) e \<le> victims c e" "0 \<le> victims c e"
        using count_available_victims [OF assms(1)] by (auto simp: victims_def)
      with False assms(2) show ?thesis using vm_ok_counts [OF assms(1)] by (auto simp: short_def)
    qed
    ultimately show ?thesis using alloc_loop_ok [OF assms(1), of "nat req" e "[]"] failed(1) by auto
  next
    case (collected frm c')
    then have "\<exists>frm c'. alloc_pages_range c req e = Some (req, frm, c') \<and> int (length frm) = req
      \<and> distinct frm \<and> set frm \<subseteq> frames (vram c) - R \<and> vm_ok (R \<union> set frm) S c' \<and> same_view R S c c'
      \<and> (\<forall>f\<in>set frm. \<forall>i\<in>{0..<PAGING_PAGESZ}. frame_byte (vram c') f i = 0)"
      by (intro exI [of _ frm] exI [of _ c']) (auto simp: PAGING_PAGESZ_def)
    with False show ?thesis by auto
  qed
qed

theorem alloc_pages_all_or_nothing_witness:
  "\<exists>frm c'. alloc_pages_range sample_ctx 1 0 = Some (1, frm, c') \<and> length frm = 1
     \<and> vm_ok (set frm) {} c' \<and> alloc_pages_range sample_ctx 3 0 = Some (ERR_LACK_MEM_RAM, [], sample_ctx)"
proof -
  have "MEMPHY_count_free_frame (vram sample_ctx) = 0" "MEMPHY_count_free_frame (vswp sample_ctx) = 2"
      "count_available_victim (vmm sample_ctx) 0 = 1"
    by (simp_all add: MEMPHY_count_free_frame_def count_available_victim_def sample_defs)
  then show ?thesis
    using alloc_pages_all_or_nothing [OF sample_ok(1), of 1 0]
      alloc_pages_all_or_nothing [OF sample_ok(1), of 3 0] by auto
qed

text \<open>
  C16: growing the memory of a process either fails with the reason, leaving every byte as
  it was, or adds exactly the requested pages after the last one: the old bytes are kept
  wherever their pages have gone, the new pages read as zero (a frame that comes from
  another process or from a victim page shows nothing of it), and no frame of another
  process has changed.
\<close>

theorem vm_map_ram_grows_with_zeros:
  assumes "vm_ok R S c" and "0 \<le> astart" and "astart < 2 ^ 22" and "1 \<le> inc"
    and "current_max_pgn (vmm c) + inc < PAGING_MAX_PGN"
  shows "\<exists>r rg c'. vm_map_ram c astart aend (PAGING_PAGESZ * (current_max_pgn (vmm c) + 1)) inc = Some (r, rg, c')
    \<and> vm_ok R S c'
    \<and> (if r = 0 then view_grows R S c inc c'
       else (r = ERR_LACK_MEM_RAM \<or> r = ERR_LACK_MEM_SWP) \<and> view_becomes R S c (vread c) c')"
  using assms(1-5) refl
proof (cases rule: vm_map_ram_spec [where aend = aend])
  case (failed r c')
  then have "r \<noteq> 0" by (auto simp: err_defs)
  with failed show ?thesis by auto
next
  case (grown c')
  then show ?thesis by auto
qed

theorem vm_map_ram_grows_with_zeros_witness:
  "\<exists>r rg c'. vm_map_ram sample_ctx 700 1000 768 1 = Some (r, rg, c') \<and> vm_ok {} {} c'"
proof -
  have "current_max_pgn (vmm sample_ctx) = 2" by (simp add: sample_defs)
  then show ?thesis
    using vm_map_ram_grows_with_zeros [OF sample_ok(1), of 700 1 1000]
    by (auto simp: PAGING_PAGESZ_def PAGING_MAX_PGN_def)
qed

text \<open>
  A new process starts with an empty, well-formed memory: no page is mapped, and the
  invariant holds for any well-formed devices whose free frames are zero. Its area is
  \<open>[0, 0)\<close>, and its free region list is one empty region in front of whatever the
  uninitialised field of the fresh area contained.
\<close>

theorem init_mm_ok:
  assumes "dev_ok ram" and "frames ram \<subseteq> {0..<1024}" and "dev_ok swp" and "frames swp \<subseteq> {0..<2097152}"
    and "set (free_fp_list ram) \<inter> R = {}" and "set (free_fp_list swp) \<inter> S = {}"
    and "\<And>f i. f \<in> set (free_fp_list ram) \<Longrightarrow> 0 \<le> i \<Longrightarrow> i < 256 \<Longrightarrow> frame_byte ram f i = 0"
  shows "\<exists>m'. init_mm junk m = (0, m') \<and> vm_ok R S \<lparr>vmm = m', vram = ram, vswp = swp\<rparr>
    \<and> vdom \<lparr>vmm = m', vram = ram, vswp = swp\<rparr> = {}
    \<and> map (\<lambda>a. (vm_start a, vm_end a, sbrk a)) (mmap m') = [(0, 0, 0)]
    \<and> vm_freerg_list (hd (mmap m')) = \<lparr>rg_start = 0, rg_end = 0, valid = 0\<rparr> # junk"
proof -
  define m' where "m' = snd (init_mm junk m)"
  let ?c = "\<lparr>vmm = m', vram = ram, vswp = swp\<rparr>"
  have init: "init_mm junk m = (0, m')" by (simp add: m'_def init_mm_def Let_def)
  have fields: "pgd m' = (\<lambda>_. 0)" "current_max_pgn m' = -1" "fifo_using_pgn m' = []" "num_of_fifo_using_pgn m' = 0"
    by (simp_all add: m'_def init_mm_def Let_def)
  have sets: "mapped ?c = {}" "resident ?c = {}" "swapped ?c = {}" "pte_at ?c p = 0" for p
    by (simp_all add: mapped_def resident_def swapped_def pte_at_def fields)
  have "vm_ok R S ?c"
    unfolding vm_ok_def sets using assms by (simp add: fields PAGING_MAX_PGN_def PAGING_PAGESZ_def)
  moreover have "vdom ?c = {}" by (simp add: vdom_def fields)
  moreover have "map (\<lambda>a. (vm_start a, vm_end a, sbrk a)) (mmap m') = [(0, 0, 0)]"
      "vm_freerg_list (hd (mmap m')) = \<lparr>rg_start = 0, rg_end = 0, valid = 0\<rparr> # junk"
    by (simp_all add: m'_def init_mm_def Let_def init_vm_rg_def enlist_vm_rg_node_def conv_simps)
  ultimately show ?thesis using init by (intro exI [of _ m'] conjI)
qed

theorem init_mm_ok_witness:
  "\<exists>m'. init_mm [] sample_mm = (0, m') \<and> vm_ok {} {} \<lparr>vmm = m', vram = sample_ram, vswp = sample_swp\<rparr>"
proof -
  have dev: "dev_ok sample_ram" "frames sample_ram \<subseteq> {0..<1024}" "dev_ok sample_swp"
      "frames sample_swp \<subseteq> {0..<2097152}"
    using vm_ok_ram [OF sample_ok(1)] vm_ok_ram_frames [OF sample_ok(1)]
      vm_ok_swp [OF sample_ok(1)] vm_ok_swp_frames [OF sample_ok(1)] by (simp_all only: sample_ctx_def vmctx.simps)
  have free: "free_fp_list sample_ram = []" by (simp add: sample_ram_def)
  show ?thesis
    using init_mm_ok [OF dev, of "{}" "{}" "[]" sample_mm] unfolding free by auto
qed


end
