(* ===== verification/Mm_Vm.thy ===== *)
theory Mm_Vm
  imports Mm
begin

text \<open>
  The memory calls of a process, from \<open>src/mm-vm.c\<close>: a region is allocated from the list
  of freed regions, from the gap under \<open>vm_end\<close>, or by growing the area; it is freed by
  putting its range on the list; a byte is read or written through the symbol table. The
  names \<open>mm_alloc\<close>, \<open>mm_free\<close>, \<open>mm_read\<close> and \<open>mm_write\<close> stand for \<open>__alloc\<close>, \<open>__free\<close>,
  \<open>__read\<close> and \<open>__write\<close>.

  The main results: regions in use never overlap each other or a free region, a call
  keeps every byte it is not meant to change, and the two ways in which a program can
  break this (a double free, an offset past its region) are shown.
\<close>

section \<open>Areas and symbols\<close>

text \<open>
  A pointer to an area or to a symbol is its index: areas are found by walking the list,
  symbols by their number. A number equal to \<open>PAGING_MAX_SYMTBL_SZ\<close> passes the test and
  points just past the table, so following it faults.
\<close>

fun vma_walk :: "vm_area_struct list \<Rightarrow> nat \<Rightarrow> nat \<Rightarrow> nat option" where
  "vma_walk pvma vmait 0 = (if pvma = [] then None else Some vmait)"
| "vma_walk [] vmait (Suc n) = None"
| "vma_walk (_ # vm_next) vmait (Suc n) = vma_walk vm_next (Suc vmait) n"

definition get_vma_by_index :: "mm_struct \<Rightarrow> int \<Rightarrow> nat option" where
  "get_vma_by_index m vmaid = (if mmap m = [] then None else vma_walk (mmap m) 0 (nat vmaid))"

definition get_symbol_region_by_id :: "mm_struct \<Rightarrow> int \<Rightarrow> int option" where
  "get_symbol_region_by_id m rgid = (if rgid < 0 \<or> rgid > PAGING_MAX_SYMTBL_SZ then None else Some rgid)"

definition set_symbol :: "mm_struct \<Rightarrow> int \<Rightarrow> ulong \<Rightarrow> ulong \<Rightarrow> mm_struct option" where
  "set_symbol m rgid st en =
     do { tbl \<leftarrow> list_set (symrgtbl m) rgid \<lparr>rg_start = st, rg_end = en, valid = 1\<rparr>;
          Some (m\<lparr>symrgtbl := tbl\<rparr>) }"

definition set_vma :: "mm_struct \<Rightarrow> nat \<Rightarrow> vm_area_struct \<Rightarrow> mm_struct" where
  "set_vma m i vma = m\<lparr>mmap := (mmap m)[i := vma]\<rparr>"

section \<open>Allocation\<close>

text \<open>
  The walk of \<open>get_free_vmrg_area\<close>: the first region with enough space gives its front;
  a region that is used up takes over the next one, or stays as an empty region at the end.
\<close>

fun fit_region :: "vm_rg_struct list \<Rightarrow> ulong \<Rightarrow> (ulong \<times> ulong) option \<times> vm_rg_struct list" where
  "fit_region [] sz = (None, [])"
| "fit_region (rgit # rest) sz =
     (if rg_start rgit + sz \<le> rg_end rgit then
        (Some (rg_start rgit, rg_start rgit + sz),
         if rg_start rgit + sz < rg_end rgit
         then rgit\<lparr>rg_start := rg_start rgit + sz\<rparr> # rest
         else (case rest of
                 nextrg # rest2 \<Rightarrow> rgit\<lparr>rg_start := rg_start nextrg, rg_end := rg_end nextrg\<rparr> # rest2
               | [] \<Rightarrow> [rgit\<lparr>rg_start := rg_end rgit\<rparr>]))
      else (case fit_region rest sz of (r, rest') \<Rightarrow> (r, rgit # rest')))"

definition get_free_vmrg_area ::
  "mm_struct \<Rightarrow> int \<Rightarrow> int \<Rightarrow> (int \<times> (ulong \<times> ulong) option \<times> mm_struct) option" where
  "get_free_vmrg_area m vmaid sz =
     do { i \<leftarrow> get_vma_by_index m vmaid;
          let cur_vma = mmap m ! i;
          if vm_freerg_list cur_vma = [] then Some (-1, None, m)
          else
            (case fit_region (vm_freerg_list cur_vma) (ulong_of_int sz) of (r, fl) \<Rightarrow>
               let new_region = (case r of None \<Rightarrow> (-1, -1) | Some rg \<Rightarrow> rg);
                   m' = set_vma m i (cur_vma\<lparr>vm_freerg_list := fl\<rparr>)
               in if fst new_region = -1 then Some (-1, Some new_region, m')
                  else Some (0, Some new_region, m')) }"

definition create_vm_rg_of_pcb_at_brk :: "mm_struct \<Rightarrow> int \<Rightarrow> int \<Rightarrow> (ulong \<times> ulong) option" where
  "create_vm_rg_of_pcb_at_brk m vmaid sz =
     do { i \<leftarrow> get_vma_by_index m vmaid;
          let cur_vma = mmap m ! i;
          Some (sbrk cur_vma, sbrk cur_vma + ulong_of_int sz) }"

definition validate_overlap_vm_area :: "mm_struct \<Rightarrow> int \<Rightarrow> int \<Rightarrow> int \<Rightarrow> int" where
  "validate_overlap_vm_area m vmaid vmastart vmaend = 0"

definition increase_vma_limit :: "vmctx \<Rightarrow> int \<Rightarrow> int \<Rightarrow> int \<Rightarrow> (int \<times> vmctx) option" where
  "increase_vma_limit c vmaid demand_size true_inc_size =
     do { byte_increase_amt \<leftarrow> PAGING_PAGE_ALIGNSZ demand_size;
          let num_of_pages_increased = c_div byte_increase_amt PAGING_PAGESZ;
          (next_start, next_end) \<leftarrow> create_vm_rg_of_pcb_at_brk (vmm c) vmaid true_inc_size;
          i \<leftarrow> get_vma_by_index (vmm c) vmaid;
          let cur_vma = mmap (vmm c) ! i;
          let old_end = int_of_ulong (vm_end cur_vma);
          let overlap_status = validate_overlap_vm_area (vmm c) vmaid
                (int_of_ulong next_start) (int_of_ulong next_end);
          if overlap_status < 0 then Some (overlap_status, c)
          else
            do { (map_ram_status, _, c') \<leftarrow> vm_map_ram c (int_of_ulong next_start)
                   (int_of_ulong next_end) old_end num_of_pages_increased;
                 if map_ram_status < 0 then Some (map_ram_status, c') else Some (0, c') } }"

text \<open>
  The address is not written when the region comes from the gap under \<open>vm_end\<close>. After
  growing, \<open>sbrk\<close> moves in the first area, \<open>vm_end\<close> in the area \<open>vmaid\<close> names.
\<close>

definition mm_alloc :: "vmctx \<Rightarrow> int \<Rightarrow> int \<Rightarrow> int \<Rightarrow> (int \<times> int option \<times> vmctx) option" where
  "mm_alloc c vmaid rgid sz =
     do { (r, rgnode, m1) \<leftarrow> get_free_vmrg_area (vmm c) vmaid sz;
          if r = 0 then
            do { (st, en) \<leftarrow> rgnode;
                 m2 \<leftarrow> set_symbol m1 rgid st en;
                 Some (0, Some (int_of_ulong st), c\<lparr>vmm := m2\<rparr>) }
          else
            do { let c1 = c\<lparr>vmm := m1\<rparr>;
                 i \<leftarrow> get_vma_by_index m1 vmaid;
                 let cur_vma = mmap m1 ! i;
                 let usz = ulong_of_int sz;
                 if sbrk cur_vma + usz \<le> vm_end cur_vma then
                   do { m2 \<leftarrow> set_symbol m1 rgid (sbrk cur_vma) (sbrk cur_vma + usz);
                        Some (0, None, c\<lparr>vmm := set_vma m2 i (cur_vma\<lparr>sbrk := sbrk cur_vma + usz\<rparr>)\<rparr>) }
                 else
                   do { let old_sbrk = int_of_ulong (sbrk cur_vma);
                        let demand_size = int_of_ulong (sbrk cur_vma + usz - vm_end cur_vma);
                        (increase_status, c2) \<leftarrow> increase_vma_limit c1 vmaid demand_size sz;
                        if increase_status < 0 then Some (increase_status, None, c2)
                        else
                          do { new_end \<leftarrow> chk_int (old_sbrk + sz);
                               m3 \<leftarrow> set_symbol (vmm c2) rgid (ulong_of_int old_sbrk) (ulong_of_int new_end);
                               _ \<leftarrow> require (mmap m3 \<noteq> []);
                               let m4 = set_vma m3 0 ((mmap m3 ! 0)\<lparr>sbrk := sbrk (mmap m3 ! 0) + usz\<rparr>);
                               amt \<leftarrow> PAGING_PAGE_ALIGNSZ demand_size;
                               let m5 = set_vma m4 i ((mmap m4 ! i)\<lparr>vm_end := vm_end (mmap m4 ! i) + ulong_of_int amt\<rparr>);
                               Some (0, Some old_sbrk, c2\<lparr>vmm := m5\<rparr>) } } } }"

section \<open>Release\<close>

definition enlist_vm_freerg_list :: "mm_struct \<Rightarrow> vm_rg_struct \<Rightarrow> (int \<times> mm_struct) option" where
  "enlist_vm_freerg_list m rg_elmt =
     do { _ \<leftarrow> require (mmap m \<noteq> []);
          let vma = mmap m ! 0;
          if rg_start rg_elmt \<ge> rg_end rg_elmt then Some (-1, m)
          else Some (0, set_vma m 0 (vma\<lparr>vm_freerg_list := rg_elmt # vm_freerg_list vma\<rparr>)) }"

definition mm_free :: "vmctx \<Rightarrow> int \<Rightarrow> int \<Rightarrow> (int \<times> vmctx) option" where
  "mm_free c vmaid rgid =
     (if rgid < 0 \<or> rgid > PAGING_MAX_SYMTBL_SZ then Some (-1, c)
      else
        do { symid \<leftarrow> get_symbol_region_by_id (vmm c) rgid;
             removed_item \<leftarrow> list_get (symrgtbl (vmm c)) symid;
             tbl \<leftarrow> list_set (symrgtbl (vmm c)) symid (removed_item\<lparr>valid := 0\<rparr>);
             let new_removed_item = \<lparr>rg_start = rg_start removed_item, rg_end = rg_end removed_item, valid = 0\<rparr>;
             (_, m') \<leftarrow> enlist_vm_freerg_list ((vmm c)\<lparr>symrgtbl := tbl\<rparr>) new_removed_item;
             Some (0, c\<lparr>vmm := m'\<rparr>) })"

section \<open>Access\<close>

text \<open>The checks that \<open>__read\<close> and \<open>__write\<close> share: an error, or the address to access.\<close>

definition check_access :: "mm_struct \<Rightarrow> int \<Rightarrow> int \<Rightarrow> int \<Rightarrow> (int + int) option" where
  "check_access m vmaid rgid offset =
     (case get_symbol_region_by_id m rgid of
        None \<Rightarrow> Some (Inl ERR_RW_UNDEFINED)
      | Some symid \<Rightarrow>
          (case get_vma_by_index m vmaid of
             None \<Rightarrow> Some (Inl ERR_RW_UNDEFINED)
           | Some i \<Rightarrow>
               do { currg \<leftarrow> list_get (symrgtbl m) symid;
                    let cur_vma = mmap m ! i;
                    let addr = rg_start currg + ulong_of_int offset;
                    if valid currg = 0 then Some (Inl ERR_RW_UNDEFINED)
                    else if addr < vm_start cur_vma \<or> addr \<ge> sbrk cur_vma
                    then Some (Inl ERR_INVALID_ACCESS)
                    else Some (Inr (int_of_ulong addr)) }))"

definition mm_read :: "vmctx \<Rightarrow> int \<Rightarrow> int \<Rightarrow> int \<Rightarrow> (int \<times> u8 option \<times> vmctx) option" where
  "mm_read c vmaid rgid offset =
     do { r \<leftarrow> check_access (vmm c) vmaid rgid offset;
          case r of Inl e \<Rightarrow> Some (e, None, c) | Inr addr \<Rightarrow> pg_getval c addr }"

definition mm_write :: "vmctx \<Rightarrow> int \<Rightarrow> int \<Rightarrow> int \<Rightarrow> u8 \<Rightarrow> (int \<times> vmctx) option" where
  "mm_write c vmaid rgid offset v =
     do { r \<leftarrow> check_access (vmm c) vmaid rgid offset;
          case r of Inl e \<Rightarrow> Some (e, c) | Inr addr \<Rightarrow> pg_setval c addr v }"

section \<open>Collecting the frames of a process\<close>

text \<open>
  \<open>free_pcb_memph\<close> (which no caller uses) visits every entry, mapped or not; its test on
  the present bit is the wrong way round.
\<close>

fun free_loop :: "nat \<Rightarrow> vmctx \<Rightarrow> int \<Rightarrow> vmctx option" where
  "free_loop 0 c pagenum = Some c"
| "free_loop (Suc n) c pagenum =
     do { pte \<leftarrow> arr_get PAGING_MAX_PGN (pgd (vmm c)) pagenum;
          let c' = (if \<not> PAGING_PAGE_PRESENT pte
                    then c\<lparr>vram := snd (MEMPHY_put_freefp (vram c) (uint (PAGING_FPN pte)))\<rparr>
                    else c\<lparr>vswp := snd (MEMPHY_put_freefp (vswp c) (uint (PAGING_SWAPFPN pte)))\<rparr>);
          free_loop n c' (pagenum + 1) }"

definition free_pcb_memph :: "vmctx \<Rightarrow> (int \<times> vmctx) option" where
  "free_pcb_memph c = do { c' \<leftarrow> free_loop (nat PAGING_MAX_PGN) c 0; Some (0, c') }"

section \<open>The calls of the CPU\<close>

text \<open>
  The calls print: the error lines name the process and its instruction, the dumps show
  the page table and the used part of RAM. What they print is part of their result.
\<close>

datatype console_line =
    OsError int int string
  | ReadLine int int "int option"
  | WriteLine int int int
  | PgtblLine out_line
  | MemLine dump_line

definition print_pgtbl :: "mm_struct \<Rightarrow> u32 \<Rightarrow> u32 \<Rightarrow> (int \<times> console_line list) option" where
  "print_pgtbl m start en =
     do { e \<leftarrow> (if en = -1 then
                  do { i \<leftarrow> get_vma_by_index m 0; Some (ucast (vm_end (mmap m ! i))) }
                else Some en);
          let pgn_start = uint (PAGING_PGN start);
          let pgn_end = uint (PAGING_PGN e);
          Some (0, PgtblLine (PgtblRange start e)
            # map (\<lambda>pgit. PgtblLine (PteLine (pgit * 4) (pgd m (nat pgit)))) [pgn_start..pgn_end - 1]) }"

definition ctx_of :: "pcb_t \<Rightarrow> memphy_struct \<Rightarrow> memphy_struct \<Rightarrow> vmctx" where
  "ctx_of p ram swp = \<lparr>vmm = mm p, vram = ram, vswp = swp\<rparr>"

definition err_line :: "pcb_t \<Rightarrow> string \<Rightarrow> console_line" where
  "err_line p what = OsError (int_of_u32 (pid p)) (int_of_u32 (pc p + 1)) what"

type_synonym call_result = "(int \<times> console_line list \<times> pcb_t \<times> memphy_struct \<times> memphy_struct) option"

definition pgalloc :: "pcb_t \<Rightarrow> memphy_struct \<Rightarrow> memphy_struct \<Rightarrow> u32 \<Rightarrow> u32 \<Rightarrow> call_result" where
  "pgalloc p ram swp sz reg_index =
     do { (alloc_status, _, c) \<leftarrow> mm_alloc (ctx_of p ram swp) 0 (int_of_u32 reg_index) (int_of_u32 sz);
          let out =
            (if alloc_status = ERR_AREA_OVERLAP then [err_line p ''VMAs overlapped, cannot allocate!'']
             else if alloc_status = ERR_LACK_MEM_RAM then [err_line p ''new region is too large to fit all in RAM, cannot allocate!'']
             else if alloc_status = ERR_LACK_MEM_SWP then [err_line p ''ran out of SWAP memory, cannot allocate!'']
             else if alloc_status \<noteq> 0 then [err_line p ''undefined error, cannot allocate!'']
             else []);
          Some (alloc_status, out, p\<lparr>mm := vmm c\<rparr>, vram c, vswp c) }"

definition pgfree_data :: "pcb_t \<Rightarrow> memphy_struct \<Rightarrow> memphy_struct \<Rightarrow> u32 \<Rightarrow> call_result" where
  "pgfree_data p ram swp reg_index =
     do { (status, c) \<leftarrow> mm_free (ctx_of p ram swp) 0 (int_of_u32 reg_index);
          Some (status, [], p\<lparr>mm := vmm c\<rparr>, vram c, vswp c) }"

definition access_errors :: "pcb_t \<Rightarrow> int \<Rightarrow> string \<Rightarrow> console_line list" where
  "access_errors p status act =
     (if status = ERR_INVALID_ACCESS then [err_line p (''accessed invalid memory address, cannot '' @ act @ ''!'')]
      else if status = ERR_SWAPPING
      then [err_line p (''cannot bring required memory region from SWAP to RAM, cannot '' @ act @ ''!'')]
      else if status \<noteq> 0 then [err_line p (''undefined error, cannot '' @ act @ ''!'')]
      else [])"

text \<open>\<open>pgread\<close> stores the byte in its own parameter: the value goes nowhere but the console.\<close>

definition pgread :: "pcb_t \<Rightarrow> memphy_struct \<Rightarrow> memphy_struct \<Rightarrow> u32 \<Rightarrow> u32 \<Rightarrow> u32 \<Rightarrow> call_result" where
  "pgread p ram swp source offset destination =
     do { (read_status, data, c) \<leftarrow> mm_read (ctx_of p ram swp) 0 (int_of_u32 source) (int_of_u32 offset);
          line \<leftarrow> (if read_status = 0 then
                      do { d \<leftarrow> data; Some (ReadLine (int_of_u32 source) (int_of_u32 offset) (Some (sint d))) }
                    else Some (ReadLine (int_of_u32 source) (int_of_u32 offset) None));
          (_, tbl) \<leftarrow> print_pgtbl (vmm c) 0 (-1);
          Some (read_status, [line] @ tbl @ map MemLine (MEMPHY_dump (vram c))
                  @ access_errors p read_status ''read'',
                p\<lparr>mm := vmm c\<rparr>, vram c, vswp c) }"

definition pgwrite :: "pcb_t \<Rightarrow> memphy_struct \<Rightarrow> memphy_struct \<Rightarrow> u8 \<Rightarrow> u32 \<Rightarrow> u32 \<Rightarrow> call_result" where
  "pgwrite p ram swp data destination offset =
     do { (_, tbl) \<leftarrow> print_pgtbl (mm p) 0 (-1);
          (write_status, c) \<leftarrow> mm_write (ctx_of p ram swp) 0 (int_of_u32 destination) (int_of_u32 offset) data;
          Some (write_status,
                [WriteLine (int_of_u32 destination) (int_of_u32 offset) (sint data)] @ tbl
                  @ map MemLine (MEMPHY_dump ram) @ access_errors p write_status ''write'',
                p\<lparr>mm := vmm c\<rparr>, vram c, vswp c) }"

section \<open>Regions\<close>

text \<open>
  Every byte below \<open>sbrk\<close> belongs to at most one region: a symbol in use or a region of
  the free list. \<open>owners\<close> counts them.
\<close>

definition rg_bytes :: "vm_rg_struct \<Rightarrow> int set" where
  "rg_bytes rg = {uint (rg_start rg)..<uint (rg_end rg)}"

definition live_at :: "int \<Rightarrow> vm_rg_struct \<Rightarrow> int" where
  "live_at b rg = (if valid rg \<noteq> 0 \<and> b \<in> rg_bytes rg then 1 else 0)"

definition free_at :: "int \<Rightarrow> vm_rg_struct \<Rightarrow> int" where
  "free_at b rg = (if b \<in> rg_bytes rg then 1 else 0)"

definition owners :: "mm_struct \<Rightarrow> int \<Rightarrow> int" where
  "owners m b = (\<Sum>rg\<leftarrow>symrgtbl m. live_at b rg) + (\<Sum>rg\<leftarrow>vm_freerg_list (hd (mmap m)). free_at b rg)"

definition rg_below :: "ulong \<Rightarrow> vm_rg_struct \<Rightarrow> bool" where
  "rg_below lim rg \<longleftrightarrow> rg_start rg \<le> rg_end rg \<and> rg_end rg \<le> lim"

definition regions_ok :: "mm_struct \<Rightarrow> bool" where
  "regions_ok m \<longleftrightarrow> int (length (symrgtbl m)) = PAGING_MAX_SYMTBL_SZ
     \<and> (\<exists>vma. mmap m = [vma] \<and> vm_start vma = 0
          \<and> uint (vm_end vma) = PAGING_PAGESZ * (current_max_pgn m + 1) \<and> sbrk vma \<le> vm_end vma
          \<and> (\<forall>rg\<in>set (vm_freerg_list vma). rg_below (sbrk vma) rg)
          \<and> (\<forall>rg\<in>set (symrgtbl m). valid rg \<noteq> 0 \<longrightarrow> rg_below (sbrk vma) rg))
     \<and> (\<forall>b. owners m b \<le> 1)"

definition mm_ok :: "int set \<Rightarrow> int set \<Rightarrow> vmctx \<Rightarrow> bool" where
  "mm_ok R S c \<longleftrightarrow> vm_ok R S c \<and> regions_ok (vmm c)"

lemma uint_add_small: "uint (x :: ulong) + uint y < 2 ^ 64 \<Longrightarrow> uint (x + y) = uint x + uint y"
  using uint_add_lem [of x y] by simp

lemma uint_ulong_of_int: "0 \<le> i \<Longrightarrow> i < 2 ^ 64 \<Longrightarrow> uint (ulong_of_int i) = i"
  by (simp add: conv_simps uint_word_of_int)

lemma int_of_ulong_small: "uint x < 2 ^ 31 \<Longrightarrow> int_of_ulong x = uint x"
proof -
  assume a: "uint x < 2 ^ 31"
  have "uint (ucast x :: u32) = uint x"
    using a by (simp add: unsigned_ucast_eq take_bit_int_eq_self)
  moreover have "signed_take_bit 31 (uint x) = uint x"
    using a uint_ge_0 [of x] by (intro signed_take_bit_int_eq_self) linarith+
  ultimately show ?thesis by (simp add: int_of_ulong_def sint_uint)
qed

lemma free_at_below: "rg_below lim rg \<Longrightarrow> uint lim \<le> b \<Longrightarrow> free_at b rg = 0"
  by (auto simp: free_at_def rg_below_def rg_bytes_def word_le_def)

lemma live_at_below: "(valid rg \<noteq> 0 \<longrightarrow> rg_below lim rg) \<Longrightarrow> uint lim \<le> b \<Longrightarrow> live_at b rg = 0"
  by (auto simp: live_at_def rg_below_def rg_bytes_def word_le_def)

lemma live_at_nonneg [simp]: "0 \<le> live_at b rg"
  and free_at_nonneg [simp]: "0 \<le> free_at b rg"
  by (simp_all add: live_at_def free_at_def)

lemma sum_live_nonneg [simp]: "0 \<le> (\<Sum>rg\<leftarrow>xs. live_at b rg)"
  and sum_free_nonneg [simp]: "0 \<le> (\<Sum>rg\<leftarrow>xs. free_at b rg)"
  by (induction xs) auto

text \<open>First fit takes the bytes it returns out of the free list.\<close>

lemma fit_region_ok:
  assumes "\<forall>rg\<in>set fl. rg_below lim rg" and "uint lim + uint u < 2 ^ 64" and "fit_region fl u = (r, fl')"
  shows "(\<forall>rg\<in>set fl'. rg_below lim rg)
    \<and> (case r of None \<Rightarrow> fl' = fl
       | Some (s, e) \<Rightarrow> uint e = uint s + uint u \<and> e \<le> lim
           \<and> (\<forall>b. (\<Sum>rg\<leftarrow>fl. free_at b rg) = (\<Sum>rg\<leftarrow>fl'. free_at b rg)
                + (if uint s \<le> b \<and> b < uint e then 1 else 0)))"
  using assms
proof (induction fl u arbitrary: r fl' rule: fit_region.induct)
  case (1 u)
  then show ?case by simp
next
  case (2 rg rest u)
  have wf: "uint (rg_start rg) \<le> uint (rg_end rg)" "uint (rg_end rg) \<le> uint lim"
    using 2 by (auto simp: rg_below_def word_le_def)
  have add: "uint (rg_start rg + u) = uint (rg_start rg) + uint u"
    using wf 2 by (intro uint_add_small) simp
  have u0: "0 \<le> uint u" by simp
  consider (no) "\<not> rg_start rg + u \<le> rg_end rg" | (part) "rg_start rg + u < rg_end rg"
    | (full) "rg_start rg + u = rg_end rg" by fastforce
  then show ?case
  proof cases
    case no
    obtain r1 fl1 where rec: "fit_region rest u = (r1, fl1)" by (cases "fit_region rest u")
    then have "r = r1" "fl' = rg # fl1" using no 2 by auto
    moreover have "(\<forall>rg\<in>set fl1. rg_below lim rg)
      \<and> (case r1 of None \<Rightarrow> fl1 = rest | Some (s, e) \<Rightarrow> uint e = uint s + uint u \<and> e \<le> lim
           \<and> (\<forall>b. (\<Sum>rg\<leftarrow>rest. free_at b rg) = (\<Sum>rg\<leftarrow>fl1. free_at b rg)
                + (if uint s \<le> b \<and> b < uint e then 1 else 0)))"
      using 2 no rec by simp
    ultimately show ?thesis using 2 by (auto split: option.splits)
  next
    case part
    then have le: "rg_start rg + u \<le> rg_end rg" by (rule order_less_imp_le)
    with part have eqs: "r = Some (rg_start rg, rg_start rg + u)" "fl' = rg\<lparr>rg_start := rg_start rg + u\<rparr> # rest"
      using 2 by auto
    have lt: "uint (rg_start rg) + uint u < uint (rg_end rg)" using part add by (simp add: word_less_def)
    have "free_at b rg = free_at b (rg\<lparr>rg_start := rg_start rg + u\<rparr>)
        + (if uint (rg_start rg) \<le> b \<and> b < uint (rg_start rg + u) then 1 else 0)" for b
      using lt by (auto simp: free_at_def rg_bytes_def add; use uint_ge_0 [of u] in linarith)
    then show ?thesis using 2 eqs add lt wf by (auto simp: rg_below_def word_le_def)
  next
    case full
    define fl2 where "fl2 = (case rest of
        nextrg # rest2 \<Rightarrow> rg\<lparr>rg_start := rg_start nextrg, rg_end := rg_end nextrg\<rparr> # rest2
      | [] \<Rightarrow> [rg\<lparr>rg_start := rg_end rg\<rparr>])"
    have eqs: "r = Some (rg_start rg, rg_end rg)" "fl' = fl2"
      using 2 full unfolding fl2_def by (auto split: list.splits)
    have "(\<Sum>rg\<leftarrow>fl2. free_at b rg) = (\<Sum>rg\<leftarrow>rest. free_at b rg)" for b
      by (cases rest) (auto simp: fl2_def free_at_def rg_bytes_def)
    moreover have "\<forall>rg\<in>set fl2. rg_below lim rg"
      using 2 wf by (cases rest) (auto simp: fl2_def rg_below_def word_le_def)
    moreover have "uint (rg_end rg) = uint (rg_start rg) + uint u" using add full by simp
    moreover have "free_at b rg = (if uint (rg_start rg) \<le> b \<and> b < uint (rg_end rg) then 1 else 0)" for b
      by (simp add: free_at_def rg_bytes_def)
    moreover have "rg_end rg \<le> lim" using wf by (simp add: word_le_def)
    ultimately show ?thesis unfolding eqs by simp
  qed
qed


section \<open>Allocation keeps regions apart\<close>

lemma regions_okD:
  assumes "regions_ok m"
  obtains vma where "mmap m = [vma]" "vm_start vma = 0"
    "uint (vm_end vma) = 256 * (current_max_pgn m + 1)" "sbrk vma \<le> vm_end vma"
    "\<forall>rg\<in>set (vm_freerg_list vma). rg_below (sbrk vma) rg"
    "\<forall>rg\<in>set (symrgtbl m). valid rg \<noteq> 0 \<longrightarrow> rg_below (sbrk vma) rg"
    "int (length (symrgtbl m)) = 30"
    "\<And>b. (\<Sum>rg\<leftarrow>symrgtbl m. live_at b rg) + (\<Sum>rg\<leftarrow>vm_freerg_list vma. free_at b rg) \<le> 1"
  using assms unfolding regions_ok_def owners_def PAGING_MAX_SYMTBL_SZ_def PAGING_PAGESZ_def by fastforce

lemma regions_vma:
  assumes "regions_ok m" and "mmap m = [vma]"
  shows "vm_start vma = 0" "uint (vm_end vma) = 256 * (current_max_pgn m + 1)" "sbrk vma \<le> vm_end vma"
    "\<forall>rg\<in>set (vm_freerg_list vma). rg_below (sbrk vma) rg"
    "\<forall>rg\<in>set (symrgtbl m). valid rg \<noteq> 0 \<longrightarrow> rg_below (sbrk vma) rg"
    "int (length (symrgtbl m)) = 30"
    "(\<Sum>rg\<leftarrow>symrgtbl m. live_at b rg) + (\<Sum>rg\<leftarrow>vm_freerg_list vma. free_at b rg) \<le> 1"
  using regions_okD [OF assms(1)] assms(2) by (metis list.inject)+

lemma set_symbol_put:
  assumes "int (length (symrgtbl m)) = 30" "0 \<le> rgid" "rgid < 30"
  shows "set_symbol m rgid s e = Some (m\<lparr>symrgtbl := (symrgtbl m)[nat rgid := \<lparr>rg_start = s, rg_end = e, valid = 1\<rparr>]\<rparr>)"
  using assms by (simp add: set_symbol_def arr_simps)

text \<open>The new end of the heap, in the 64 and 32 bit types of the source.\<close>

lemma new_brk:
  fixes b e :: ulong
  assumes sz: "0 \<le> sz" "uint b + sz \<le> 2 ^ 22"
  shows "uint (b + ulong_of_int sz) = uint b + sz"
    and "int_of_ulong b = uint b" and "chk_int (uint b + sz) = Some (uint b + sz)"
    and "uint e < uint b + sz \<Longrightarrow> int_of_ulong (b + ulong_of_int sz - e) = uint b + sz - uint e"
proof -
  have small: "sz \<le> 2 ^ 22" "uint b \<le> 2 ^ 22" "0 \<le> uint b + sz" using sz uint_ge_0 [of b] by linarith+
  then have "uint (ulong_of_int sz) = sz" using sz(1) by (intro uint_ulong_of_int) simp_all
  then show add: "uint (b + ulong_of_int sz) = uint b + sz" using sz by (subst uint_add_small) simp_all
  show "int_of_ulong b = uint b" using small by (intro int_of_ulong_small) simp
  show "chk_int (uint b + sz) = Some (uint b + sz)" by (rule chk_int_Some) (use small(3) sz(2) in simp_all)
  show "int_of_ulong (b + ulong_of_int sz - e) = uint b + sz - uint e" if "uint e < uint b + sz"
  proof -
    have "uint (b + ulong_of_int sz - e) = uint b + sz - uint e" using that add by (subst uint_sub_lem [THEN iffD1]) simp_all
    moreover have "uint b + sz - uint e \<le> 2 ^ 22" using sz(2) uint_ge_0 [of e] by linarith
    ultimately show ?thesis by (subst int_of_ulong_small) simp_all
  qed
qed

text \<open>The pages by which the area has to grow.\<close>

lemma new_pages:
  assumes rok: "regions_ok m" and m: "mmap m = [vma]" and sz: "0 \<le> sz" "uint (sbrk vma) + sz \<le> 2 ^ 22"
    and grow: "uint (vm_end vma) < uint (sbrk vma) + sz"
  defines "d \<equiv> uint (sbrk vma) + sz - uint (vm_end vma)"
  defines "n \<equiv> (d + 255) div 256"
  shows "PAGING_PAGE_ALIGNSZ d = Some (n * 256)" "1 \<le> n" "c_div (n * 256) PAGING_PAGESZ = n"
    and "current_max_pgn m + n < PAGING_MAX_PGN" "uint (sbrk vma) + sz \<le> 256 * (current_max_pgn m + 1 + n)"
    and "uint (sbrk vma) < 2 ^ 22" "int_of_ulong (vm_end vma) = PAGING_PAGESZ * (current_max_pgn m + 1)"
proof -
  note ve = regions_vma(2,3) [OF rok m]
  have d: "0 < d" "d \<le> 2 ^ 22" using grow sz uint_ge_0 [of "vm_end vma"] unfolding d_def by linarith+
  have end22: "uint (vm_end vma) < 2 ^ 22" using grow sz by linarith
  with ve(2) show "uint (sbrk vma) < 2 ^ 22" by (simp add: word_le_def)
  show "PAGING_PAGE_ALIGNSZ d = Some (n * 256)" using d unfolding n_def by (intro PAGING_PAGE_ALIGNSZ_small) simp_all
  show n: "1 \<le> n" using d by (simp add: n_def)
  then show "c_div (n * 256) PAGING_PAGESZ = n" by (simp add: PAGING_PAGESZ_def)
  have n_max: "256 * n \<le> d + 255" "d + 255 < 256 * n + 256" unfolding n_def by linarith+
  show "current_max_pgn m + n < PAGING_MAX_PGN" "uint (sbrk vma) + sz \<le> 256 * (current_max_pgn m + 1 + n)"
    using n_max ve(1) sz(2) d(1) unfolding d_def PAGING_MAX_PGN_def by simp_all
  show "int_of_ulong (vm_end vma) = PAGING_PAGESZ * (current_max_pgn m + 1)"
    using end22 ve(1) by (subst int_of_ulong_small) (simp_all add: PAGING_PAGESZ_def)
qed

lemma regions_install:
  assumes "int (length (symrgtbl m)) = 30" and "0 \<le> rgid" "rgid < 30"
    and "symrgtbl m' = (symrgtbl m)[nat rgid := \<lparr>rg_start = s, rg_end = e, valid = 1\<rparr>]"
    and "mmap m' = [vma']" and "vm_start vma' = 0" and "uint (vm_end vma') = 256 * (current_max_pgn m' + 1)"
    and "sbrk vma' \<le> vm_end vma'" and "\<forall>rg\<in>set (vm_freerg_list vma'). rg_below (sbrk vma') rg"
    and "\<forall>rg\<in>set (symrgtbl m). valid rg \<noteq> 0 \<longrightarrow> rg_below (sbrk vma') rg"
    and "s \<le> e" and "e \<le> sbrk vma'"
    and own: "\<And>b. (\<Sum>rg\<leftarrow>symrgtbl m. live_at b rg) + (\<Sum>rg\<leftarrow>vm_freerg_list vma'. free_at b rg)
        + (if uint s \<le> b \<and> b < uint e then 1 else 0) \<le> 1"
  shows "regions_ok m'"
proof -
  have "owners m' b \<le> 1" for b
  proof -
    have "(\<Sum>rg\<leftarrow>symrgtbl m'. live_at b rg) = (\<Sum>rg\<leftarrow>symrgtbl m. live_at b rg)
        - live_at b (symrgtbl m ! nat rgid) + live_at b \<lparr>rg_start = s, rg_end = e, valid = 1\<rparr>"
      unfolding assms(4) using assms(1-3) by (intro sum_list_map_update) auto
    moreover have "live_at b \<lparr>rg_start = s, rg_end = e, valid = 1\<rparr> = (if uint s \<le> b \<and> b < uint e then 1 else 0)"
      by (simp add: live_at_def rg_bytes_def)
    ultimately show ?thesis
      using own [of b] live_at_nonneg [of b "symrgtbl m ! nat rgid"] by (simp only: owners_def assms(5) list.sel)
  qed
  moreover have "valid rg \<noteq> 0 \<longrightarrow> rg_below (sbrk vma') rg" if "rg \<in> set (symrgtbl m')" for rg
  proof -
    have "rg \<in> insert \<lparr>rg_start = s, rg_end = e, valid = 1\<rparr> (set (symrgtbl m))"
      using that set_update_subset_insert unfolding assms(4) by fast
    then show ?thesis using assms(10-12) by (auto simp: rg_below_def)
  qed
  ultimately show ?thesis
    using assms by (simp add: regions_ok_def PAGING_MAX_SYMTBL_SZ_def PAGING_PAGESZ_def)
qed

lemma get_vma_0 [simp]: "mmap m = [vma] \<Longrightarrow> get_vma_by_index m 0 = Some 0"
  by (simp add: get_vma_by_index_def)

lemma get_free_vmrg_area_cases:
  assumes ok: "regions_ok m" and m: "mmap m = [vma]" and sz: "0 \<le> sz" "uint (sbrk vma) + sz \<le> 2 ^ 22"
  obtains (none) x where "get_free_vmrg_area m 0 sz = Some (-1, x, m)"
  | (fits) s e fl where "get_free_vmrg_area m 0 sz = Some (0, Some (s, e), set_vma m 0 (vma\<lparr>vm_freerg_list := fl\<rparr>))"
      "uint e = uint s + sz" "e \<le> sbrk vma" "\<forall>rg\<in>set fl. rg_below (sbrk vma) rg"
      "\<And>b. (\<Sum>rg\<leftarrow>vm_freerg_list vma. free_at b rg) = (\<Sum>rg\<leftarrow>fl. free_at b rg)
         + (if uint s \<le> b \<and> b < uint e then 1 else 0)"
proof -
  have fl: "\<forall>rg\<in>set (vm_freerg_list vma). rg_below (sbrk vma) rg"
    using regions_okD [OF ok] m by (metis list.inject)
  have "sz \<le> 2 ^ 22" using sz(2) uint_ge_0 [of "sbrk vma"] by linarith
  then have usz: "uint (ulong_of_int sz) = sz" using sz(1) by (intro uint_ulong_of_int) simp_all
  obtain r fl' where fit: "fit_region (vm_freerg_list vma) (ulong_of_int sz) = (r, fl')" by fastforce
  have "uint (sbrk vma) + uint (ulong_of_int sz) < 2 ^ 64" using sz usz by simp
  note step = fit_region_ok [OF fl this fit]
  show ?thesis
  proof (cases "vm_freerg_list vma = []")
    case True
    with none m show ?thesis by (simp add: get_free_vmrg_area_def)
  next
    case False
    show ?thesis
    proof (cases r)
      case None
      with step have "fl' = vm_freerg_list vma" by simp
      then have "set_vma m 0 (vma\<lparr>vm_freerg_list := fl'\<rparr>) = m" using m by (simp add: set_vma_def)
      with None False fit m none show ?thesis by (simp add: get_free_vmrg_area_def)
    next
      case (Some rg)
      obtain s e where rg: "rg = (s, e)" by (cases rg)
      have se: "uint e = uint s + sz" "e \<le> sbrk vma" using step Some rg usz by auto
      have "uint s < 2 ^ 64 - 1" using se sz uint_ge_0 [of "sbrk vma"] by (simp add: word_le_def)
      then have "s \<noteq> -1" by (auto simp: uint_word_ariths)
      with False fit m Some rg have
        "get_free_vmrg_area m 0 sz = Some (0, Some (s, e), set_vma m 0 (vma\<lparr>vm_freerg_list := fl'\<rparr>))"
        by (simp add: get_free_vmrg_area_def)
      with fits [of s e fl'] se step Some rg show ?thesis by simp
    qed
  qed
qed

text \<open>A change of areas and symbols is no change of the pages.\<close>

lemma meta_change:
  assumes "pgd m' = pgd (vmm c)" and "current_max_pgn m' = current_max_pgn (vmm c)"
    and "fifo_using_pgn m' = fifo_using_pgn (vmm c)" and "num_of_fifo_using_pgn m' = num_of_fifo_using_pgn (vmm c)"
  shows "vm_ok R S (c\<lparr>vmm := m'\<rparr>) = vm_ok R S c" and "vread (c\<lparr>vmm := m'\<rparr>) = vread c"
    and "vdom (c\<lparr>vmm := m'\<rparr>) = vdom c" and "ready (c\<lparr>vmm := m'\<rparr>) = ready c"
proof -
  let ?c = "c\<lparr>vmm := m'\<rparr>"
  note sets = page_sets_cong [of ?c c, simplified, OF assms(1,2)]
  show "vm_ok R S ?c = vm_ok R S c" using assms by (simp add: vm_ok_def sets)
  have "vbyte ?c = vbyte c" by (rule vbyte_cong) (simp_all add: sets)
  then show "vread ?c = vread c" by (simp add: vread_def fun_eq_iff)
  show "vdom ?c = vdom c" using assms(2) by (simp add: vdom_def)
  show "ready ?c = ready c" using assms by (simp add: ready_def sets)
qed



definition others_kept :: "int set \<Rightarrow> int set \<Rightarrow> vmctx \<Rightarrow> vmctx \<Rightarrow> bool" where
  "others_kept R S c c' \<longleftrightarrow>
     frames (vram c') = frames (vram c) \<and> frames (vswp c') = frames (vswp c)
     \<and> (\<forall>g\<in>R. g \<in> frames (vram c) \<longrightarrow> (\<forall>i\<in>{0..<PAGING_PAGESZ}. frame_byte (vram c') g i = frame_byte (vram c) g i))
     \<and> (\<forall>g\<in>S. g \<in> frames (vswp c) \<longrightarrow> (\<forall>i\<in>{0..<PAGING_PAGESZ}. frame_byte (vswp c') g i = frame_byte (vswp c) g i))"

text \<open>
  The effect of a successful allocation: the symbol names a region of the size asked for,
  the old bytes are where they were, and any new page is zero.
\<close>

definition allocated :: "int set \<Rightarrow> int set \<Rightarrow> vmctx \<Rightarrow> int \<Rightarrow> int \<Rightarrow> vmctx \<Rightarrow> bool" where
  "allocated R S c rgid sz c' \<longleftrightarrow>
     (\<exists>s e. symrgtbl (vmm c') = (symrgtbl (vmm c))[nat rgid := \<lparr>rg_start = s, rg_end = e, valid = 1\<rparr>]
        \<and> uint e = uint s + sz)
     \<and> vdom c \<subseteq> vdom c' \<and> (\<forall>a\<in>vdom c'. vread c' a = (if a \<in> vdom c then vread c a else 0))
     \<and> others_kept R S c c'"

lemma others_kept_simps [simp]:
  "view_becomes R S c f c' \<Longrightarrow> others_kept R S c c'"
  "view_grows R S c n c' \<Longrightarrow> others_kept R S c c'"
  "others_kept R S c (c\<lparr>vmm := m'\<rparr>)"
  by (simp_all add: others_kept_def view_becomes_def view_grows_def)

lemma set_vma_0 [simp]: "mmap m = [vma] \<Longrightarrow> set_vma m 0 vma' = m\<lparr>mmap := [vma']\<rparr>"
  by (simp add: set_vma_def)

lemma allocated_meta:
  assumes "mm_ok R S c" and "pgd m' = pgd (vmm c)" "current_max_pgn m' = current_max_pgn (vmm c)"
    "fifo_using_pgn m' = fifo_using_pgn (vmm c)" "num_of_fifo_using_pgn m' = num_of_fifo_using_pgn (vmm c)"
    and "symrgtbl m' = (symrgtbl (vmm c))[nat rgid := \<lparr>rg_start = s, rg_end = e, valid = 1\<rparr>]"
    and "uint e = uint s + sz" and "regions_ok m'"
  shows "mm_ok R S (c\<lparr>vmm := m'\<rparr>) \<and> allocated R S c rgid sz (c\<lparr>vmm := m'\<rparr>)"
  using assms meta_change [OF assms(2-5)] by (auto simp: mm_ok_def allocated_def)

text \<open>Growing the area.\<close>

lemma increase_vma_limit_cases:
  assumes ok: "mm_ok R S c" and m: "mmap (vmm c) = [vma]" and sz: "0 \<le> sz" "uint (sbrk vma) + sz \<le> 2 ^ 22"
    and grow: "uint (vm_end vma) < uint (sbrk vma) + sz"
  defines "d \<equiv> uint (sbrk vma) + sz - uint (vm_end vma)"
  obtains (failed) r c' where "increase_vma_limit c 0 d sz = Some (r, c')"
      "r = ERR_LACK_MEM_RAM \<or> r = ERR_LACK_MEM_SWP" "vm_ok R S c'" "view_becomes R S c (vread c) c'"
  | (grown) c' where "increase_vma_limit c 0 d sz = Some (0, c')" "vm_ok R S c'"
      "view_grows R S c ((d + 255) div 256) c'" "PAGING_PAGE_ALIGNSZ d = Some ((d + 255) div 256 * 256)"
      "current_max_pgn (vmm c) + (d + 255) div 256 < PAGING_MAX_PGN"
      "uint (sbrk vma) + sz \<le> 256 * (current_max_pgn (vmm c) + 1 + (d + 255) div 256)"
proof -
  let ?n = "(d + 255) div 256"
  have vok: "vm_ok R S c" and rok: "regions_ok (vmm c)" using ok by (simp_all add: mm_ok_def)
  note new = new_pages [OF rok m sz grow, folded d_def]
  have neg: "ERR_LACK_MEM_RAM < 0" "ERR_LACK_MEM_SWP < 0" by (simp_all add: err_defs)
  have run: "increase_vma_limit c 0 d sz =
    do { (st, _, c') \<leftarrow> vm_map_ram c (uint (sbrk vma)) (int_of_ulong (sbrk vma + ulong_of_int sz))
           (PAGING_PAGESZ * (current_max_pgn (vmm c) + 1)) ?n;
         if st < 0 then Some (st, c') else Some (0, c') }"
    using m new(1,3,7) new_brk(2) [OF sz]
    by (simp add: increase_vma_limit_def create_vm_rg_of_pcb_at_brk_def validate_overlap_vm_area_def
        Let_def PAGING_PAGESZ_def)
  have "0 \<le> uint (sbrk vma)" by simp
  from vok this new(6,2,4) refl show ?thesis
  proof (cases rule: vm_map_ram_spec [where aend = "int_of_ulong (sbrk vma + ulong_of_int sz)"])
    case (failed r c')
    with neg that(1) [of r c'] run show ?thesis by auto
  next
    case (grown c')
    with that(2) [of c'] run new(1,4,5) show ?thesis by simp
  qed
qed


text \<open>Above \<open>sbrk\<close> no byte has an owner, so a region there can be given away.\<close>

lemma owners_above:
  assumes rok: "regions_ok m" and m: "mmap m = [vma]"
  shows "(\<Sum>rg\<leftarrow>symrgtbl m. live_at b rg) + (\<Sum>rg\<leftarrow>vm_freerg_list vma. free_at b rg)
    + (if uint (sbrk vma) \<le> b \<and> b < uint e then 1 else 0) \<le> 1"
proof -
  have vma: "\<forall>rg\<in>set (vm_freerg_list vma). rg_below (sbrk vma) rg"
    "\<forall>rg\<in>set (symrgtbl m). valid rg \<noteq> 0 \<longrightarrow> rg_below (sbrk vma) rg"
    "(\<Sum>rg\<leftarrow>symrgtbl m. live_at b rg) + (\<Sum>rg\<leftarrow>vm_freerg_list vma. free_at b rg) \<le> 1"
    using regions_okD [OF rok] m by (metis list.inject)+
  show ?thesis
  proof (cases "uint (sbrk vma) \<le> b")
    case True
    have "(\<Sum>rg\<leftarrow>symrgtbl m. live_at b rg) = 0"
      by (rule sum_list_map_const) (use vma(2) live_at_below [OF _ True] in blast)
    moreover have "(\<Sum>rg\<leftarrow>vm_freerg_list vma. free_at b rg) = 0"
      by (rule sum_list_map_const) (use vma(1) free_at_below [OF _ True] in blast)
    ultimately show ?thesis by simp
  qed (use vma(3) in simp)
qed

text \<open>The regions after the area has grown by \<open>n\<close> pages and a region of size \<open>sz\<close> at \<open>sbrk\<close> is given away.\<close>

lemma regions_grown:
  assumes rok: "regions_ok m" and m: "mmap m = [vma]" and rgid: "0 \<le> rgid" "rgid < 30"
    and sz: "0 \<le> sz" "uint (sbrk vma) + sz \<le> 2 ^ 22"
    and n: "0 \<le> n" "current_max_pgn m + n < PAGING_MAX_PGN" "uint (sbrk vma) + sz \<le> 256 * (current_max_pgn m + 1 + n)"
    and m': "current_max_pgn m' = current_max_pgn m + n"
  defines "e \<equiv> sbrk vma + ulong_of_int sz"
  shows "regions_ok (m'\<lparr>symrgtbl := (symrgtbl m)[nat rgid := \<lparr>rg_start = sbrk vma, rg_end = e, valid = 1\<rparr>],
      mmap := [vma\<lparr>sbrk := e, vm_end := vm_end vma + ulong_of_int (n * 256)\<rparr>]\<rparr>)"
    and "uint e = uint (sbrk vma) + sz"
proof -
  have vma: "vm_start vma = 0" "uint (vm_end vma) = 256 * (current_max_pgn m + 1)"
    "\<forall>rg\<in>set (vm_freerg_list vma). rg_below (sbrk vma) rg"
    "\<forall>rg\<in>set (symrgtbl m). valid rg \<noteq> 0 \<longrightarrow> rg_below (sbrk vma) rg" "int (length (symrgtbl m)) = 30"
    using regions_okD [OF rok] m by (metis list.inject)+
  have "sz \<le> 2 ^ 22" using sz uint_ge_0 [of "sbrk vma"] by linarith
  then have "uint (ulong_of_int sz) = sz" using sz(1) by (intro uint_ulong_of_int) simp_all
  then show e: "uint e = uint (sbrk vma) + sz" using sz unfolding e_def by (subst uint_add_small) simp_all
  have room: "uint (vm_end vma) + n * 256 \<le> 2 ^ 22" using n(2) vma(2) by (simp add: PAGING_MAX_PGN_def)
  have un: "uint (ulong_of_int (n * 256)) = n * 256"
  proof (rule uint_ulong_of_int)
    have "n * 256 \<le> 2 ^ 22" using room uint_ge_0 [of "vm_end vma"] by linarith
    then show "n * 256 < 2 ^ 64" by simp
  qed (use n(1) in simp)
  have new_end: "uint (vm_end vma + ulong_of_int (n * 256)) = uint (vm_end vma) + n * 256"
    using room un by (subst uint_add_small) simp_all
  let ?vma = "vma\<lparr>sbrk := e, vm_end := vm_end vma + ulong_of_int (n * 256)\<rparr>"
  show "regions_ok (m'\<lparr>symrgtbl := (symrgtbl m)[nat rgid := \<lparr>rg_start = sbrk vma, rg_end = e, valid = 1\<rparr>], mmap := [?vma]\<rparr>)"
  proof (rule regions_install [OF vma(5) rgid])
    have mono: "rg_below (sbrk vma) rg \<Longrightarrow> rg_below e rg" for rg
      using e sz(1) by (auto simp: rg_below_def word_le_def)
    show "\<forall>rg\<in>set (vm_freerg_list ?vma). rg_below (sbrk ?vma) rg"
      "\<forall>rg\<in>set (symrgtbl m). valid rg \<noteq> 0 \<longrightarrow> rg_below (sbrk ?vma) rg"
      using vma(3,4) mono by auto
    show "sbrk vma \<le> e" using e sz(1) by (simp add: word_le_def)
    show "uint (vm_end ?vma) = 256 * (current_max_pgn (m'\<lparr>symrgtbl := (symrgtbl m)[nat rgid :=
        \<lparr>rg_start = sbrk vma, rg_end = e, valid = 1\<rparr>], mmap := [?vma]\<rparr>) + 1)"
      using new_end vma(2) m' by simp
    show "sbrk ?vma \<le> vm_end ?vma" using new_end e vma(2) n(3) by (simp add: word_le_def)
    show "(\<Sum>rg\<leftarrow>symrgtbl m. live_at b rg) + (\<Sum>rg\<leftarrow>vm_freerg_list ?vma. free_at b rg)
      + (if uint (sbrk vma) \<le> b \<and> b < uint e then 1 else 0) \<le> 1" for b
      using owners_above [OF rok m, of b e] by simp
  qed (use vma in simp_all)
qed

text \<open>The three ways \<open>__alloc\<close> gives a region away: out of the free list, between \<open>sbrk\<close>
and the end of the area, and in a grown area.\<close>

lemma alloc_from_list:
  assumes ok: "mm_ok R S c" and m: "mmap (vmm c) = [vma]" and rgid: "0 \<le> rgid" "rgid < 30" and sz: "0 \<le> sz"
    and fits: "get_free_vmrg_area (vmm c) 0 sz = Some (0, Some (s, e), set_vma (vmm c) 0 (vma\<lparr>vm_freerg_list := fl\<rparr>))"
      "uint e = uint s + sz" "e \<le> sbrk vma" "\<forall>rg\<in>set fl. rg_below (sbrk vma) rg"
      "\<And>b. (\<Sum>rg\<leftarrow>vm_freerg_list vma. free_at b rg) = (\<Sum>rg\<leftarrow>fl. free_at b rg) + (if uint s \<le> b \<and> b < uint e then 1 else 0)"
  shows "\<exists>x c'. mm_alloc c 0 rgid sz = Some (0, x, c') \<and> mm_ok R S c' \<and> allocated R S c rgid sz c'"
proof -
  have rok: "regions_ok (vmm c)" using ok by (simp add: mm_ok_def)
  note vma = regions_vma [OF rok m]
  let ?m = "(vmm c)\<lparr>mmap := [vma\<lparr>vm_freerg_list := fl\<rparr>],
      symrgtbl := (symrgtbl (vmm c))[nat rgid := \<lparr>rg_start = s, rg_end = e, valid = 1\<rparr>]\<rparr>"
  have "mm_alloc c 0 rgid sz = Some (0, Some (int_of_ulong s), c\<lparr>vmm := ?m\<rparr>)"
    using fits(1) m vma(6) rgid by (simp add: mm_alloc_def set_vma_def set_symbol_put)
  moreover have "regions_ok ?m"
  proof (rule regions_install [OF vma(6) rgid])
    show "s \<le> e" using fits(2) sz by (simp add: word_le_def)
    show "(\<Sum>rg\<leftarrow>symrgtbl (vmm c). live_at b rg) + (\<Sum>rg\<leftarrow>vm_freerg_list (vma\<lparr>vm_freerg_list := fl\<rparr>). free_at b rg)
      + (if uint s \<le> b \<and> b < uint e then 1 else 0) \<le> 1" for b
      using vma(7) [of b] fits(5) [of b] by simp
  qed (use fits vma in simp_all)
  ultimately show ?thesis using allocated_meta [OF ok, of ?m rgid s e sz] fits(2) by simp
qed

lemma alloc_from_gap:
  assumes ok: "mm_ok R S c" and m: "mmap (vmm c) = [vma]" and rgid: "0 \<le> rgid" "rgid < 30"
    and sz: "0 \<le> sz" "uint (sbrk vma) + sz \<le> 2 ^ 22" and none: "get_free_vmrg_area (vmm c) 0 sz = Some (-1, x, vmm c)"
    and gap: "sbrk vma + ulong_of_int sz \<le> vm_end vma"
  shows "\<exists>x c'. mm_alloc c 0 rgid sz = Some (0, x, c') \<and> mm_ok R S c' \<and> allocated R S c rgid sz c'"
proof -
  have rok: "regions_ok (vmm c)" using ok by (simp add: mm_ok_def)
  note vma = regions_vma [OF rok m] and add = new_brk(1) [OF sz]
  let ?e = "sbrk vma + ulong_of_int sz"
  let ?m = "(vmm c)\<lparr>symrgtbl := (symrgtbl (vmm c))[nat rgid := \<lparr>rg_start = sbrk vma, rg_end = ?e, valid = 1\<rparr>],
    mmap := [vma\<lparr>sbrk := ?e\<rparr>]\<rparr>"
  have "mm_alloc c 0 rgid sz = Some (0, None, c\<lparr>vmm := ?m\<rparr>)"
    using none gap m vma(6) rgid by (simp add: mm_alloc_def set_vma_def set_symbol_put Let_def)
  moreover have "regions_ok ?m"
  proof (rule regions_install [OF vma(6) rgid])
    have mono: "rg_below (sbrk vma) rg \<Longrightarrow> rg_below ?e rg" for rg
      using add sz(1) by (auto simp: rg_below_def word_le_def)
    show "\<forall>rg\<in>set (vm_freerg_list (vma\<lparr>sbrk := ?e\<rparr>)). rg_below (sbrk (vma\<lparr>sbrk := ?e\<rparr>)) rg"
      "\<forall>rg\<in>set (symrgtbl (vmm c)). valid rg \<noteq> 0 \<longrightarrow> rg_below (sbrk (vma\<lparr>sbrk := ?e\<rparr>)) rg"
      using vma(4,5) mono by auto
    show "sbrk vma \<le> ?e" using add sz(1) by (simp add: word_le_def)
    show "(\<Sum>rg\<leftarrow>symrgtbl (vmm c). live_at b rg) + (\<Sum>rg\<leftarrow>vm_freerg_list (vma\<lparr>sbrk := ?e\<rparr>). free_at b rg)
      + (if uint (sbrk vma) \<le> b \<and> b < uint ?e then 1 else 0) \<le> 1" for b
      using owners_above [OF rok m, of b ?e] by simp
  qed (use gap vma in simp_all)
  ultimately show ?thesis using allocated_meta [OF ok, of ?m rgid "sbrk vma" ?e sz] add by simp
qed

lemma alloc_grown:
  assumes ok: "mm_ok R S c" and m: "mmap (vmm c) = [vma]" and rgid: "0 \<le> rgid" "rgid < 30"
    and sz: "0 \<le> sz" "uint (sbrk vma) + sz \<le> 2 ^ 22" and none: "get_free_vmrg_area (vmm c) 0 sz = Some (-1, x, vmm c)"
    and grow: "uint (vm_end vma) < uint (sbrk vma) + sz"
  defines "d \<equiv> uint (sbrk vma) + sz - uint (vm_end vma)"
  defines "n \<equiv> (d + 255) div 256"
  assumes inc: "increase_vma_limit c 0 d sz = Some (0, c')" "vm_ok R S c'" "view_grows R S c n c'"
  shows "\<exists>x c'. mm_alloc c 0 rgid sz = Some (0, x, c') \<and> mm_ok R S c' \<and> allocated R S c rgid sz c'"
proof -
  have rok: "regions_ok (vmm c)" using ok by (simp add: mm_ok_def)
  note vma = regions_vma [OF rok m] and brk = new_brk [OF sz]
  note new = new_pages [OF rok m sz grow, folded d_def, folded n_def]
  let ?e = "sbrk vma + ulong_of_int sz"
  let ?c = "c'\<lparr>vmm := (vmm c')\<lparr>symrgtbl := (symrgtbl (vmm c))[nat rgid := \<lparr>rg_start = sbrk vma, rg_end = ?e, valid = 1\<rparr>],
    mmap := [vma\<lparr>sbrk := ?e, vm_end := vm_end vma + ulong_of_int (n * 256)\<rparr>]\<rparr>\<rparr>"
  have mm: "mmap (vmm c') = [vma]" "symrgtbl (vmm c') = symrgtbl (vmm c)"
    "current_max_pgn (vmm c') = current_max_pgn (vmm c) + n" using inc(3) m by (simp_all add: view_grows_def)
  have words: "ulong_of_int (uint (sbrk vma)) = sbrk vma" "ulong_of_int (uint (sbrk vma) + sz) = ?e"
    by (simp_all add: conv_simps)
  have same: "c\<lparr>vmm := vmm c\<rparr> = c" and more: "\<not> ?e \<le> vm_end vma" using grow brk(1) by (simp_all add: word_le_def)
  have run: "mm_alloc c 0 rgid sz = Some (0, Some (uint (sbrk vma)), ?c)"
    using none m more brk(2,3) brk(4) [OF grow, folded d_def] inc(1) new(1) mm words vma(6) rgid
    by (simp add: mm_alloc_def set_vma_def set_symbol_put Let_def same)
  have n: "0 \<le> n" using new(2) by simp
  note regions = regions_grown(1) [OF rok m rgid sz n new(4,5) mm(3)]
  have meta: "vm_ok R S ?c = vm_ok R S c'" "vread ?c = vread c'" "vdom ?c = vdom c'" by (rule meta_change; simp)+
  have "vdom c \<subseteq> vdom c'" using mm(3) n by (auto simp: vdom_def PAGING_PAGESZ_def)
  moreover have "others_kept R S c ?c" using others_kept_simps(2) [OF inc(3)] by (simp add: others_kept_def)
  ultimately have "allocated R S c rgid sz ?c"
    using inc(3) brk(1) unfolding allocated_def meta by (auto simp: view_grows_def)
  then show ?thesis using run inc(2) regions meta by (simp add: mm_ok_def)
qed

lemma mm_alloc_cases:
  assumes ok: "mm_ok R S c" and m: "mmap (vmm c) = [vma]" and rgid: "0 \<le> rgid" "rgid < 30"
    and sz: "0 \<le> sz" "uint (sbrk vma) + sz \<le> 2 ^ 22"
  obtains (failed) r c' where "mm_alloc c 0 rgid sz = Some (r, None, c')"
      "r = ERR_LACK_MEM_RAM \<or> r = ERR_LACK_MEM_SWP" "mm_ok R S c'" "view_becomes R S c (vread c) c'"
  | (done_ok) x c' where "mm_alloc c 0 rgid sz = Some (0, x, c')" "mm_ok R S c'" "allocated R S c rgid sz c'"
proof -
  have rok: "regions_ok (vmm c)" using ok by (simp add: mm_ok_def)
  note brk = new_brk [OF sz]
  from rok m sz show ?thesis
  proof (cases rule: get_free_vmrg_area_cases)
    case (fits s e fl)
    show ?thesis using alloc_from_list [OF ok m rgid sz(1) fits] done_ok by blast
  next
    case (none x)
    show ?thesis
    proof (cases "sbrk vma + ulong_of_int sz \<le> vm_end vma")
      case True
      show ?thesis using alloc_from_gap [OF ok m rgid sz none True] done_ok by blast
    next
      case False
      then have grow: "uint (vm_end vma) < uint (sbrk vma) + sz" using brk(1) by (simp add: word_le_def)
      have same: "c\<lparr>vmm := vmm c\<rparr> = c" by simp
      from ok m sz grow show ?thesis
      proof (cases rule: increase_vma_limit_cases)
        case (failed r c')
        have "mm_alloc c 0 rgid sz = Some (r, None, c')"
          using none m False brk(4) [OF grow] failed(1,2) by (auto simp: mm_alloc_def Let_def same err_defs)
        moreover have "regions_ok (vmm c')"
          using rok failed(4) by (simp add: regions_ok_def owners_def view_becomes_def)
        ultimately show ?thesis using that(1) failed by (simp add: mm_ok_def)
      next
        case (grown c')
        show ?thesis using alloc_grown [OF ok m rgid sz none grow grown(1-3)] done_ok by blast
      qed
    qed
  qed
qed

section \<open>Release and access\<close>

text \<open>How often the byte \<open>b\<close> is in the free list.\<close>

definition times_free :: "mm_struct \<Rightarrow> int \<Rightarrow> int" where
  "times_free m b = (\<Sum>rg\<leftarrow>vm_freerg_list (hd (mmap m)). free_at b rg)"

lemma mm_free_spec:
  assumes ok: "mm_ok R S c" and rgid: "0 \<le> rgid" "rgid < 30" and v: "valid (symrgtbl (vmm c) ! nat rgid) \<noteq> 0"
  obtains c' where "mm_free c 0 rgid = Some (0, c')" "mm_ok R S c'" "view_becomes R S c (vread c) (c'\<lparr>vmm := vmm c\<rparr>)"
    "vread c' = vread c" "vdom c' = vdom c" "others_kept R S c c'" "ready c' = ready c"
    "symrgtbl (vmm c') = (symrgtbl (vmm c))[nat rgid := (symrgtbl (vmm c) ! nat rgid)\<lparr>valid := 0\<rparr>]"
    "\<exists>fl. mmap (vmm c') = [hd (mmap (vmm c))\<lparr>vm_freerg_list := fl\<rparr>]"
    "\<forall>b. times_free (vmm c') b = times_free (vmm c) b + live_at b (symrgtbl (vmm c) ! nat rgid)"
    "\<forall>b\<in>rg_bytes (symrgtbl (vmm c) ! nat rgid). times_free (vmm c) b = 0"
proof -
  have rok: "regions_ok (vmm c)" using ok by (simp add: mm_ok_def)
  then obtain vma where m: "mmap (vmm c) = [vma]" by (auto simp: regions_ok_def)
  note vma = regions_vma [OF rok m]
  have i: "nat rgid < length (symrgtbl (vmm c))" using rgid vma(6) by simp
  define rg where "rg = symrgtbl (vmm c) ! nat rgid"
  have rg: "rg \<in> set (symrgtbl (vmm c))" "valid rg \<noteq> 0" using i v by (simp_all add: rg_def)
  define new where "new = \<lparr>rg_start = rg_start rg, rg_end = rg_end rg, valid = 0\<rparr>"
  define fl where "fl = (if rg_start rg \<ge> rg_end rg then vm_freerg_list vma else new # vm_freerg_list vma)"
  let ?tbl = "(symrgtbl (vmm c))[nat rgid := rg\<lparr>valid := 0\<rparr>]"
  let ?m = "(vmm c)\<lparr>symrgtbl := ?tbl, mmap := [vma\<lparr>vm_freerg_list := fl\<rparr>]\<rparr>"
  have run: "mm_free c 0 rgid = Some (0, c\<lparr>vmm := ?m\<rparr>)"
    using rgid vma(6) m
    by (simp add: mm_free_def get_symbol_region_by_id_def PAGING_MAX_SYMTBL_SZ_def arr_simps Let_def
        enlist_vm_freerg_list_def rg_def [symmetric] new_def fl_def)
  have live: "(\<Sum>rg\<leftarrow>?tbl. live_at b rg) = (\<Sum>rg\<leftarrow>symrgtbl (vmm c). live_at b rg) - live_at b rg" for b
    using sum_list_map_update [OF i, of "live_at b" "rg\<lparr>valid := 0\<rparr>"]
    by (simp add: rg_def [symmetric] live_at_def)
  have free: "(\<Sum>rg\<leftarrow>fl. free_at b rg) = (\<Sum>rg\<leftarrow>vm_freerg_list vma. free_at b rg) + live_at b rg" for b
    using rg(2) by (auto simp: fl_def free_at_def live_at_def rg_bytes_def new_def word_le_def)
  have "owners ?m b \<le> 1" for b using vma(7) [of b] live [of b] free [of b] by (simp add: owners_def)
  moreover have "\<forall>r\<in>set fl. rg_below (sbrk vma) r"
    using vma(4,5) rg by (auto simp: fl_def new_def rg_below_def)
  moreover have "valid r \<noteq> 0 \<longrightarrow> rg_below (sbrk vma) r" if "r \<in> set ?tbl" for r
    using that vma(5) set_update_subset_insert [of "symrgtbl (vmm c)"] by fastforce
  ultimately have reg: "regions_ok ?m"
    using vma by (simp add: regions_ok_def PAGING_MAX_SYMTBL_SZ_def PAGING_PAGESZ_def)
  have meta: "vm_ok R S (c\<lparr>vmm := ?m\<rparr>) = vm_ok R S c" "vread (c\<lparr>vmm := ?m\<rparr>) = vread c"
      "vdom (c\<lparr>vmm := ?m\<rparr>) = vdom c" "ready (c\<lparr>vmm := ?m\<rparr>) = ready c"
    by (rule meta_change; simp)+
  show ?thesis
  proof (rule that [OF run])
    show "mm_ok R S (c\<lparr>vmm := ?m\<rparr>)" using ok reg by (simp add: mm_ok_def meta)
    show "view_becomes R S c (vread c) (c\<lparr>vmm := ?m\<rparr>\<lparr>vmm := vmm c\<rparr>)"
      by (simp add: same_view_becomes [symmetric])
    show "symrgtbl (vmm (c\<lparr>vmm := ?m\<rparr>)) = (symrgtbl (vmm c))[nat rgid := (symrgtbl (vmm c) ! nat rgid)\<lparr>valid := 0\<rparr>]"
      by (simp add: rg_def)
    show "\<exists>fl. mmap (vmm (c\<lparr>vmm := ?m\<rparr>)) = [hd (mmap (vmm c))\<lparr>vm_freerg_list := fl\<rparr>]" using m by auto
    show "\<forall>b. times_free (vmm (c\<lparr>vmm := ?m\<rparr>)) b = times_free (vmm c) b + live_at b (symrgtbl (vmm c) ! nat rgid)"
      using free by (simp add: times_free_def m rg_def)
    show "\<forall>b\<in>rg_bytes (symrgtbl (vmm c) ! nat rgid). times_free (vmm c) b = 0"
    proof
      fix b assume b: "b \<in> rg_bytes (symrgtbl (vmm c) ! nat rgid)"
      have "1 \<le> (\<Sum>rg\<leftarrow>symrgtbl (vmm c). live_at b rg)"
        using b rg(2) member_le_sum_list_int [OF rg(1), of "live_at b"] by (simp add: live_at_def flip: rg_def)
      then have "(\<Sum>rg\<leftarrow>vm_freerg_list vma. free_at b rg) = 0"
        using vma(7) [of b] sum_free_nonneg [of b "vm_freerg_list vma"] by linarith
      then show "times_free (vmm c) b = 0" by (simp add: times_free_def m)
    qed
  qed (simp_all add: meta)
qed

text \<open>The address test: an offset is an \<open>int\<close>, the sum is unsigned.\<close>

lemma check_access_valid:
  assumes ok: "mm_ok R S c" and rgid: "0 \<le> rgid" "rgid < 30"
    and v: "valid (symrgtbl (vmm c) ! nat rgid) \<noteq> 0" and off: "- (2 ^ 31) \<le> off" "off < 2 ^ 31"
  defines "a \<equiv> uint (rg_start (symrgtbl (vmm c) ! nat rgid)) + off"
  shows "check_access (vmm c) 0 rgid off =
     Some (if 0 \<le> a \<and> a < uint (sbrk (hd (mmap (vmm c)))) then Inr a else Inl ERR_INVALID_ACCESS)"
    and "0 \<le> a \<Longrightarrow> a < uint (sbrk (hd (mmap (vmm c)))) \<Longrightarrow> a \<in> vdom c \<and> in_bus a"
proof -
  have rok: "regions_ok (vmm c)" and vok: "vm_ok R S c" using ok by (simp_all add: mm_ok_def)
  from rok obtain vma where m: "mmap (vmm c) = [vma]" and vma: "vm_start vma = 0"
    "uint (vm_end vma) = 256 * (current_max_pgn (vmm c) + 1)" "sbrk vma \<le> vm_end vma"
    "\<forall>rg\<in>set (symrgtbl (vmm c)). valid rg \<noteq> 0 \<longrightarrow> rg_below (sbrk vma) rg"
    "int (length (symrgtbl (vmm c))) = 30"
    using regions_okD [OF rok] by metis
  define rg where "rg = symrgtbl (vmm c) ! nat rgid"
  have i: "nat rgid < length (symrgtbl (vmm c))" using rgid vma(5) by simp
  then have "rg_below (sbrk vma) rg" using vma(4) v by (simp add: rg_def)
  then have below: "uint (rg_start rg) \<le> uint (sbrk vma)" by (auto simp: rg_below_def word_le_def)
  have sb: "uint (sbrk vma) \<le> 2 ^ 22"
    using vma(2,3) vm_ok_max [OF vok] by (simp add: word_le_def PAGING_MAX_PGN_def)
  let ?w = "rg_start rg + ulong_of_int off"
  have a: "a = uint (rg_start rg) + off" by (simp add: a_def rg_def)
  have w: "uint ?w = a mod 2 ^ 64"
    by (simp add: a conv_simps uint_word_ariths uint_word_of_int mod_simps)
  have range: "- (2 ^ 31) \<le> a" "a < 2 ^ 22 + 2 ^ 31"
    using off below sb uint_ge_0 [of "rg_start rg"] unfolding a by linarith+
  have w_lt: "?w < sbrk vma \<longleftrightarrow> 0 \<le> a \<and> a < uint (sbrk vma)"
  proof (cases "0 \<le> a")
    case True
    then have "uint ?w = a" using w range(2) by simp
    then show ?thesis using True by (simp add: word_less_def)
  next
    case False
    then have "(a + 2 ^ 64) mod 2 ^ 64 = a + 2 ^ 64" using range(1) by (intro mod_pos_pos_trivial) simp_all
    then have "uint ?w = a + 2 ^ 64" using w by simp
    then show ?thesis using False range(1) sb by (simp add: word_less_def)
  qed
  have conv: "int_of_ulong ?w = a" if "0 \<le> a" "a < uint (sbrk vma)"
  proof -
    have "a < 2 ^ 22" using that(2) sb by linarith
    then have "uint ?w = a" using w that(1) by simp
    with \<open>a < 2 ^ 22\<close> show ?thesis by (subst int_of_ulong_small) simp_all
  qed
  show "check_access (vmm c) 0 rgid off =
     Some (if 0 \<le> a \<and> a < uint (sbrk (hd (mmap (vmm c)))) then Inr a else Inl ERR_INVALID_ACCESS)"
    using rgid vma(1,5) m w_lt conv v
    by (simp add: check_access_def get_symbol_region_by_id_def PAGING_MAX_SYMTBL_SZ_def arr_simps Let_def
        rg_def [symmetric] linorder_not_less [symmetric] del: linorder_not_less linorder_not_le)
  show "a \<in> vdom c \<and> in_bus a" if "0 \<le> a" "a < uint (sbrk (hd (mmap (vmm c))))"
    using that m vma(2,3) sb by (simp add: vdom_def PAGING_PAGESZ_def in_bus_def word_le_def)
qed

lemma regions_apart:
  assumes ok: "mm_ok R S c" and ij: "i \<noteq> j" "i < length (symrgtbl (vmm c))" "j < length (symrgtbl (vmm c))"
    and v: "valid (symrgtbl (vmm c) ! i) \<noteq> 0" "valid (symrgtbl (vmm c) ! j) \<noteq> 0"
  shows "rg_bytes (symrgtbl (vmm c) ! i) \<inter> rg_bytes (symrgtbl (vmm c) ! j) = {}"
proof (rule ccontr)
  assume "rg_bytes (symrgtbl (vmm c) ! i) \<inter> rg_bytes (symrgtbl (vmm c) ! j) \<noteq> {}"
  then obtain b where b: "b \<in> rg_bytes (symrgtbl (vmm c) ! i)" "b \<in> rg_bytes (symrgtbl (vmm c) ! j)" by blast
  let ?xs = "symrgtbl (vmm c)" and ?z = "\<lparr>rg_start = 0, rg_end = 0, valid = 0\<rparr>"
  have z: "live_at b ?z = 0" by (simp add: live_at_def)
  have "(\<Sum>rg\<leftarrow>?xs[i := ?z, j := ?z]. live_at b rg) = (\<Sum>rg\<leftarrow>?xs. live_at b rg) - 2"
    using sum_list_map_update [of i ?xs "live_at b" ?z] sum_list_map_update [of j "?xs[i := ?z]" "live_at b" ?z]
      ij b v by (simp add: live_at_def)
  then have "2 \<le> (\<Sum>rg\<leftarrow>?xs. live_at b rg)" using sum_live_nonneg [of b "?xs[i := ?z, j := ?z]"] by linarith
  moreover have "owners (vmm c) b \<le> 1" using ok by (simp add: mm_ok_def regions_ok_def)
  ultimately show False
    using sum_free_nonneg [of b "vm_freerg_list (hd (mmap (vmm c)))"] by (simp add: owners_def)
qed


section \<open>Properties\<close>

text \<open>A process with two regions and a freed one between them, on the pages of the paging example.\<close>

definition rg0 :: vm_rg_struct where "rg0 = \<lparr>rg_start = 0, rg_end = 0, valid = 0\<rparr>"

definition proc_mm :: mm_struct where
  "proc_mm = sample_mm
     \<lparr>mmap := [\<lparr>vm_id = 1, vm_start = 0, vm_end = 768, sbrk = 700,
                vm_freerg_list = [\<lparr>rg_start = 100, rg_end = 200, valid = 0\<rparr>]\<rparr>],
      symrgtbl := \<lparr>rg_start = 0, rg_end = 100, valid = 1\<rparr> # \<lparr>rg_start = 200, rg_end = 700, valid = 1\<rparr>
        # replicate 28 rg0\<rparr>"

definition proc_ctx :: vmctx where
  "proc_ctx = \<lparr>vmm = proc_mm, vram = sample_ram, vswp = sample_swp\<rparr>"

lemma proc_ok: "mm_ok {} {} proc_ctx" "ready proc_ctx"
proof -
  have eq: "proc_ctx = sample_ctx\<lparr>vmm := proc_mm\<rparr>" by (simp add: proc_ctx_def sample_ctx_def)
  have meta: "vm_ok {} {} proc_ctx = vm_ok {} {} sample_ctx" "ready proc_ctx = ready sample_ctx"
    unfolding eq by (rule meta_change; simp add: proc_mm_def sample_ctx_def)+
  have zero: "live_at b rg0 = 0" for b by (simp add: live_at_def rg0_def)
  have "owners proc_mm b \<le> 1" for b
    by (simp add: owners_def proc_mm_def sum_list_replicate zero map_replicate)
      (simp add: live_at_def free_at_def rg_bytes_def)
  then have "regions_ok proc_mm"
    by (simp add: regions_ok_def)
      (simp add: proc_mm_def sample_mm_def PAGING_MAX_SYMTBL_SZ_def PAGING_PAGESZ_def rg_below_def rg0_def)
  then show "mm_ok {} {} proc_ctx" using sample_ok meta by (simp add: mm_ok_def proc_ctx_def)
  show "ready proc_ctx" using sample_ok meta by simp
qed

text \<open>
  C5: allocation is safe. From any well-formed process and for any size that fits the 22-bit
  address space, a call either fails for lack of RAM or swap and changes no region and no
  byte the process reads (its pages may have moved between RAM and swap meanwhile), or makes
  the symbol name a region of exactly the requested size; the regions in use and the free
  regions still never overlap (the invariant), every old byte is where it was, new pages
  are zero, and no frame of another process changes.
\<close>

theorem mm_alloc_correct:
  assumes "mm_ok R S c" and "0 \<le> rgid" and "rgid < PAGING_MAX_SYMTBL_SZ" and "0 \<le> sz"
    and "uint (sbrk (hd (mmap (vmm c)))) + sz \<le> 2 ^ 22"
  shows "\<exists>r x c'. mm_alloc c 0 rgid sz = Some (r, x, c') \<and> mm_ok R S c'
    \<and> (if r = 0 then allocated R S c rgid sz c'
       else (r = ERR_LACK_MEM_RAM \<or> r = ERR_LACK_MEM_SWP) \<and> view_becomes R S c (vread c) c')"
proof -
  from assms(1) obtain vma where m: "mmap (vmm c) = [vma]"
    by (auto simp: mm_ok_def regions_ok_def)
  have r: "rgid < 30" and fits: "uint (sbrk vma) + sz \<le> 2 ^ 22"
    using assms(3,5) m by (simp_all add: PAGING_MAX_SYMTBL_SZ_def)
  from assms(1) m assms(2) r assms(4) fits show ?thesis
  proof (cases rule: mm_alloc_cases)
    case (failed r c')
    then have "r \<noteq> 0" by (auto simp: err_defs)
    with failed show ?thesis by auto
  qed auto
qed

theorem mm_alloc_correct_witness:
  "\<exists>r x c'. mm_alloc proc_ctx 0 5 1000 = Some (r, x, c') \<and> mm_ok {} {} c'"
proof -
  have "uint (sbrk (hd (mmap (vmm proc_ctx)))) = 700" by (simp add: proc_ctx_def proc_mm_def)
  then show ?thesis
    using mm_alloc_correct [OF proc_ok(1), of 5 1000] by (auto simp: PAGING_MAX_SYMTBL_SZ_def)
qed

text \<open>
  Two different symbols in use never name a common byte, and none names a byte of the
  free list.
\<close>

theorem symbols_never_overlap:
  assumes "mm_ok R S c" and "i < length (symrgtbl (vmm c))" and "valid (symrgtbl (vmm c) ! i) \<noteq> 0"
  shows "(\<forall>j<length (symrgtbl (vmm c)). j \<noteq> i \<longrightarrow> valid (symrgtbl (vmm c) ! j) \<noteq> 0 \<longrightarrow>
      rg_bytes (symrgtbl (vmm c) ! i) \<inter> rg_bytes (symrgtbl (vmm c) ! j) = {})
    \<and> (\<forall>rg\<in>set (vm_freerg_list (hd (mmap (vmm c)))). rg_bytes (symrgtbl (vmm c) ! i) \<inter> rg_bytes rg = {})"
proof -
  have "rg_bytes (symrgtbl (vmm c) ! i) \<inter> rg_bytes rg = {}"
    if rg: "rg \<in> set (vm_freerg_list (hd (mmap (vmm c))))" for rg
  proof (rule ccontr)
    assume "rg_bytes (symrgtbl (vmm c) ! i) \<inter> rg_bytes rg \<noteq> {}"
    then obtain b where b: "b \<in> rg_bytes (symrgtbl (vmm c) ! i)" "b \<in> rg_bytes rg" by blast
    have "live_at b (symrgtbl (vmm c) ! i) \<le> (\<Sum>rg\<leftarrow>symrgtbl (vmm c). live_at b rg)"
      using assms(2) by (intro member_le_sum_list_int) auto
    moreover have "free_at b rg \<le> (\<Sum>rg\<leftarrow>vm_freerg_list (hd (mmap (vmm c))). free_at b rg)"
      using rg by (intro member_le_sum_list_int) auto
    moreover have "owners (vmm c) b \<le> 1" using assms(1) by (simp add: mm_ok_def regions_ok_def)
    ultimately show False using b assms(3) by (simp add: owners_def live_at_def free_at_def)
  qed
  then show ?thesis using regions_apart [OF assms(1) _ assms(2) _ assms(3)]
    by (intro conjI allI impI ballI) auto
qed

theorem symbols_never_overlap_witness:
  "rg_bytes (symrgtbl proc_mm ! 0) \<inter> rg_bytes (symrgtbl proc_mm ! 1) = {}"
proof -
  have "length (symrgtbl (vmm proc_ctx)) = 30" "valid (symrgtbl (vmm proc_ctx) ! 0) \<noteq> 0"
      "valid (symrgtbl (vmm proc_ctx) ! 1) \<noteq> 0" "vmm proc_ctx = proc_mm"
    by (simp_all add: proc_ctx_def proc_mm_def)
  then show ?thesis
    using symbols_never_overlap [OF proc_ok(1), of 0] by (auto dest: spec [of _ 1])
qed

text \<open>
  C19: freeing a region in use gives its bytes back and nothing else changes: the symbol is
  no longer in use, every byte of its region, which was not in the free list, is now in it
  exactly once, every other byte is in it as often as before, the area is otherwise the
  same, the invariant holds, and every byte of memory is as it was.
\<close>

theorem mm_free_correct:
  assumes "mm_ok R S c" and "0 \<le> rgid" and "rgid < PAGING_MAX_SYMTBL_SZ"
    and "valid (symrgtbl (vmm c) ! nat rgid) \<noteq> 0"
  defines "rg \<equiv> symrgtbl (vmm c) ! nat rgid"
  shows "\<exists>c'. mm_free c 0 rgid = Some (0, c') \<and> mm_ok R S c' \<and> others_kept R S c c'
    \<and> valid (symrgtbl (vmm c') ! nat rgid) = 0 \<and> vdom c' = vdom c \<and> vread c' = vread c
    \<and> (\<forall>j. j \<noteq> nat rgid \<longrightarrow> symrgtbl (vmm c') ! j = symrgtbl (vmm c) ! j)
    \<and> (\<exists>fl. mmap (vmm c') = [hd (mmap (vmm c))\<lparr>vm_freerg_list := fl\<rparr>])
    \<and> (\<forall>b. times_free (vmm c') b = (if b \<in> rg_bytes rg then 1 else times_free (vmm c) b))
    \<and> (\<forall>b\<in>rg_bytes rg. times_free (vmm c) b = 0)"
proof -
  have r: "rgid < 30" using assms(3) by (simp add: PAGING_MAX_SYMTBL_SZ_def)
  have len: "int (length (symrgtbl (vmm c))) = 30"
    using assms(1) by (simp add: mm_ok_def regions_ok_def PAGING_MAX_SYMTBL_SZ_def)
  obtain c' where c': "mm_free c 0 rgid = Some (0, c')" "mm_ok R S c'" "vread c' = vread c" "vdom c' = vdom c"
    "others_kept R S c c'" "symrgtbl (vmm c') = (symrgtbl (vmm c))[nat rgid := rg\<lparr>valid := 0\<rparr>]"
    "\<exists>fl. mmap (vmm c') = [hd (mmap (vmm c))\<lparr>vm_freerg_list := fl\<rparr>]"
    and free: "\<forall>b. times_free (vmm c') b = times_free (vmm c) b + live_at b rg"
      "\<forall>b\<in>rg_bytes rg. times_free (vmm c) b = 0"
    unfolding rg_def by (rule mm_free_spec [OF assms(1,2) r assms(4)])
  have "nat rgid < length (symrgtbl (vmm c))" using len r assms(2) by simp
  moreover have "times_free (vmm c') b = (if b \<in> rg_bytes rg then 1 else times_free (vmm c) b)" for b
    using free assms(4) by (simp add: live_at_def rg_def)
  ultimately show ?thesis using c' free(2) by (intro exI [of _ c']) simp
qed

theorem mm_free_correct_witness:
  "\<exists>c'. mm_free proc_ctx 0 1 = Some (0, c') \<and> mm_ok {} {} c' \<and> vread c' = vread proc_ctx
     \<and> times_free (vmm proc_ctx) 250 = 0 \<and> times_free (vmm c') 250 = 1"
proof -
  have v: "valid (symrgtbl (vmm proc_ctx) ! nat 1) \<noteq> 0" "250 \<in> rg_bytes (symrgtbl (vmm proc_ctx) ! nat 1)"
    by (simp_all add: proc_ctx_def proc_mm_def rg_bytes_def)
  then show ?thesis using mm_free_correct [OF proc_ok(1), of 1] by (auto simp: PAGING_MAX_SYMTBL_SZ_def)
qed

lemma mm_read_spec:
  assumes "mm_ok R S c" and "0 \<le> rgid" and "rgid < PAGING_MAX_SYMTBL_SZ" and "- (2 ^ 31) \<le> off" and "off < 2 ^ 31"
  defines "rg \<equiv> symrgtbl (vmm c) ! nat rgid"
  defines "a \<equiv> uint (rg_start rg) + off"
  shows "if valid rg = 0 then mm_read c 0 rgid off = Some (ERR_RW_UNDEFINED, None, c)
    else if a < 0 \<or> uint (sbrk (hd (mmap (vmm c)))) \<le> a then mm_read c 0 rgid off = Some (ERR_INVALID_ACCESS, None, c)
    else \<exists>r v c'. mm_read c 0 rgid off = Some (r, v, c') \<and> mm_ok R S c' \<and> view_becomes R S c (vread c) c'
      \<and> (if r = 0 then v = Some (vread c a) else r = ERR_SWAPPING \<and> v = None \<and> \<not> ready c)"
proof (cases "valid rg = 0")
  case True
  have rok: "regions_ok (vmm c)" using assms(1) by (simp add: mm_ok_def)
  then obtain vma where "mmap (vmm c) = [vma]" "int (length (symrgtbl (vmm c))) = 30"
    by (auto simp: regions_ok_def PAGING_MAX_SYMTBL_SZ_def)
  with True show ?thesis using assms(2,3)
    by (simp add: mm_read_def check_access_def get_symbol_region_by_id_def PAGING_MAX_SYMTBL_SZ_def arr_simps
        Let_def rg_def)
next
  case False
  have r: "rgid < 30" using assms(3) by (simp add: PAGING_MAX_SYMTBL_SZ_def)
  note chk = check_access_valid [OF assms(1,2) r False [unfolded rg_def] assms(4,5), folded rg_def, folded a_def]
  show ?thesis
  proof (cases "0 \<le> a \<and> a < uint (sbrk (hd (mmap (vmm c))))")
    case False
    with chk(1) \<open>valid rg \<noteq> 0\<close> show ?thesis by (auto simp: mm_read_def)
  next
    case True
    have dom: "a \<in> vdom c" "0 \<le> a" "a < 2 ^ 22" using chk(2) True by (auto simp: in_bus_def)
    have run: "mm_read c 0 rgid off = pg_getval c a" using chk(1) True by (simp add: mm_read_def)
    have keep: "regions_ok (vmm c')" if "view_becomes R S c (vread c) c'" for c'
      using assms(1) that by (simp add: mm_ok_def regions_ok_def owners_def view_becomes_def)
    have "vm_ok R S c" using assms(1) by (simp add: mm_ok_def)
    from this dom(2,3) show ?thesis
    proof (cases rule: pg_getval_spec)
      case unmapped
      with dom(1) show ?thesis by simp
    next
      case (stuck c')
      with keep [of c'] run True False show ?thesis by (auto simp: mm_ok_def err_defs)
    next
      case (loaded c')
      with keep [of c'] run True False show ?thesis by (auto simp: mm_ok_def)
    qed
  qed
qed

lemma mm_read_past_table:
  assumes "mm_ok R S c"
  shows "mm_read c 0 30 off = None"
proof -
  have "regions_ok (vmm c)" using assms by (simp add: mm_ok_def)
  then obtain vma where "mmap (vmm c) = [vma]" "int (length (symrgtbl (vmm c))) = 30"
    by (auto simp: regions_ok_def PAGING_MAX_SYMTBL_SZ_def)
  then show ?thesis
    by (simp add: mm_read_def check_access_def get_symbol_region_by_id_def PAGING_MAX_SYMTBL_SZ_def list_get_def arr_simps)
qed

text \<open>
  C18: what a read returns, for every symbol number and every offset the \<open>int\<close> parameters
  can hold. A number below 0 or above 30 and a symbol that is not in use are refused with
  \<open>ERR_RW_UNDEFINED\<close>; the number 30, which the check of the table lets through, reads past
  the end of the table (undefined behaviour); an address outside \<open>[0, sbrk)\<close> is refused;
  any other address gives the byte there, also when it lies outside the symbol's own
  region, unless its page cannot be brought back from swap. Whatever it returns, a read
  changes no byte.
\<close>

theorem mm_read_exact:
  fixes rgid off :: int
  assumes "mm_ok R S c" and "- (2 ^ 31) \<le> off" and "off < 2 ^ 31"
  defines "rg \<equiv> symrgtbl (vmm c) ! nat rgid"
  defines "a \<equiv> uint (rg_start rg) + off"
  shows "if rgid < 0 \<or> 30 < rgid then mm_read c 0 rgid off = Some (ERR_RW_UNDEFINED, None, c)
    else if rgid = 30 then mm_read c 0 rgid off = None
    else if valid rg = 0 then mm_read c 0 rgid off = Some (ERR_RW_UNDEFINED, None, c)
    else if a < 0 \<or> uint (sbrk (hd (mmap (vmm c)))) \<le> a then mm_read c 0 rgid off = Some (ERR_INVALID_ACCESS, None, c)
    else \<exists>r v c'. mm_read c 0 rgid off = Some (r, v, c') \<and> mm_ok R S c' \<and> view_becomes R S c (vread c) c'
      \<and> (if r = 0 then v = Some (vread c a) else r = ERR_SWAPPING \<and> v = None \<and> \<not> ready c)"
proof -
  have "mm_read c 0 rgid off = Some (ERR_RW_UNDEFINED, None, c)" if "rgid < 0 \<or> 30 < rgid"
    using that by (auto simp: mm_read_def check_access_def get_symbol_region_by_id_def PAGING_MAX_SYMTBL_SZ_def)
  moreover have "mm_read c 0 rgid off = None" if "rgid = 30"
    using mm_read_past_table [OF assms(1)] that by simp
  ultimately show ?thesis
    using mm_read_spec [OF assms(1) _ _ assms(2,3), of rgid] unfolding rg_def a_def PAGING_MAX_SYMTBL_SZ_def by auto
qed

theorem mm_read_exact_witness:
  "\<exists>v c'. mm_read proc_ctx 0 1 300 = Some (0, Some v, c') \<and> mm_read proc_ctx 0 1 500 = Some (ERR_INVALID_ACCESS, None, proc_ctx)
     \<and> mm_read proc_ctx 0 7 0 = Some (ERR_RW_UNDEFINED, None, proc_ctx)
     \<and> mm_read proc_ctx 0 31 0 = Some (ERR_RW_UNDEFINED, None, proc_ctx) \<and> mm_read proc_ctx 0 30 0 = None"
proof -
  have s: "valid (symrgtbl (vmm proc_ctx) ! nat 1) \<noteq> 0" "valid (symrgtbl (vmm proc_ctx) ! nat 7) = 0"
      "uint (rg_start (symrgtbl (vmm proc_ctx) ! nat 1)) = 200" "uint (sbrk (hd (mmap (vmm proc_ctx)))) = 700"
    by (simp_all add: proc_ctx_def proc_mm_def rg0_def)
  have "\<exists>v c'. mm_read proc_ctx 0 1 300 = Some (0, Some v, c')"
    using mm_read_exact [OF proc_ok(1), of 300 1] s proc_ok(2) by (auto split: if_splits)
  moreover have "mm_read proc_ctx 0 1 500 = Some (ERR_INVALID_ACCESS, None, proc_ctx)"
    using mm_read_exact [OF proc_ok(1), of 500 1] s by simp
  moreover have "mm_read proc_ctx 0 7 0 = Some (ERR_RW_UNDEFINED, None, proc_ctx)"
    using mm_read_exact [OF proc_ok(1), of 0 7] s by simp
  moreover have "mm_read proc_ctx 0 31 0 = Some (ERR_RW_UNDEFINED, None, proc_ctx)" "mm_read proc_ctx 0 30 0 = None"
    using mm_read_exact [OF proc_ok(1), of 0 31] mm_read_exact [OF proc_ok(1), of 0 30] by simp_all
  ultimately show ?thesis by blast
qed

lemma mm_write_valid:
  assumes ok: "mm_ok R S c" and ready: "ready c" and rgid: "0 \<le> rgid" "rgid < 30"
    and v: "valid (symrgtbl (vmm c) ! nat rgid) \<noteq> 0" and off: "- (2 ^ 31) \<le> off" "off < 2 ^ 31"
    and a: "a = uint (rg_start (symrgtbl (vmm c) ! nat rgid)) + off" "0 \<le> a" "a < uint (sbrk (hd (mmap (vmm c))))"
  obtains c' where "mm_write c 0 rgid off x = Some (0, c')" "mm_ok R S c'" "ready c'"
    "view_becomes R S c ((vread c)(a := x)) c'" "a \<in> vdom c"
proof -
  note chk = check_access_valid [OF ok rgid v off, folded a(1)]
  have dom: "a \<in> vdom c" "a < 2 ^ 22" using chk(2) a by (auto simp: in_bus_def)
  have run: "mm_write c 0 rgid off x = pg_setval c a x" using chk(1) a by (simp add: mm_write_def)
  have "vm_ok R S c" using ok by (simp add: mm_ok_def)
  from this a(2) dom(2) show ?thesis
  proof (cases rule: pg_setval_spec [where v = x])
    case (loaded c')
    moreover have "regions_ok (vmm c')"
      using ok loaded(4) by (simp add: mm_ok_def regions_ok_def owners_def view_becomes_def)
    ultimately show ?thesis using that [of c'] run ready dom by (simp add: mm_ok_def)
  qed (use dom ready in auto)
qed

lemma mm_read_valid:
  assumes ok: "mm_ok R S c" and ready: "ready c" and rgid: "0 \<le> rgid" "rgid < 30"
    and v: "valid (symrgtbl (vmm c) ! nat rgid) \<noteq> 0" and off: "- (2 ^ 31) \<le> off" "off < 2 ^ 31"
    and a: "a = uint (rg_start (symrgtbl (vmm c) ! nat rgid)) + off" "0 \<le> a" "a < uint (sbrk (hd (mmap (vmm c))))"
  obtains c' where "mm_read c 0 rgid off = Some (0, Some (vread c a), c')"
proof -
  note chk = check_access_valid [OF ok rgid v off, folded a(1)]
  have dom: "a \<in> vdom c" "a < 2 ^ 22" using chk(2) a by (auto simp: in_bus_def)
  have run: "mm_read c 0 rgid off = pg_getval c a" using chk(1) a by (simp add: mm_read_def)
  have "vm_ok R S c" using ok by (simp add: mm_ok_def)
  from this a(2) dom(2) show ?thesis
    by (cases rule: pg_getval_spec) (use that run dom ready in auto)
qed

definition rg_len :: "vm_rg_struct \<Rightarrow> int" where
  "rg_len rg = uint (rg_end rg) - uint (rg_start rg)"

lemma valid_below_sbrk:
  assumes ok: "mm_ok R S c" and i: "0 \<le> i" "i < 30" and v: "valid (symrgtbl (vmm c) ! nat i) \<noteq> 0"
  shows "uint (rg_end (symrgtbl (vmm c) ! nat i)) \<le> uint (sbrk (hd (mmap (vmm c))))"
    and "uint (sbrk (hd (mmap (vmm c)))) \<le> 2 ^ 22"
proof -
  have vok: "vm_ok R S c" and rok: "regions_ok (vmm c)" using ok by (simp_all add: mm_ok_def)
  from rok obtain vma where m: "mmap (vmm c) = [vma]" and vma:
    "uint (vm_end vma) = 256 * (current_max_pgn (vmm c) + 1)" "sbrk vma \<le> vm_end vma"
    "\<forall>rg\<in>set (symrgtbl (vmm c)). valid rg \<noteq> 0 \<longrightarrow> rg_below (sbrk vma) rg" "int (length (symrgtbl (vmm c))) = 30"
    using regions_okD [OF rok] by metis
  have "symrgtbl (vmm c) ! nat i \<in> set (symrgtbl (vmm c))" using i vma(4) by (intro nth_mem) simp
  then have "rg_below (sbrk vma) (symrgtbl (vmm c) ! nat i)" using vma(3) v by blast
  then show "uint (rg_end (symrgtbl (vmm c) ! nat i)) \<le> uint (sbrk (hd (mmap (vmm c))))"
    using m by (simp add: rg_below_def word_le_def)
  show "uint (sbrk (hd (mmap (vmm c)))) \<le> 2 ^ 22"
    using vma(1,2) m vm_ok_max [OF vok] by (simp add: word_le_def PAGING_MAX_PGN_def)
qed

text \<open>
  C6: regions are variables. Writing a byte of one region and reading a byte of the same or
  another region, both within their lengths, gives the byte just written when it is the
  same byte of the same region, and the old byte in every other case, whichever pages had
  to be exchanged with swap on the way.
\<close>

theorem regions_are_variables:
  assumes "mm_ok R S c" and "ready c" and "0 \<le> i" and "i < 30" and "0 \<le> j" and "j < 30"
    and "valid (symrgtbl (vmm c) ! nat i) \<noteq> 0" and "valid (symrgtbl (vmm c) ! nat j) \<noteq> 0"
    and "0 \<le> off" and "off < rg_len (symrgtbl (vmm c) ! nat i)"
    and "0 \<le> off'" and "off' < rg_len (symrgtbl (vmm c) ! nat j)"
  shows "\<exists>c1 c2 old c3. mm_read c 0 j off' = Some (0, Some old, c1)
    \<and> mm_write c 0 i off x = Some (0, c2) \<and> mm_ok R S c2
    \<and> mm_read c2 0 j off' = Some (0, Some (if j = i \<and> off' = off then x else old), c3)"
proof -
  let ?ri = "symrgtbl (vmm c) ! nat i" and ?rj = "symrgtbl (vmm c) ! nat j"
  define a where "a = uint (rg_start ?ri) + off"
  define b where "b = uint (rg_start ?rj) + off'"
  note bi = valid_below_sbrk [OF assms(1,3,4,7)] and bj = valid_below_sbrk [OF assms(1,5,6,8)]
  have a: "0 \<le> a" "a < uint (sbrk (hd (mmap (vmm c))))" "a \<in> rg_bytes ?ri"
    using assms(9,10) bi(1) uint_ge_0 [of "rg_start ?ri"] by (auto simp: a_def rg_len_def rg_bytes_def)
  have b: "0 \<le> b" "b < uint (sbrk (hd (mmap (vmm c))))" "b \<in> rg_bytes ?rj"
    using assms(11,12) bj(1) uint_ge_0 [of "rg_start ?rj"] by (auto simp: b_def rg_len_def rg_bytes_def)
  have "off \<le> 2 ^ 22" "off' \<le> 2 ^ 22"
    using assms(10,12) bi bj uint_ge_0 [of "rg_start ?ri"] uint_ge_0 [of "rg_start ?rj"]
    unfolding rg_len_def by linarith+
  then have off: "- (2 ^ 31) \<le> off" "off < 2 ^ 31" "- (2 ^ 31) \<le> off'" "off' < 2 ^ 31"
    using assms(9,11) by simp_all
  obtain c2 where c2: "mm_write c 0 i off x = Some (0, c2)" "mm_ok R S c2" "ready c2"
    "view_becomes R S c ((vread c)(a := x)) c2" "a \<in> vdom c"
    by (rule mm_write_valid [OF assms(1,2,3,4,7) off(1,2) a_def a(1,2)])
  obtain c1 where c1: "mm_read c 0 j off' = Some (0, Some (vread c b), c1)"
    by (rule mm_read_valid [OF assms(1,2,5,6,8) off(3,4) b_def b(1,2)])
  have same: "symrgtbl (vmm c2) = symrgtbl (vmm c)" "mmap (vmm c2) = mmap (vmm c)"
    using c2(4) by (simp_all add: view_becomes_def)
  have v2: "valid (symrgtbl (vmm c2) ! nat j) \<noteq> 0" using assms(8) same by simp
  have b2: "b = uint (rg_start (symrgtbl (vmm c2) ! nat j)) + off'" "b < uint (sbrk (hd (mmap (vmm c2))))"
    using b b_def same by simp_all
  obtain c3 where c3: "mm_read c2 0 j off' = Some (0, Some (vread c2 b), c3)"
    by (rule mm_read_valid [OF c2(2,3) assms(5,6) v2 off(3,4) b2(1) b(1) b2(2)])
  have "int (length (symrgtbl (vmm c))) = 30"
    using assms(1) by (simp add: mm_ok_def regions_ok_def PAGING_MAX_SYMTBL_SZ_def)
  then have n: "nat i < length (symrgtbl (vmm c))" "nat j < length (symrgtbl (vmm c))"
    using assms(3-6) by simp_all
  have "a \<noteq> b" if "i \<noteq> j"
  proof -
    have "nat i \<noteq> nat j" using that assms(3,5) by simp
    from regions_apart [OF assms(1) this n assms(7,8)] a(3) b(3) show ?thesis by auto
  qed
  then have eq: "b = a \<longleftrightarrow> j = i \<and> off' = off" by (cases "i = j") (auto simp: a_def b_def)
  have "b \<in> vdom c"
    using check_access_valid(2) [OF assms(1,5,6,8) off(3,4), folded b_def] b(1,2) by blast
  then have "vread c2 b = (if b = a then x else vread c b)" using c2(4) by (simp add: view_becomes_def)
  with c1 c2 c3 eq show ?thesis by auto
qed

theorem regions_are_variables_witness:
  "\<exists>c1 c2 old c3. mm_read proc_ctx 0 0 99 = Some (0, Some old, c1)
    \<and> mm_write proc_ctx 0 1 499 42 = Some (0, c2) \<and> mm_read c2 0 0 99 = Some (0, Some old, c3)"
proof -
  have s: "valid (symrgtbl (vmm proc_ctx) ! nat 1) \<noteq> 0" "valid (symrgtbl (vmm proc_ctx) ! nat 0) \<noteq> 0"
      "rg_len (symrgtbl (vmm proc_ctx) ! nat 1) = 500" "rg_len (symrgtbl (vmm proc_ctx) ! nat 0) = 100"
    by (simp_all add: proc_ctx_def proc_mm_def rg_len_def)
  show ?thesis using regions_are_variables [OF proc_ok _ _ _ _ s(1,2), of 499 99 42] s(3,4) by fastforce
qed

text \<open>
  C33: an access is checked against the end of the data of the process, not against the end
  of its region: a write through one symbol, at an offset past its region, changes the
  byte of another symbol that the address falls on.
\<close>

theorem write_past_region:
  assumes "mm_ok R S c" and "ready c" and "0 \<le> i" and "i < 30" and "0 \<le> j" and "j < 30"
    and "valid (symrgtbl (vmm c) ! nat i) \<noteq> 0" and "valid (symrgtbl (vmm c) ! nat j) \<noteq> 0"
    and "0 \<le> off'" and "off' < rg_len (symrgtbl (vmm c) ! nat j)"
  shows "\<exists>c1 c2. mm_write c 0 i (uint (rg_start (symrgtbl (vmm c) ! nat j))
         - uint (rg_start (symrgtbl (vmm c) ! nat i)) + off') x = Some (0, c1)
    \<and> mm_read c1 0 j off' = Some (0, Some x, c2)"
proof -
  let ?ri = "symrgtbl (vmm c) ! nat i" and ?rj = "symrgtbl (vmm c) ! nat j"
  define off where "off = uint (rg_start ?rj) - uint (rg_start ?ri) + off'"
  define b where "b = uint (rg_start ?rj) + off'"
  have ab: "b = uint (rg_start ?ri) + off" by (simp add: off_def b_def)
  note bi = valid_below_sbrk [OF assms(1,3,4,7)] and bj = valid_below_sbrk [OF assms(1,5,6,8)]
  have b: "0 \<le> b" "b < uint (sbrk (hd (mmap (vmm c))))"
    using assms(9,10) bj(1) uint_ge_0 [of "rg_start ?rj"] by (auto simp: b_def rg_len_def)
  have vok: "?ri \<in> set (symrgtbl (vmm c))" "regions_ok (vmm c)"
    using assms(1,3,4) by (auto simp: mm_ok_def regions_ok_def PAGING_MAX_SYMTBL_SZ_def intro!: nth_mem)
  then have "uint (rg_start ?ri) \<le> uint (rg_end ?ri)"
    using assms(7) by (auto simp: regions_ok_def rg_below_def word_le_def)
  then have lims: "off' \<le> 2 ^ 22" "off \<le> 2 ^ 22" "- (2 ^ 22) \<le> off"
    using assms(9,10) bi bj uint_ge_0 [of "rg_start ?ri"] uint_ge_0 [of "rg_start ?rj"] b ab
    unfolding rg_len_def by linarith+
  have off: "- (2 ^ 31) \<le> off" "off < 2 ^ 31" "- (2 ^ 31) \<le> off'" "off' < 2 ^ 31"
    using lims assms(9) by simp_all
  obtain c2 where c2: "mm_write c 0 i off x = Some (0, c2)" "mm_ok R S c2" "ready c2"
    "view_becomes R S c ((vread c)(b := x)) c2" "b \<in> vdom c"
    by (rule mm_write_valid [OF assms(1,2,3,4,7) off(1,2) ab b])
  have same: "symrgtbl (vmm c2) = symrgtbl (vmm c)" "mmap (vmm c2) = mmap (vmm c)"
    using c2(4) by (simp_all add: view_becomes_def)
  have v2: "valid (symrgtbl (vmm c2) ! nat j) \<noteq> 0" using assms(8) same by simp
  have b2: "b = uint (rg_start (symrgtbl (vmm c2) ! nat j)) + off'" "b < uint (sbrk (hd (mmap (vmm c2))))"
    using b b_def same by simp_all
  obtain c3 where "mm_read c2 0 j off' = Some (0, Some (vread c2 b), c3)"
    by (rule mm_read_valid [OF c2(2,3) assms(5,6) v2 off(3,4) b2(1) b(1) b2(2)])
  moreover have "vread c2 b = x" using c2(4,5) by (simp add: view_becomes_def)
  ultimately show ?thesis using c2(1) unfolding off_def by auto
qed

theorem write_past_region_witness:
  "\<exists>c1 c2. mm_write proc_ctx 0 0 210 42 = Some (0, c1) \<and> mm_read c1 0 1 10 = Some (0, Some 42, c2)"
proof -
  have s: "valid (symrgtbl (vmm proc_ctx) ! nat 0) \<noteq> 0" "valid (symrgtbl (vmm proc_ctx) ! nat 1) \<noteq> 0"
      "rg_len (symrgtbl (vmm proc_ctx) ! nat 1) = 500" "uint (rg_start (symrgtbl (vmm proc_ctx) ! nat 1)) = 200"
      "uint (rg_start (symrgtbl (vmm proc_ctx) ! nat 0)) = 0"
    by (simp_all add: proc_ctx_def proc_mm_def rg_len_def)
  show ?thesis using write_past_region [OF proc_ok _ _ _ _ s(1,2), of 10 42] s(3-5) by auto
qed

text \<open>
  C32: freeing twice makes two variables share memory. \<open>__free\<close> does not look at the valid
  flag, so a second free puts the range on the free list again, and the next two
  allocations of its size return the same range.
\<close>

theorem double_free_aliases:
  assumes "mm_ok R S c" and "0 \<le> i" and "i < 30" and "0 < sz" and "sz = rg_len (symrgtbl (vmm c) ! nat i)"
    and "valid (symrgtbl (vmm c) ! nat i) \<noteq> 0" and "0 \<le> j" and "j < 30" and "0 \<le> k" and "k < 30" and "j \<noteq> k"
  shows "\<exists>c1 c2 a c3 a' c4. mm_free c 0 i = Some (0, c1) \<and> mm_free c1 0 i = Some (0, c2)
    \<and> mm_alloc c2 0 j sz = Some (0, a, c3) \<and> mm_alloc c3 0 k sz = Some (0, a', c4)
    \<and> symrgtbl (vmm c4) ! nat j = symrgtbl (vmm c4) ! nat k \<and> rg_bytes (symrgtbl (vmm c4) ! nat j) \<noteq> {}"
proof -
  have rok: "regions_ok (vmm c)" using assms(1) by (simp add: mm_ok_def)
  from rok obtain vma where m: "mmap (vmm c) = [vma]" and len: "int (length (symrgtbl (vmm c))) = 30"
    using regions_okD [OF rok] by metis
  define rg where "rg = symrgtbl (vmm c) ! nat i"
  have sz22: "sz \<le> 2 ^ 22"
    using valid_below_sbrk [OF assms(1-3,6)] assms(5) uint_ge_0 [of "rg_start rg"]
    unfolding rg_len_def rg_def [symmetric] by linarith
  have usz: "uint (ulong_of_int sz) = sz" using sz22 assms(4) by (intro uint_ulong_of_int) simp_all
  have fit: "rg_start rg + ulong_of_int sz = rg_end rg"
  proof -
    have "uint (rg_start rg) + sz < 2 ^ 64"
      using assms(5) uint_lt2p [of "rg_end rg"] by (simp add: rg_len_def rg_def)
    then have "uint (rg_start rg + ulong_of_int sz) = uint (rg_end rg)"
      using assms(5) usz by (subst uint_add_small) (simp_all add: rg_len_def rg_def)
    then show ?thesis by (simp add: word_uint_eq_iff)
  qed
  have lt: "rg_start rg < rg_end rg" using assms(4,5) by (simp add: rg_len_def rg_def word_less_def)
  then have no: "\<not> rg_end rg \<le> rg_start rg" "rg_start rg \<noteq> -1" using word_n1_ge [of "rg_end rg"] by auto
  let ?new = "\<lparr>rg_start = rg_start rg, rg_end = rg_end rg, valid = 0\<rparr>"
  let ?fl = "vm_freerg_list vma" and ?live = "\<lparr>rg_start = rg_start rg, rg_end = rg_end rg, valid = 1\<rparr>"
  let ?c = "\<lambda>fl tbl. c\<lparr>vmm := (vmm c)\<lparr>symrgtbl := tbl, mmap := [vma\<lparr>vm_freerg_list := fl\<rparr>]\<rparr>\<rparr>"
  let ?t = "symrgtbl (vmm c)"
  have free: "mm_free (?c fl tbl) 0 i = Some (0, ?c (?new # fl) (tbl[nat i := (tbl ! nat i)\<lparr>valid := 0\<rparr>]))"
    if "int (length tbl) = 30" "rg_start (tbl ! nat i) = rg_start rg" "rg_end (tbl ! nat i) = rg_end rg" for fl tbl
    using assms(2,3) that no
    by (simp add: mm_free_def get_symbol_region_by_id_def PAGING_MAX_SYMTBL_SZ_def arr_simps Let_def
        enlist_vm_freerg_list_def)
  have alloc: "mm_alloc (?c (r # fl) tbl) 0 n sz
      = Some (0, Some (int_of_ulong (rg_start rg)), ?c (snd (fit_region (r # fl) (ulong_of_int sz))) (tbl[nat n := ?live]))"
    if "int (length tbl) = 30" "0 \<le> n" "n < 30" "rg_start r = rg_start rg" "rg_end r = rg_end rg" for r fl tbl n
    using that fit no(2) by (simp add: mm_alloc_def get_free_vmrg_area_def set_symbol_def arr_simps Let_def)
  let ?t1 = "?t[nat i := rg\<lparr>valid := 0\<rparr>]"
  have c: "?c ?fl ?t = c" using m by (simp add: vm_area_struct.defs)
  have 1: "mm_free c 0 i = Some (0, ?c (?new # ?fl) ?t1)"
    using free [of ?t ?fl] len c by (simp add: rg_def)
  have 2: "mm_free (?c (?new # ?fl) ?t1) 0 i = Some (0, ?c (?new # ?new # ?fl) ?t1)"
    using free [of ?t1 "?new # ?fl"] len assms(2,3) by simp
  have rest: "snd (fit_region (?new # ?new # ?fl) (ulong_of_int sz)) = ?new # ?fl" using fit by simp
  have 3: "mm_alloc (?c (?new # ?new # ?fl) ?t1) 0 j sz
      = Some (0, Some (int_of_ulong (rg_start rg)), ?c (?new # ?fl) (?t1[nat j := ?live]))"
    using alloc [of ?t1 j ?new "?new # ?fl"] len assms(7,8) rest by simp
  have 4: "mm_alloc (?c (?new # ?fl) (?t1[nat j := ?live])) 0 k sz = Some (0, Some (int_of_ulong (rg_start rg)),
      ?c (snd (fit_region (?new # ?fl) (ulong_of_int sz))) (?t1[nat j := ?live, nat k := ?live]))"
    using alloc [of "?t1[nat j := ?live]" k ?new ?fl] len assms(9,10) by simp
  have "nat j < length ?t" "nat k < length ?t" using len assms(7-10) by auto
  moreover have "rg_bytes ?live \<noteq> {}" using lt by (auto simp: rg_bytes_def word_less_def)
  ultimately show ?thesis using 1 2 3 4 by (intro exI conjI) (assumption | simp add: nth_list_update)+
qed

theorem double_free_aliases_witness:
  "\<exists>c1 c2 a c3 a' c4. mm_free proc_ctx 0 0 = Some (0, c1) \<and> mm_free c1 0 0 = Some (0, c2)
    \<and> mm_alloc c2 0 3 100 = Some (0, a, c3) \<and> mm_alloc c3 0 4 100 = Some (0, a', c4)
    \<and> symrgtbl (vmm c4) ! 3 = symrgtbl (vmm c4) ! 4"
proof -
  have s: "valid (symrgtbl (vmm proc_ctx) ! nat 0) \<noteq> 0" "100 = rg_len (symrgtbl (vmm proc_ctx) ! nat 0)"
    by (simp_all add: proc_ctx_def proc_mm_def rg_len_def)
  show ?thesis using double_free_aliases [OF proc_ok(1) _ _ _ s(2,1), of 3 4] by auto
qed



text \<open>
  The test of a symbol number is off by one. The table has 30 entries, number 31 is
  refused with an error, but number 30 passes the test: reading, writing or freeing it
  follows a pointer just past the table, which is undefined.
\<close>

theorem symbol_number_off_by_one:
  assumes "int (length (symrgtbl (vmm c))) = PAGING_MAX_SYMTBL_SZ" and "mmap (vmm c) \<noteq> []"
  shows "mm_read c 0 30 off = None \<and> mm_write c 0 30 off v = None \<and> mm_free c 0 30 = None
    \<and> mm_read c 0 31 off = Some (ERR_RW_UNDEFINED, None, c)
    \<and> mm_write c 0 31 off v = Some (ERR_RW_UNDEFINED, c) \<and> mm_free c 0 31 = Some (-1, c)"
proof -
  have "vma_walk (mmap (vmm c)) 0 0 = Some 0" using assms(2) by simp
  moreover have "list_get (symrgtbl (vmm c)) 30 = None"
    using assms(1) by (simp add: list_get_def PAGING_MAX_SYMTBL_SZ_def)
  ultimately show ?thesis
    using assms(2) by (simp add: mm_read_def mm_write_def mm_free_def check_access_def get_symbol_region_by_id_def
        get_vma_by_index_def PAGING_MAX_SYMTBL_SZ_def)
qed

theorem symbol_number_off_by_one_witness:
  "mm_read proc_ctx 0 30 0 = None \<and> mm_read proc_ctx 0 31 0 = Some (ERR_RW_UNDEFINED, None, proc_ctx)"
  using symbol_number_off_by_one [of proc_ctx 0] by (simp add: proc_ctx_def proc_mm_def PAGING_MAX_SYMTBL_SZ_def)

lemma free_loop_zero:
  "\<lbrakk>0 \<le> k; k + int n \<le> PAGING_MAX_PGN; \<And>p. pgd (vmm c) p = 0\<rbrakk> \<Longrightarrow>
   \<exists>c'. free_loop n c k = Some c' \<and> free_fp_list (vram c') = replicate n 0 @ free_fp_list (vram c)"
proof (induction n arbitrary: c k)
  case (Suc n)
  let ?c = "c\<lparr>vram := snd (MEMPHY_put_freefp (vram c) 0)\<rparr>"
  have "free_loop (Suc n) c k = free_loop n ?c (k + 1)"
    using Suc.prems by (simp add: arr_simps PAGING_FPN_eq Let_def)
  moreover have "\<exists>c'. free_loop n ?c (k + 1) = Some c' \<and> free_fp_list (vram c') = replicate n 0 @ free_fp_list (vram ?c)"
    using Suc.prems by (intro Suc.IH) auto
  ultimately show ?case by (auto simp: MEMPHY_put_freefp_def replicate_app_Cons_same)
qed simp

text \<open>
  Releasing the memory of a process with no page mapped corrupts the free list. The
  test on the present bit is the wrong way round and the zero entries of unmapped pages
  are visited too, so frame 0 is put on the free list of RAM once for each of the 16384
  entries.
\<close>

theorem free_pcb_memph_corrupts:
  assumes "\<And>p. pgd (vmm c) p = 0"
  shows "\<exists>c'. free_pcb_memph c = Some (0, c') \<and> free_fp_list (vram c') = replicate 16384 0 @ free_fp_list (vram c)"
  using free_loop_zero [of 0 "nat PAGING_MAX_PGN" c] assms by (auto simp: free_pcb_memph_def PAGING_MAX_PGN_def)

theorem free_pcb_memph_corrupts_witness:
  "\<exists>c'. free_pcb_memph (proc_ctx\<lparr>vmm := proc_mm\<lparr>pgd := \<lambda>_. 0\<rparr>\<rparr>) = Some (0, c')
     \<and> free_fp_list (vram c') = replicate 16384 0 @ free_fp_list sample_ram"
proof -
  have "pgd (vmm (proc_ctx\<lparr>vmm := proc_mm\<lparr>pgd := \<lambda>_. 0\<rparr>\<rparr>)) p = 0" for p by simp
  from free_pcb_memph_corrupts [OF this] show ?thesis by (simp add: proc_ctx_def)
qed

section \<open>A new process\<close>

lemma init_mm_regions:
  assumes "symrgtbl m = replicate 30 rg0"
  shows "regions_ok (snd (init_mm [] m))"
proof -
  have zero: "live_at b rg0 = 0" for b by (simp add: live_at_def rg0_def)
  have "owners (snd (init_mm [] m)) b \<le> 1" for b
    using assms by (simp add: owners_def init_mm_def Let_def init_vm_rg_def enlist_vm_rg_node_def conv_simps
        sum_list_replicate zero map_replicate) (simp add: free_at_def rg_bytes_def)
  then show ?thesis
    using assms by (simp add: regions_ok_def)
      (simp add: init_mm_def Let_def init_vm_rg_def enlist_vm_rg_node_def conv_simps PAGING_MAX_SYMTBL_SZ_def
        PAGING_PAGESZ_def rg_below_def rg0_def)
qed


end
