(* ===== verification/Cpu.thy ===== *)
theory Cpu
  imports Mm_Vm Legacy_Mem Ready_Queue
begin

text \<open>
  The processor of \<open>src/cpu.c\<close>: \<open>run\<close> executes one instruction of a process. The build
  defines \<open>MM_PAGING\<close>, so the memory instructions are the calls of \<open>src/mm-vm.c\<close>; the
  instructions on the legacy memory are compiled too and modelled first (\<open>write_ins\<close> stands
  for \<open>write\<close>, a keyword of Isabelle).

  The main result: a legal instruction never faults, keeps the process well formed and
  leaves the memory of every other process alone.
\<close>

section \<open>The legacy instructions\<close>

definition calc :: "pcb_t \<Rightarrow> int" where
  "calc p = 0"

definition alloc :: "pcb_t \<Rightarrow> u32 \<Rightarrow> u32 \<Rightarrow> (int \<times> pcb_t) option" where
  "alloc p sz reg_index =
     (case alloc_mem sz p of (addr, p') \<Rightarrow>
        if addr = 0 then Some (1, p')
        else do { r \<leftarrow> list_set (regs p') (uint reg_index) addr; Some (0, p'\<lparr>regs := r\<rparr>) })"

definition free_data :: "pcb_t \<Rightarrow> u32 \<Rightarrow> int option" where
  "free_data p reg_index = do { a \<leftarrow> list_get (regs p) (uint reg_index); Some (free_mem a p) }"

text \<open>The test of \<open>read\<close> takes the failure of \<open>read_mem\<close> for success.\<close>

definition read :: "legacy_mem \<Rightarrow> pcb_t \<Rightarrow> u32 \<Rightarrow> u32 \<Rightarrow> u32 \<Rightarrow> (int \<times> pcb_t) option" where
  "read m p source offset destination =
     do { a \<leftarrow> list_get (regs p) (uint source);
          (status, data) \<leftarrow> read_mem m (a + offset) p;
          if status \<noteq> 0 then
            do { d \<leftarrow> data;
                 r \<leftarrow> list_set (regs p) (uint destination) (scast d);
                 Some (0, p\<lparr>regs := r\<rparr>) }
          else Some (1, p) }"

definition write_ins :: "legacy_mem \<Rightarrow> pcb_t \<Rightarrow> u8 \<Rightarrow> u32 \<Rightarrow> u32 \<Rightarrow> (int \<times> legacy_mem) option" where
  "write_ins m p data destination offset =
     do { a \<leftarrow> list_get (regs p) (uint destination);
          write_mem m (a + offset) p data }"

section \<open>One instruction\<close>

definition run :: "pcb_t \<Rightarrow> memphy_struct \<Rightarrow> memphy_struct \<Rightarrow> call_result" where
  "run p ram swp =
     (if pc p \<ge> code_size (code p) then Some (1, [], p, ram, swp)
      else
        do { ins \<leftarrow> list_get (code_text (code p)) (uint (pc p));
             let p1 = p\<lparr>pc := pc p + 1\<rparr>;
             (case opcode ins of
                CALC \<Rightarrow> Some (calc p1, [], p1, ram, swp)
              | ALLOC \<Rightarrow> pgalloc p1 ram swp (arg_0 ins) (arg_1 ins)
              | FREE \<Rightarrow> pgfree_data p1 ram swp (arg_0 ins)
              | READ \<Rightarrow> pgread p1 ram swp (arg_0 ins) (arg_1 ins) (arg_2 ins)
              | WRITE \<Rightarrow> pgwrite p1 ram swp (char_of_u32 (arg_0 ins)) (arg_1 ins) (arg_2 ins)) })"

section \<open>Legal instructions\<close>

text \<open>
  What a program may ask: symbol numbers of the table (30 would follow a pointer past it,
  larger ones are refused), an allocation that fits the 22-bit address space, and the
  release of a symbol in use. Any offset is legal.
\<close>

definition legal_symbol :: "u32 \<Rightarrow> bool" where
  "legal_symbol r \<longleftrightarrow> int_of_u32 r \<noteq> PAGING_MAX_SYMTBL_SZ"

definition legal_ins :: "mm_struct \<Rightarrow> inst_t \<Rightarrow> bool" where
  "legal_ins m ins =
     (case opcode ins of
        CALC \<Rightarrow> True
      | ALLOC \<Rightarrow> uint (arg_1 ins) < PAGING_MAX_SYMTBL_SZ \<and> uint (sbrk (hd (mmap m))) + uint (arg_0 ins) \<le> 2 ^ 22
      | FREE \<Rightarrow> legal_symbol (arg_0 ins)
          \<and> (0 \<le> int_of_u32 (arg_0 ins) \<and> int_of_u32 (arg_0 ins) < PAGING_MAX_SYMTBL_SZ
               \<longrightarrow> valid (symrgtbl m ! nat (int_of_u32 (arg_0 ins))) \<noteq> 0)
      | READ \<Rightarrow> legal_symbol (arg_0 ins)
      | WRITE \<Rightarrow> legal_symbol (arg_1 ins))"

definition legal_step :: "pcb_t \<Rightarrow> bool" where
  "legal_step p \<longleftrightarrow> uint (code_size (code p)) \<le> int (length (code_text (code p)))
     \<and> (pc p < code_size (code p) \<longrightarrow> legal_ins (mm p) (code_text (code p) ! unat (pc p)))"

section \<open>A legal instruction is safe\<close>

lemma ctx_of_back [simp]: "ctx_of (p\<lparr>mm := vmm c\<rparr>) (vram c) (vswp c) = c"
  by (cases c) (simp add: ctx_of_def)

lemma vmm_ctx [simp]: "vmm (ctx_of p ram swp) = mm p" "vram (ctx_of p ram swp) = ram" "vswp (ctx_of p ram swp) = swp"
  by (simp_all add: ctx_of_def)

lemma ctx_of_pc [simp]: "ctx_of (p\<lparr>pc := n\<rparr>) ram swp = ctx_of p ram swp"
  by (simp add: ctx_of_def)

lemma print_pgtbl_total:
  assumes "mm_ok R S c"
  obtains l where "print_pgtbl (vmm c) 0 (-1) = Some (0, l)"
proof -
  obtain vma where "mmap (vmm c) = [vma]" using assms by (auto simp: mm_ok_def regions_ok_def)
  then show ?thesis using that by (simp add: print_pgtbl_def)
qed

lemma check_access_total:
  assumes ok: "mm_ok R S c" and rgid: "rgid \<noteq> PAGING_MAX_SYMTBL_SZ" and off: "- (2 ^ 31) \<le> off" "off < 2 ^ 31"
  obtains (refused) e where "check_access (vmm c) 0 rgid off = Some (Inl e)" "e \<noteq> 0"
  | (passed) a where "check_access (vmm c) 0 rgid off = Some (Inr a)" "a \<in> vdom c" "0 \<le> a" "a < 2 ^ 22"
proof (cases "0 \<le> rgid \<and> rgid < 30")
  case False
  then have "check_access (vmm c) 0 rgid off = Some (Inl ERR_RW_UNDEFINED)"
    using rgid by (auto simp: check_access_def get_symbol_region_by_id_def PAGING_MAX_SYMTBL_SZ_def)
  then show ?thesis by (rule refused) (simp add: err_defs)
next
  case True
  obtain vma where m: "mmap (vmm c) = [vma]" and len: "int (length (symrgtbl (vmm c))) = 30"
    using ok by (auto simp: mm_ok_def regions_ok_def PAGING_MAX_SYMTBL_SZ_def)
  show ?thesis
  proof (cases "valid (symrgtbl (vmm c) ! nat rgid) = 0")
    case True
    with \<open>0 \<le> rgid \<and> rgid < 30\<close> m len have "check_access (vmm c) 0 rgid off = Some (Inl ERR_RW_UNDEFINED)"
      by (simp add: check_access_def get_symbol_region_by_id_def PAGING_MAX_SYMTBL_SZ_def arr_simps Let_def)
    then show ?thesis by (rule refused) (simp add: err_defs)
  next
    case False
    have r: "0 \<le> rgid" "rgid < 30" using \<open>0 \<le> rgid \<and> rgid < 30\<close> by simp_all
    note chk = check_access_valid [OF ok r False off]
    show ?thesis
    proof (cases "0 \<le> uint (rg_start (symrgtbl (vmm c) ! nat rgid)) + off
        \<and> uint (rg_start (symrgtbl (vmm c) ! nat rgid)) + off < uint (sbrk (hd (mmap (vmm c))))")
      case True
      with chk show ?thesis by (intro passed) (auto simp: in_bus_def)
    next
      case False
      show ?thesis
      proof (rule refused)
        show "check_access (vmm c) 0 rgid off = Some (Inl ERR_INVALID_ACCESS)" using chk(1) False by simp
      qed (simp add: err_defs)
    qed
  qed
qed

lemma mm_read_total:
  assumes ok: "mm_ok R S c" and "rgid \<noteq> PAGING_MAX_SYMTBL_SZ" and "- (2 ^ 31) \<le> off" "off < 2 ^ 31"
  obtains r v c' where "mm_read c 0 rgid off = Some (r, v, c')" "r = 0 \<longrightarrow> v \<noteq> None" "mm_ok R S c'"
    "view_becomes R S c (vread c) c'"
  using assms
proof (cases rule: check_access_total)
  case (refused e)
  have "view_becomes R S c (vread c) c" by (simp add: same_view_becomes [symmetric])
  with refused ok that [of e None c] show ?thesis by (simp add: mm_read_def)
next
  case (passed a)
  have run: "mm_read c 0 rgid off = pg_getval c a" using passed(1) by (simp add: mm_read_def)
  have keep: "regions_ok (vmm c')" if "view_becomes R S c (vread c) c'" for c'
    using ok that by (simp add: mm_ok_def regions_ok_def owners_def view_becomes_def)
  have "vm_ok R S c" using ok by (simp add: mm_ok_def)
  from this passed(3,4) show ?thesis
  proof (cases rule: pg_getval_spec)
    case unmapped
    with passed(2) show ?thesis by simp
  next
    case (stuck c')
    then show ?thesis using that [of ERR_SWAPPING None c'] keep run by (simp add: mm_ok_def err_defs)
  next
    case (loaded c')
    then show ?thesis using that [of 0 "Some (vread c a)" c'] keep run by (simp add: mm_ok_def)
  qed
qed

lemma mm_write_total:
  assumes ok: "mm_ok R S c" and "rgid \<noteq> PAGING_MAX_SYMTBL_SZ" and "- (2 ^ 31) \<le> off" "off < 2 ^ 31"
  obtains r f c' where "mm_write c 0 rgid off x = Some (r, c')" "mm_ok R S c'" "view_becomes R S c f c'"
  using assms
proof (cases rule: check_access_total)
  case (refused e)
  have "view_becomes R S c (vread c) c" by (simp add: same_view_becomes [symmetric])
  with refused ok that [of e c] show ?thesis by (simp add: mm_write_def)
next
  case (passed a)
  have run: "mm_write c 0 rgid off x = pg_setval c a x" using passed(1) by (simp add: mm_write_def)
  have keep: "regions_ok (vmm c')" if "view_becomes R S c f c'" for f c'
    using ok that by (simp add: mm_ok_def regions_ok_def owners_def view_becomes_def)
  have "vm_ok R S c" using ok by (simp add: mm_ok_def)
  from this passed(3,4) show ?thesis
  proof (cases rule: pg_setval_spec [where v = x])
    case unmapped
    with passed(2) show ?thesis by simp
  next
    case (stuck c')
    then show ?thesis using that [of _ c'] keep run by (simp add: mm_ok_def)
  next
    case (loaded c')
    then show ?thesis using that [of _ c'] keep run by (simp add: mm_ok_def)
  qed
qed

lemma int_of_u32_range: "- (2 ^ 31) \<le> int_of_u32 w" "int_of_u32 w < 2 ^ 31"
  using sint_range_size [of w] by (simp_all add: int_of_u32_def word_size)

lemma int_of_u32_small: "uint w < 2 ^ 31 \<Longrightarrow> int_of_u32 w = uint w"
proof -
  assume a: "uint w < 2 ^ 31"
  have "signed_take_bit 31 (uint w) = uint w"
  proof (rule signed_take_bit_int_eq_self)
    show "- (2 ^ 31) \<le> uint w" by (rule order_trans [of _ 0]) simp_all
  qed (use a in simp)
  then show ?thesis by (simp add: int_of_u32_def sint_uint)
qed

text \<open>
  The state after a step of a process, as the rest of the system sees it: the process is
  well formed and nothing of the others has changed.
\<close>

definition step_ok :: "int set \<Rightarrow> int set \<Rightarrow> vmctx \<Rightarrow> vmctx \<Rightarrow> bool" where
  "step_ok R S c c' \<longleftrightarrow> mm_ok R S c' \<and> others_kept R S c c'"

text \<open>What one memory instruction does to the process and the devices: it returns, keeps the
well-formedness of the paging and leaves the frames of the other processes alone.\<close>

definition call_safe :: "int set \<Rightarrow> int set \<Rightarrow> pcb_t \<Rightarrow> memphy_struct \<Rightarrow> memphy_struct
    \<Rightarrow> call_result \<Rightarrow> bool" where
  "call_safe R S p ram swp res \<longleftrightarrow> (\<exists>r out c'. res = Some (r, out, p\<lparr>mm := vmm c'\<rparr>, vram c', vswp c')
     \<and> step_ok R S (ctx_of p ram swp) c')"

lemma call_safeI:
  assumes "res = Some (r, out, p\<lparr>mm := vmm c'\<rparr>, vram c', vswp c')" "mm_ok R S c'" "others_kept R S (ctx_of p ram swp) c'"
  shows "call_safe R S p ram swp res"
  using assms by (auto simp: call_safe_def step_ok_def)

lemma calc_safe: "mm_ok R S (ctx_of p ram swp) \<Longrightarrow> call_safe R S p ram swp (Some (r, out, p, ram, swp))"
  unfolding call_safe_def
  by (intro exI [of _ r] exI [of _ out] exI [of _ "ctx_of p ram swp"]) (simp add: step_ok_def others_kept_def)

lemma pgalloc_safe:
  assumes ok: "mm_ok R S (ctx_of p ram swp)" and li: "legal_ins (mm p) ins" and op: "opcode ins = ALLOC"
  shows "call_safe R S p ram swp (pgalloc p ram swp (arg_0 ins) (arg_1 ins))"
proof -
  let ?c = "ctx_of p ram swp"
  obtain vma where m: "mmap (vmm ?c) = [vma]" using ok by (auto simp: mm_ok_def regions_ok_def)
  have nonneg: "0 \<le> uint (arg_1 ins)" "0 \<le> uint (arg_0 ins)" by simp_all
  have arg: "uint (arg_1 ins) < 30" "uint (sbrk vma) + uint (arg_0 ins) \<le> 2 ^ 22"
    using li op m by (simp_all add: legal_ins_def PAGING_MAX_SYMTBL_SZ_def)
  then have "uint (arg_0 ins) \<le> 2 ^ 22" using uint_ge_0 [of "sbrk vma"] by linarith
  then have conv: "int_of_u32 (arg_1 ins) = uint (arg_1 ins)" "int_of_u32 (arg_0 ins) = uint (arg_0 ins)"
    using arg(1) by (simp_all add: int_of_u32_small)
  from ok m nonneg(1) arg(1) nonneg(2) arg(2) show ?thesis
  proof (cases rule: mm_alloc_cases)
    case (failed r c')
    then show ?thesis using conv others_kept_simps(1) by (auto simp: pgalloc_def call_safe_def step_ok_def Let_def)
  next
    case (done_ok x c')
    then show ?thesis using conv by (auto simp: pgalloc_def call_safe_def step_ok_def allocated_def Let_def)
  qed
qed

lemma pgfree_safe:
  assumes ok: "mm_ok R S (ctx_of p ram swp)" and li: "legal_ins (mm p) ins" and op: "opcode ins = FREE"
  shows "call_safe R S p ram swp (pgfree_data p ram swp (arg_0 ins))"
proof -
  let ?c = "ctx_of p ram swp" and ?r = "int_of_u32 (arg_0 ins)"
  have "\<exists>st c'. mm_free ?c 0 ?r = Some (st, c') \<and> step_ok R S ?c c'"
  proof (cases "0 \<le> ?r \<and> ?r < 30")
    case True
    then have v: "valid (symrgtbl (vmm ?c) ! nat ?r) \<noteq> 0"
      using li op by (simp add: legal_ins_def PAGING_MAX_SYMTBL_SZ_def)
    from True have r: "0 \<le> ?r" "?r < 30" by simp_all
    show ?thesis by (rule mm_free_spec [OF ok r v]) (auto simp: step_ok_def)
  next
    case False
    then have "mm_free ?c 0 ?r = Some (-1, ?c)"
      using li op by (auto simp: legal_ins_def legal_symbol_def mm_free_def PAGING_MAX_SYMTBL_SZ_def)
    then show ?thesis using ok by (auto simp: step_ok_def others_kept_def)
  qed
  then obtain st c' where "mm_free ?c 0 ?r = Some (st, c')" "step_ok R S ?c c'" by blast
  then show ?thesis by (auto simp: pgfree_data_def call_safe_def)
qed

lemma pgread_safe:
  assumes ok: "mm_ok R S (ctx_of p ram swp)" and li: "legal_ins (mm p) ins" and op: "opcode ins = READ"
  shows "call_safe R S p ram swp (pgread p ram swp (arg_0 ins) (arg_1 ins) d)"
proof -
  let ?c = "ctx_of p ram swp"
  have "int_of_u32 (arg_0 ins) \<noteq> PAGING_MAX_SYMTBL_SZ" using li op by (simp add: legal_ins_def legal_symbol_def)
  from mm_read_total [OF ok this int_of_u32_range [of "arg_1 ins"]] obtain st v c' where
    c': "mm_read ?c 0 (int_of_u32 (arg_0 ins)) (int_of_u32 (arg_1 ins)) = Some (st, v, c')"
    "st = 0 \<longrightarrow> v \<noteq> None" "mm_ok R S c'" "view_becomes R S ?c (vread ?c) c'" .
  obtain l where "print_pgtbl (vmm c') 0 (-1) = Some (0, l)" using print_pgtbl_total [OF c'(3)] .
  then obtain out where "pgread p ram swp (arg_0 ins) (arg_1 ins) d = Some (st, out, p\<lparr>mm := vmm c'\<rparr>, vram c', vswp c')"
    using c'(1,2) by (cases "st = 0") (auto simp: pgread_def)
  then show ?thesis by (rule call_safeI [OF _ c'(3) others_kept_simps(1) [OF c'(4)]])
qed

lemma pgwrite_safe:
  assumes ok: "mm_ok R S (ctx_of p ram swp)" and li: "legal_ins (mm p) ins" and op: "opcode ins = WRITE"
  shows "call_safe R S p ram swp (pgwrite p ram swp (char_of_u32 (arg_0 ins)) (arg_1 ins) (arg_2 ins))"
proof -
  let ?c = "ctx_of p ram swp"
  have "int_of_u32 (arg_1 ins) \<noteq> PAGING_MAX_SYMTBL_SZ" using li op by (simp add: legal_ins_def legal_symbol_def)
  from mm_write_total [OF ok this int_of_u32_range [of "arg_2 ins"]] obtain st f c' where
    c': "mm_write ?c 0 (int_of_u32 (arg_1 ins)) (int_of_u32 (arg_2 ins)) (char_of_u32 (arg_0 ins)) = Some (st, c')"
    "mm_ok R S c'" "view_becomes R S ?c f c'" .
  obtain l where "print_pgtbl (vmm ?c) 0 (-1) = Some (0, l)" using print_pgtbl_total [OF ok] .
  then obtain out where "pgwrite p ram swp (char_of_u32 (arg_0 ins)) (arg_1 ins) (arg_2 ins)
      = Some (st, out, p\<lparr>mm := vmm c'\<rparr>, vram c', vswp c')" using c'(1) by (auto simp: pgwrite_def)
  then show ?thesis by (rule call_safeI [OF _ c'(2) others_kept_simps(1) [OF c'(3)]])
qed

lemma run_step:
  assumes ok: "mm_ok R S (ctx_of p ram swp)" and legal: "legal_step p"
  obtains r out p' ram' swp' where "run p ram swp = Some (r, out, p', ram', swp')"
    "step_ok R S (ctx_of p ram swp) (ctx_of p' ram' swp')"
    "code p' = code p" "pid p' = pid p" "prio p' = prio p"
    "pc p' = (if pc p < code_size (code p) then pc p + 1 else pc p)"
proof (cases "pc p < code_size (code p)")
  case False
  then have "run p ram swp = Some (1, [], p, ram, swp)" by (simp add: run_def not_less)
  moreover have "step_ok R S (ctx_of p ram swp) (ctx_of p ram swp)"
    using ok by (simp add: step_ok_def others_kept_def)
  ultimately show ?thesis using that [of 1 "[]" p ram swp] False by simp
next
  case True
  let ?p = "p\<lparr>pc := pc p + 1\<rparr>"
  define ins where "ins = code_text (code p) ! unat (pc p)"
  have "uint (pc p) < int (length (code_text (code p)))"
    using True legal by (auto simp: legal_step_def word_less_def)
  then have fetch: "list_get (code_text (code p)) (uint (pc p)) = Some ins"
    by (simp add: arr_simps ins_def)
  have ok': "mm_ok R S (ctx_of ?p ram swp)" using ok by simp
  have li: "legal_ins (mm ?p) ins" using legal True by (simp add: legal_step_def ins_def)
  have "call_safe R S ?p ram swp (run p ram swp)"
    using linorder_not_le [THEN iffD2, OF True] fetch calc_safe [OF ok'] pgalloc_safe [OF ok' li]
      pgfree_safe [OF ok' li] pgread_safe [OF ok' li] pgwrite_safe [OF ok' li]
    by (cases "opcode ins") (simp_all add: run_def Let_def)
  then obtain r out c' where run: "run p ram swp = Some (r, out, ?p\<lparr>mm := vmm c'\<rparr>, vram c', vswp c')"
    and step: "step_ok R S (ctx_of ?p ram swp) c'" unfolding call_safe_def by blast
  show ?thesis by (rule that [OF run]) (use step True in simp_all)
qed

section \<open>Properties\<close>

definition demo_pcb :: pcb_t where
  "demo_pcb = pcb0\<lparr>mm := proc_mm,
     code := \<lparr>code_text = [\<lparr>opcode = ALLOC, arg_0 = 300, arg_1 = 4, arg_2 = 0\<rparr>,
                         \<lparr>opcode = READ, arg_0 = 1, arg_1 = 20, arg_2 = 20\<rparr>], code_size = 2\<rparr>\<rparr>"

lemma demo_ctx: "ctx_of demo_pcb sample_ram sample_swp = proc_ctx"
  by (simp add: ctx_of_def demo_pcb_def proc_ctx_def)

lemma demo_legal: "legal_step demo_pcb"
  by (simp add: legal_step_def demo_pcb_def pcb0_def legal_ins_def PAGING_MAX_SYMTBL_SZ_def proc_mm_def)

text \<open>
  C14: executing an instruction is safe. A legal instruction of a well-formed process never
  faults (no access outside an array, no null pointer, no value used before it is written,
  no overflow), whatever it returns; the process stays well formed, its program and
  identity do not change, the program counter advances by one until the end of the program,
  and no frame of another process is touched.
\<close>

theorem run_safe:
  assumes "mm_ok R S (ctx_of p ram swp)" and "legal_step p"
  shows "\<exists>r out p' ram' swp'. run p ram swp = Some (r, out, p', ram', swp')
    \<and> mm_ok R S (ctx_of p' ram' swp') \<and> others_kept R S (ctx_of p ram swp) (ctx_of p' ram' swp')
    \<and> code p' = code p \<and> pid p' = pid p \<and> prio p' = prio p
    \<and> pc p' = (if pc p < code_size (code p) then pc p + 1 else pc p)"
  using assms by (cases rule: run_step) (auto simp: step_ok_def)

theorem run_safe_witness:
  "\<exists>r out p' ram' swp'. run demo_pcb sample_ram sample_swp = Some (r, out, p', ram', swp')
    \<and> mm_ok {} {} (ctx_of p' ram' swp') \<and> pc p' = 1"
proof -
  have "mm_ok {} {} (ctx_of demo_pcb sample_ram sample_swp)" using proc_ok(1) by (simp add: demo_ctx)
  moreover have "pc demo_pcb = 0" "code_size (code demo_pcb) = 2" by (simp_all add: demo_pcb_def pcb0_def)
  ultimately show ?thesis using run_safe [OF _ demo_legal, of "{}" "{}"] by fastforce
qed

text \<open>
  The legacy memory cannot be used. Its allocation always reports failure and changes
  nothing, its write always reports failure, and its read, whose test is the wrong way
  round, always copies a byte that was never written into a register, which is undefined.
\<close>

theorem legacy_memory_unusable:
  assumes "uint r < int (length (regs p))"
  shows "alloc p sz r' = Some (1, p) \<and> write_ins m p d r off = Some (1, m) \<and> read m p r off dst = None"
proof -
  have "list_get (regs p) (uint r) = Some (regs p ! nat (uint r))" using assms by (simp add: arr_simps)
  then show ?thesis
    by (simp add: alloc_def alloc_mem_def write_ins_def write_mem_def read_def read_mem_def translate_fails Let_def)
qed

theorem legacy_memory_unusable_witness:
  "read \<lparr>lram = (\<lambda>_. 0), mem_stat = []\<rparr> (pcb0\<lparr>regs := replicate 10 0\<rparr>) 3 8 4 = None"
  using legacy_memory_unusable [of 3 "pcb0\<lparr>regs := replicate 10 0\<rparr>"] by simp

end
