(* ===== verification/Isolation.thy ===== *)
theory Isolation
  imports Cpu
begin

text \<open>
  All processes together: they share the RAM and the active swap of \<open>src/os.c\<close>, each has
  its own page table. A step of the machine is one instruction of one process, in any
  order (any schedule of any number of processors whose instructions do not overlap in
  time). The invariant gives every process its own frames; the theorems say that no
  instruction of one process can be seen in the memory of another.
\<close>

record machine =
  procs :: "pcb_t list"
  m_ram :: memphy_struct
  m_swp :: memphy_struct

section \<open>Who owns which frame\<close>

definition used_ram :: "mm_struct \<Rightarrow> int set" where
  "used_ram m = (\<lambda>p. uint (PAGING_FPN (pgd m (nat p)))) `
     {p \<in> {0..current_max_pgn m}. PAGING_PAGE_PRESENT (pgd m (nat p))}"

definition used_swp :: "mm_struct \<Rightarrow> int set" where
  "used_swp m = (\<lambda>p. uint (PAGING_SWAPFPN (pgd m (nat p)))) `
     {p \<in> {0..current_max_pgn m}. \<not> PAGING_PAGE_PRESENT (pgd m (nat p))}"

definition ctx :: "machine \<Rightarrow> nat \<Rightarrow> vmctx" where
  "ctx s i = ctx_of (procs s ! i) (m_ram s) (m_swp s)"

definition others_ram :: "pcb_t list \<Rightarrow> nat \<Rightarrow> int set" where
  "others_ram ps i = (\<Union>j\<in>{0..<length ps} - {i}. used_ram (mm (ps ! j)))"

definition others_swp :: "pcb_t list \<Rightarrow> nat \<Rightarrow> int set" where
  "others_swp ps i = (\<Union>j\<in>{0..<length ps} - {i}. used_swp (mm (ps ! j)))"

definition sys_ok :: "machine \<Rightarrow> bool" where
  "sys_ok s \<longleftrightarrow> (\<forall>i<length (procs s). mm_ok (others_ram (procs s) i) (others_swp (procs s) i) (ctx s i))"

lemma used_ram_eq: "used_ram (vmm c) = ram_frame c ` resident c"
  by (simp add: used_ram_def ram_frame_def pte_at_def resident_def mapped_def image_def)

lemma used_swp_eq: "used_swp (vmm c) = swp_frame c ` swapped c"
  by (simp add: used_swp_def swp_frame_def pte_at_def swapped_def mapped_def image_def)

section \<open>Steps\<close>

inductive sys_step :: "machine \<Rightarrow> nat \<Rightarrow> machine \<Rightarrow> bool" where
  exec: "\<lbrakk>i < length (procs s); legal_step (procs s ! i);
    run (procs s ! i) (m_ram s) (m_swp s) = Some (r, out, p', ram', swp')\<rbrakk> \<Longrightarrow>
    sys_step s i (s\<lparr>procs := (procs s)[i := p'], m_ram := ram', m_swp := swp'\<rparr>)"

inductive sys_steps :: "machine \<Rightarrow> nat list \<Rightarrow> machine \<Rightarrow> bool" where
  stop: "sys_steps s [] s"
| next_step: "\<lbrakk>sys_step s i s1; sys_steps s1 is s2\<rbrakk> \<Longrightarrow> sys_steps s (i # is) s2"

inductive_cases sys_stepE: "sys_step s i s'"
inductive_simps sys_steps_simps: "sys_steps s [] s'" "sys_steps s (i # is) s'"

text \<open>
  What a step of one process is to another process \<open>d\<close>: the devices change to those of \<open>c'\<close>, in
  which the frames of \<open>d\<close> are the frames of others.
\<close>

lemma vm_bystander:
  assumes vj: "vm_ok Rj Sj d" and ok: "vm_ok Ri Si c'"
    and fr: "frames (vram c') = frames (vram d)" "frames (vswp c') = frames (vswp d)"
    and mine: "used_ram (vmm d) \<subseteq> Ri" "used_swp (vmm d) \<subseteq> Si"
    and apart: "used_ram (vmm d) \<inter> Rj' = {}" "used_swp (vmm d) \<inter> Sj' = {}"
      "set (free_fp_list (vram c')) \<inter> Rj' = {}" "set (free_fp_list (vswp c')) \<inter> Sj' = {}"
    and kept: "\<forall>g\<in>used_ram (vmm d). \<forall>i\<in>{0..<256}. frame_byte (vram c') g i = frame_byte (vram d) g i"
      "\<forall>g\<in>used_swp (vmm d). \<forall>i\<in>{0..<256}. frame_byte (vswp c') g i = frame_byte (vswp d) g i"
  defines "d' \<equiv> d\<lparr>vram := vram c', vswp := vswp c'\<rparr>"
  shows "vm_ok Rj' Sj' d'" and "vdom d' = vdom d" and "\<And>a. a \<in> vdom d \<Longrightarrow> vread d' a = vread d a"
proof -
  have fields: "vmm d' = vmm d" "vram d' = vram c'" "vswp d' = vswp c'" by (simp_all add: d'_def)
  have sets: "mapped d' = mapped d" "resident d' = resident d" "swapped d' = swapped d"
      "pte_at d' = pte_at d" "ram_frame d' = ram_frame d" "swp_frame d' = swp_frame d"
    using page_sets_cong [of d' d] fields(1) by simp_all
  have free: "used_ram (vmm d) \<inter> set (free_fp_list (vram c')) = {}" "used_swp (vmm d) \<inter> set (free_fp_list (vswp c')) = {}"
    using mine vm_ok_free [OF ok] by blast+
  show "vm_ok Rj' Sj' d'"
  proof (rule vm_okI)
    show "dev_ok (vram d')" "dev_ok (vswp d')" "frames (vram d') \<subseteq> {0..<1024}" "frames (vswp d') \<subseteq> {0..<2097152}"
      using vm_ok_ram [OF ok] vm_ok_swp [OF ok] vm_ok_ram_frames [OF ok] vm_ok_swp_frames [OF ok]
      by (simp_all add: fields)
    show "-1 \<le> current_max_pgn (vmm d')" "current_max_pgn (vmm d') < PAGING_MAX_PGN"
      using vm_ok_max [OF vj] by (simp_all add: fields)
    show "pte_at d' p = 0 \<longleftrightarrow> p \<notin> mapped d'" if "0 \<le> p" "p < PAGING_MAX_PGN" for p
      using vm_ok_pte [OF vj that] by (simp add: sets)
    show "distinct (fifo_using_pgn (vmm d'))" "set (fifo_using_pgn (vmm d')) \<subseteq> resident d'"
      "num_of_fifo_using_pgn (vmm d') = int (length (fifo_using_pgn (vmm d')))"
      using vm_ok_fifo [OF vj] by (simp_all add: fields sets)
    show "inj_on (ram_frame d') (resident d')" "inj_on (swp_frame d') (swapped d')"
      using vm_ok_inj [OF vj] by (simp_all add: sets)
    show "ram_frame d' ` resident d' \<subseteq> frames (vram d')" "swp_frame d' ` swapped d' \<subseteq> frames (vswp d')"
      using vm_ok_ram_used(1) [OF vj] vm_ok_swp_used(1) [OF vj] fr by (simp_all add: sets fields)
    show "ram_frame d' ` resident d' \<inter> (set (free_fp_list (vram d')) \<union> Rj') = {}"
      "swp_frame d' ` swapped d' \<inter> (set (free_fp_list (vswp d')) \<union> Sj') = {}"
      using free apart(1,2) unfolding sets fields used_ram_eq used_swp_eq by blast+
    show "set (free_fp_list (vram d')) \<inter> Rj' = {}" "set (free_fp_list (vswp d')) \<inter> Sj' = {}"
      using apart(3,4) by (simp_all add: fields)
    show "frame_byte (vram d') f i = 0" if "f \<in> set (free_fp_list (vram d'))" "0 \<le> i" "i < 256" for f i
      using vm_ok_zero [OF ok] that by (simp add: fields)
  qed
  show "vdom d' = vdom d" by (simp add: vdom_def fields)
  show "vread d' a = vread d a" if "a \<in> vdom d" for a
  proof (cases "PAGING_PAGE_PRESENT (pte_at d (a div 256))")
    case True
    then have "a div 256 \<in> resident d" using that by (simp add: vdom_page resident_def)
    then have "ram_frame d (a div 256) \<in> used_ram (vmm d)" by (simp add: used_ram_eq)
    then show ?thesis using True kept(1) by (simp add: vread_def vbyte_def sets fields PAGING_PAGESZ_def)
  next
    case False
    then have "a div 256 \<in> swapped d" using that by (simp add: vdom_page swapped_def)
    then have "swp_frame d (a div 256) \<in> used_swp (vmm d)" by (simp add: used_swp_eq)
    then show ?thesis using False kept(2) by (simp add: vread_def vbyte_def sets fields PAGING_PAGESZ_def)
  qed
qed

lemma used_in_frames: "vm_ok R S c \<Longrightarrow> used_ram (vmm c) \<subseteq> frames (vram c)" "vm_ok R S c \<Longrightarrow> used_swp (vmm c) \<subseteq> frames (vswp c)"
  using vm_ok_ram_used(1) vm_ok_swp_used(1) unfolding used_ram_eq used_swp_eq by blast+

lemma bystander:
  assumes i: "mm_ok Ri Si c" and j: "mm_ok Rj Sj d" and dev: "vram d = vram c" "vswp d = vswp c"
    and step: "step_ok Ri Si c c'"
    and mine: "used_ram (vmm d) \<subseteq> Ri" "used_swp (vmm d) \<subseteq> Si"
    and Rj': "Rj' \<subseteq> used_ram (vmm c') \<union> (Rj \<inter> Ri)" and Sj': "Sj' \<subseteq> used_swp (vmm c') \<union> (Sj \<inter> Si)"
  defines "d' \<equiv> d\<lparr>vram := vram c', vswp := vswp c'\<rparr>"
  shows "mm_ok Rj' Sj' d'" and "vdom d' = vdom d" and "\<And>a. a \<in> vdom d \<Longrightarrow> vread d' a = vread d a"
proof -
  have ok: "vm_ok Ri Si c'" and kept: "others_kept Ri Si c c'" using step by (simp_all add: step_ok_def mm_ok_def)
  have vj: "vm_ok Rj Sj d" and rj: "regions_ok (vmm d)" using j by (simp_all add: mm_ok_def)
  have fr: "frames (vram c') = frames (vram d)" "frames (vswp c') = frames (vswp d)"
    using kept dev by (simp_all add: others_kept_def)
  have used': "used_ram (vmm c') \<inter> (set (free_fp_list (vram c')) \<union> Ri) = {}"
      "used_swp (vmm c') \<inter> (set (free_fp_list (vswp c')) \<union> Si) = {}"
    using vm_ok_ram_used(2) [OF ok] vm_ok_swp_used(2) [OF ok] unfolding used_ram_eq used_swp_eq .
  have usedj: "used_ram (vmm d) \<inter> Rj = {}" "used_swp (vmm d) \<inter> Sj = {}"
    using vm_ok_ram_used(2) [OF vj] vm_ok_swp_used(2) [OF vj] unfolding used_ram_eq used_swp_eq by blast+
  have a1: "used_ram (vmm d) \<inter> Rj' = {}" using Rj' used'(1) usedj(1) mine(1) by blast
  have a2: "used_swp (vmm d) \<inter> Sj' = {}" using Sj' used'(2) usedj(2) mine(2) by blast
  have a3: "set (free_fp_list (vram c')) \<inter> Rj' = {}" using Rj' used'(1) vm_ok_free(1) [OF ok] by blast
  have a4: "set (free_fp_list (vswp c')) \<inter> Sj' = {}" using Sj' used'(2) vm_ok_free(2) [OF ok] by blast
  have k1: "\<forall>g\<in>used_ram (vmm d). \<forall>i\<in>{0..<256}. frame_byte (vram c') g i = frame_byte (vram d) g i"
    using kept mine(1) used_in_frames(1) [OF vj] dev by (auto simp: others_kept_def PAGING_PAGESZ_def)
  have k2: "\<forall>g\<in>used_swp (vmm d). \<forall>i\<in>{0..<256}. frame_byte (vswp c') g i = frame_byte (vswp d) g i"
    using kept mine(2) used_in_frames(2) [OF vj] dev by (auto simp: others_kept_def PAGING_PAGESZ_def)
  note B = vm_bystander [OF vj ok fr mine a1 a2 a3 a4 k1 k2, folded d'_def]
  show "mm_ok Rj' Sj' d'" using B(1) rj by (simp add: mm_ok_def d'_def)
  show "vdom d' = vdom d" by (rule B(2))
  show "vread d' a = vread d a" if "a \<in> vdom d" for a by (rule B(3) [OF that])
qed

lemma others_update:
  "others_ram (ps[i := p]) i = others_ram ps i" "others_swp (ps[i := p]) i = others_swp ps i"
  by (auto simp: others_ram_def others_swp_def)

lemma others_ram_other:
  assumes "i < length ps" "j < length ps" "i \<noteq> j"
  shows "others_ram (ps[i := p]) j \<subseteq> used_ram (mm p) \<union> (others_ram ps j \<inter> others_ram ps i)"
    and "others_swp (ps[i := p]) j \<subseteq> used_swp (mm p) \<union> (others_swp ps j \<inter> others_swp ps i)"
    and "used_ram (mm (ps ! j)) \<subseteq> others_ram ps i" and "used_swp (mm (ps ! j)) \<subseteq> others_swp ps i"
  using assms by (fastforce simp: others_ram_def others_swp_def nth_list_update split: if_splits)+

lemma sys_step_ok:
  assumes ok: "sys_ok s" and step: "sys_step s i s'"
  shows "sys_ok s' \<and> length (procs s') = length (procs s)
    \<and> (\<forall>j<length (procs s). j \<noteq> i \<longrightarrow> procs s' ! j = procs s ! j
         \<and> (\<forall>a\<in>vdom (ctx s j). vread (ctx s' j) a = vread (ctx s j) a))"
proof -
  let ?ps = "procs s" and ?c = "ctx s i"
  obtain r out p' ram' swp' where 1: "s' = s\<lparr>procs := ?ps[i := p'], m_ram := ram', m_swp := swp'\<rparr>"
    "i < length ?ps" "legal_step (?ps ! i)" "run (?ps ! i) (m_ram s) (m_swp s) = Some (r, out, p', ram', swp')"
    using step by (auto elim!: sys_stepE)
  have oki: "mm_ok (others_ram ?ps i) (others_swp ?ps i) ?c" using ok 1(2) by (simp add: sys_ok_def)
  have so: "step_ok (others_ram ?ps i) (others_swp ?ps i) ?c (ctx_of p' ram' swp')"
    using run_step [OF oki [unfolded ctx_def] 1(3)] 1(4) by (auto simp: ctx_def)
  have ci: "ctx s' i = ctx_of p' ram' swp'" using 1 by (simp add: ctx_def)
  have cj: "ctx s' j = (ctx s j)\<lparr>vram := vram (ctx_of p' ram' swp'), vswp := vswp (ctx_of p' ram' swp')\<rparr>"
    if "j \<noteq> i" for j using 1 that by (simp add: ctx_def ctx_of_def)
  have other: "mm_ok (others_ram (procs s') j) (others_swp (procs s') j) (ctx s' j)
      \<and> (\<forall>a\<in>vdom (ctx s j). vread (ctx s' j) a = vread (ctx s j) a)"
    if j: "j < length ?ps" "j \<noteq> i" for j
  proof -
    have okj: "mm_ok (others_ram ?ps j) (others_swp ?ps j) (ctx s j)" using ok j by (simp add: sys_ok_def)
    have dev: "vram (ctx s j) = vram ?c" "vswp (ctx s j) = vswp ?c" by (simp_all add: ctx_def)
    have ij: "i \<noteq> j" using j by simp
    note sub = others_ram_other [OF 1(2) j(1) ij]
    have s1: "others_ram (procs s') j \<subseteq> used_ram (vmm (ctx_of p' ram' swp')) \<union> (others_ram ?ps j \<inter> others_ram ?ps i)"
      "others_swp (procs s') j \<subseteq> used_swp (vmm (ctx_of p' ram' swp')) \<union> (others_swp ?ps j \<inter> others_swp ?ps i)"
      using sub(1,2) 1(1) by simp_all
    have s2: "used_ram (vmm (ctx s j)) \<subseteq> others_ram ?ps i" "used_swp (vmm (ctx s j)) \<subseteq> others_swp ?ps i"
      using sub(3,4) by (simp_all add: ctx_def)
    show ?thesis using bystander [OF oki okj dev so s2 s1] cj [OF j(2)] by simp
  qed
  have "mm_ok (others_ram (procs s') i) (others_swp (procs s') i) (ctx s' i)"
    using so 1(1) ci by (simp add: others_update step_ok_def)
  moreover have len: "length (procs s') = length ?ps" using 1(1) by simp
  ultimately have "sys_ok s'" unfolding sys_ok_def using other by metis
  with other len 1(1) show ?thesis by auto
qed

lemma sys_steps_ok:
  "\<lbrakk>sys_steps s is s'; sys_ok s\<rbrakk> \<Longrightarrow> sys_ok s' \<and> length (procs s') = length (procs s)
    \<and> (\<forall>j<length (procs s). j \<notin> set is \<longrightarrow> procs s' ! j = procs s ! j
         \<and> (\<forall>a\<in>vdom (ctx s j). vread (ctx s' j) a = vread (ctx s j) a))"
proof (induction rule: sys_steps.induct)
  case (stop s)
  then show ?case by simp
next
  case (next_step s i s1 "is" s2)
  note one = sys_step_ok [OF next_step.prems next_step.hyps(1)]
  then have "sys_ok s1" by simp
  note rest = next_step.IH [OF this]
  have "vdom (ctx s1 j) = vdom (ctx s j)" if "j < length (procs s)" "j \<noteq> i" for j
    using one that by (simp add: ctx_def ctx_of_def vdom_def)
  with one rest show ?case by auto
qed

section \<open>The machine at the start\<close>

lemma boot_ok:
  assumes "dev_ok ram" "frames ram \<subseteq> {0..<1024}" "dev_ok swp" "frames swp \<subseteq> {0..<2097152}"
    and "\<And>f i. f \<in> set (free_fp_list ram) \<Longrightarrow> 0 \<le> i \<Longrightarrow> i < 256 \<Longrightarrow> frame_byte ram f i = 0"
    and new: "\<And>p. p \<in> set ps \<Longrightarrow> \<exists>m. mm p = snd (init_mm [] m) \<and> symrgtbl m = replicate 30 rg0"
  shows "sys_ok \<lparr>procs = ps, m_ram = ram, m_swp = swp\<rparr>"
proof -
  have fresh: "current_max_pgn (mm p) = -1 \<and> pgd (mm p) = (\<lambda>_. 0) \<and> fifo_using_pgn (mm p) = []
      \<and> num_of_fifo_using_pgn (mm p) = 0 \<and> regions_ok (mm p)" if "p \<in> set ps" for p
    using new [OF that] init_mm_regions by (auto simp: init_mm_def Let_def)
  have none: "used_ram (mm (ps ! j)) = {}" "used_swp (mm (ps ! j)) = {}" if "j < length ps" for j
    using fresh [of "ps ! j"] that by (simp_all add: used_ram_def used_swp_def)
  have others: "others_ram ps i = {}" "others_swp ps i = {}" for i
    using none by (auto simp: others_ram_def others_swp_def)
  have "mm_ok {} {} (ctx_of (ps ! i) ram swp)" if "i < length ps" for i
  proof -
    let ?c = "ctx_of (ps ! i) ram swp"
    have f: "current_max_pgn (mm (ps ! i)) = -1" "pgd (mm (ps ! i)) = (\<lambda>_. 0)" "fifo_using_pgn (mm (ps ! i)) = []"
      "num_of_fifo_using_pgn (mm (ps ! i)) = 0" "regions_ok (mm (ps ! i))"
      using fresh [of "ps ! i"] that by simp_all
    have sets: "mapped ?c = {}" "resident ?c = {}" "swapped ?c = {}" "pte_at ?c p = 0" for p
      by (simp_all add: mapped_def resident_def swapped_def pte_at_def f)
    have "vm_ok {} {} ?c"
      unfolding vm_ok_def sets using assms(1-5) by (simp add: f PAGING_MAX_PGN_def PAGING_PAGESZ_def)
    then show ?thesis using f(5) by (simp add: mm_ok_def)
  qed
  then show ?thesis by (simp add: sys_ok_def others ctx_def)
qed

section \<open>Properties\<close>

definition boot_mm :: mm_struct where
  "boot_mm = snd (init_mm [] \<lparr>pgd = (\<lambda>_. 7), mmap = [], symrgtbl = replicate 30 rg0, fifo_using_pgn = [],
     current_max_pgn = 0, num_of_fifo_using_pgn = 0\<rparr>)"

definition boot_pcb :: pcb_t where
  "boot_pcb = demo_pcb\<lparr>mm := boot_mm\<rparr>"

definition boot_dev :: "int \<Rightarrow> memphy_struct" where
  "boot_dev n = \<lparr>storage = (\<lambda>_. 0), maxsz = n * 256, rdmflg = 1, cursor = 0,
     free_fp_list = [0..n - 1], num_of_free_frame = n, used_fp_list = [], num_of_used_frame = 0\<rparr>"

definition boot2 :: machine where
  "boot2 = \<lparr>procs = [boot_pcb, boot_pcb], m_ram = boot_dev 4, m_swp = boot_dev 8\<rparr>"

lemma boot_dev_ok: "0 \<le> n \<Longrightarrow> dev_ok (boot_dev n)" "frames (boot_dev n) = {0..<n}" "frame_byte (boot_dev n) f i = 0"
  by (auto simp: dev_ok_def frames_def boot_dev_def PAGING_PAGESZ_def frame_byte_def)

lemma boot_pair_ok:
  assumes "0 \<le> n" "n \<le> 1024" "0 \<le> k" "k \<le> 2097152"
  shows "sys_ok \<lparr>procs = [boot_pcb, boot_pcb], m_ram = boot_dev n, m_swp = boot_dev k\<rparr>"
proof (rule boot_ok)
  show "\<exists>m. mm p = snd (init_mm [] m) \<and> symrgtbl m = replicate 30 rg0" if "p \<in> set [boot_pcb, boot_pcb]" for p
    using that by (intro exI [of _ "\<lparr>pgd = (\<lambda>_. 7), mmap = [], symrgtbl = replicate 30 rg0, fifo_using_pgn = [],
     current_max_pgn = 0, num_of_fifo_using_pgn = 0\<rparr>"]) (auto simp: boot_pcb_def boot_mm_def)
qed (use assms in \<open>auto simp: boot_dev_ok\<close>)

lemma boot2_ok: "sys_ok boot2"
  by (simp add: boot2_def boot_pair_ok)

lemma boot2_legal: "legal_step (procs boot2 ! 1)" "1 < length (procs boot2)" "0 < length (procs boot2)"
proof -
  have "sbrk (hd (mmap boot_mm)) = 0" by (simp add: boot_mm_def init_mm_def Let_def)
  then show "legal_step (procs boot2 ! 1)" "1 < length (procs boot2)" "0 < length (procs boot2)"
    by (simp_all add: boot2_def boot_pcb_def demo_pcb_def pcb0_def legal_step_def legal_ins_def PAGING_MAX_SYMTBL_SZ_def)
qed

text \<open>
  Processes are isolated. Whatever legal instructions a set of processes executes, in
  any order, the machine stays well formed, no two processes share a frame, and a process
  that executed nothing finds its control block unchanged and every byte of its memory as
  it was, although the others may have taken frames, exchanged pages and filled the swap.
\<close>

theorem processes_isolated:
  assumes "sys_ok s" and "sys_steps s is s'" and "j < length (procs s)" and "j \<notin> set is"
  shows "sys_ok s' \<and> procs s' ! j = procs s ! j
    \<and> (\<forall>a\<in>vdom (ctx s j). vread (ctx s' j) a = vread (ctx s j) a)
    \<and> (\<forall>k<length (procs s). k \<noteq> j \<longrightarrow> used_ram (mm (procs s' ! k)) \<inter> used_ram (mm (procs s' ! j)) = {}
         \<and> used_swp (mm (procs s' ! k)) \<inter> used_swp (mm (procs s' ! j)) = {})"
proof -
  note run = sys_steps_ok [OF assms(2,1)]
  have "used_ram (mm (procs s' ! k)) \<inter> used_ram (mm (procs s' ! j)) = {}
      \<and> used_swp (mm (procs s' ! k)) \<inter> used_swp (mm (procs s' ! j)) = {}"
    if "k < length (procs s)" "k \<noteq> j" for k
  proof -
    have "vm_ok (others_ram (procs s') j) (others_swp (procs s') j) (ctx s' j)"
      using run assms(3) by (simp add: sys_ok_def mm_ok_def)
    note ok = vm_ok_ram_used(2) [OF this] vm_ok_swp_used(2) [OF this]
    have "used_ram (mm (procs s' ! k)) \<subseteq> others_ram (procs s') j" "used_swp (mm (procs s' ! k)) \<subseteq> others_swp (procs s') j"
      using that run by (auto simp: others_ram_def others_swp_def)
    with ok show ?thesis
      unfolding used_ram_eq [symmetric] used_swp_eq [symmetric] ctx_def vmm_ctx by blast
  qed
  with run assms(3,4) show ?thesis by simp
qed

text \<open>
  The machine is never stuck and never faults: in a well-formed machine a process whose
  next instruction is legal can always execute it, and the machine is well formed after.
\<close>

theorem machine_progress:
  assumes "sys_ok s" and "i < length (procs s)" and "legal_step (procs s ! i)"
  shows "\<exists>s'. sys_step s i s' \<and> sys_ok s' \<and> pc (procs s' ! i)
    = (if pc (procs s ! i) < code_size (code (procs s ! i)) then pc (procs s ! i) + 1 else pc (procs s ! i))"
proof -
  have ok: "mm_ok (others_ram (procs s) i) (others_swp (procs s) i) (ctx_of (procs s ! i) (m_ram s) (m_swp s))"
    using assms(1,2) by (simp add: sys_ok_def ctx_def)
  obtain r out p' ram' swp' where run: "run (procs s ! i) (m_ram s) (m_swp s) = Some (r, out, p', ram', swp')"
    "pc p' = (if pc (procs s ! i) < code_size (code (procs s ! i)) then pc (procs s ! i) + 1 else pc (procs s ! i))"
    by (rule run_step [OF ok assms(3)])
  have "sys_step s i (s\<lparr>procs := (procs s)[i := p'], m_ram := ram', m_swp := swp'\<rparr>)"
    by (rule exec [OF assms(2,3) run(1)])
  with sys_step_ok [OF assms(1) this] run(2) assms(2) show ?thesis by force
qed

lemma boot2_steps: "\<exists>s'. sys_steps boot2 [1] s'"
proof -
  have ok: "mm_ok (others_ram (procs boot2) 1) (others_swp (procs boot2) 1)
      (ctx_of (procs boot2 ! 1) (m_ram boot2) (m_swp boot2))"
    using boot2_ok boot2_legal(2) by (simp add: sys_ok_def ctx_def)
  obtain r out p' ram' swp' where
    "run (procs boot2 ! 1) (m_ram boot2) (m_swp boot2) = Some (r, out, p', ram', swp')"
    by (rule run_step [OF ok boot2_legal(1)])
  from exec [OF boot2_legal(2,1) this] show ?thesis by (auto simp: sys_steps_simps)
qed

theorem processes_isolated_witness:
  "\<exists>s'. sys_steps boot2 [1] s' \<and> sys_ok s' \<and> procs s' ! 0 = procs boot2 ! 0"
proof -
  obtain s' where s': "sys_steps boot2 [1] s'" using boot2_steps by blast
  have "0 \<notin> set [1::nat]" by simp
  from processes_isolated [OF boot2_ok s' boot2_legal(3) this] s' show ?thesis by blast
qed

theorem machine_progress_witness:
  "\<exists>s'. sys_step boot2 1 s' \<and> sys_ok s' \<and> pc (procs s' ! 1) = 1"
proof -
  have "pc (procs boot2 ! 1) = 0" "code_size (code (procs boot2 ! 1)) = 2"
    by (simp_all add: boot2_def boot_pcb_def demo_pcb_def pcb0_def)
  then show ?thesis using machine_progress [OF boot2_ok boot2_legal(2,1)] by auto
qed

end
