(* ===== verification/Sched.thy ===== *)
theory Sched
  imports Ready_Queue "HOL-Library.Multiset"
begin

text \<open>
  The multi-level-queue scheduler of \<open>src/sched.c\<close> (the build defines \<open>MLQ_SCHED\<close>):
  one queue per priority, each with a budget of \<open>MAX_PRIO - i\<close> slots that a dispatch
  consumes and that is refilled when nothing can be dispatched. Every operation holds
  \<open>queue_lock\<close> from its first access to its last, so it is one atomic step.

  The abstract scheduler (\<open>a_get\<close>, \<open>a_put\<close>) says which process is dispatched in terms of
  lists; the code refines it.
\<close>

section \<open>Operations\<close>

definition queue_empty :: "mlq_t \<Rightarrow> bool" where
  "queue_empty m \<longleftrightarrow> proc_count m = 0"

definition init_scheduler :: "mlq_t \<Rightarrow> mlq_t" where
  "init_scheduler m = m
     \<lparr>queues := map (\<lambda>i. (queues m ! i)\<lparr>qsize := 0, slot := int (MAX_PRIO - i)\<rparr>) [0..<MAX_PRIO],
      slot_count := int (MAX_PRIO * (MAX_PRIO + 1)) div 2,
      proc_count := 0\<rparr>"

definition refill_slots_of_mlq :: "mlq_t \<Rightarrow> mlq_t" where
  "refill_slots_of_mlq m = m
     \<lparr>queues := map (\<lambda>i. (queues m ! i)\<lparr>slot := int (MAX_PRIO - i)\<rparr>) [0..<MAX_PRIO],
      slot_count := int (MAX_PRIO * (MAX_PRIO + 1)) div 2\<rparr>"

text \<open>The loop of \<open>get_proc_by_slot\<close>, with the number of queues left and the index.\<close>

fun scan_slots :: "mlq_t \<Rightarrow> nat \<Rightarrow> nat \<Rightarrow> (pcb_t option \<times> mlq_t) option" where
  "scan_slots m 0 i = Some (None, m)"
| "scan_slots m (Suc n) i =
     do { q \<leftarrow> list_get (queues m) (int i);
          if empty (Some q) = 0 \<and> slot q > 0 then
            do { (p, q') \<leftarrow> dequeue (q\<lparr>slot := slot q - 1\<rparr>);
                 Some (p, m\<lparr>queues := (queues m)[i := q'],
                            proc_count := proc_count m - 1,
                            slot_count := slot_count m - 1\<rparr>) }
          else scan_slots m n (Suc i) }"

definition get_proc_by_slot :: "mlq_t \<Rightarrow> (pcb_t option \<times> mlq_t) option" where
  "get_proc_by_slot m = (if proc_count m = 0 then Some (None, m) else scan_slots m MAX_PRIO 0)"

definition get_mlq_proc :: "mlq_t \<Rightarrow> (pcb_t option \<times> mlq_t) option" where
  "get_mlq_proc m =
     do { (p, m1) \<leftarrow> (if \<not> queue_empty m then get_proc_by_slot m else Some (None, m));
          let m2 = (if proc_count m1 = 0 \<or> Option.is_none p then refill_slots_of_mlq m1 else m1);
          if Option.is_none p then get_proc_by_slot m2 else Some (p, m2) }"

definition put_mlq_proc :: "mlq_t \<Rightarrow> pcb_t \<Rightarrow> mlq_t option" where
  "put_mlq_proc m p =
     do { let i = uint (prio p);
          q \<leftarrow> list_get (queues m) i;
          (r, q') \<leftarrow> enqueue q p;
          let m' = m\<lparr>queues := (queues m)[nat i := q']\<rparr>;
          Some (if r = 0 then m'\<lparr>proc_count := proc_count m + 1\<rparr> else m') }"

definition add_mlq_proc :: "mlq_t \<Rightarrow> pcb_t \<Rightarrow> mlq_t option" where
  "add_mlq_proc m p =
     do { let i = uint (prio p);
          q \<leftarrow> list_get (queues m) i;
          (r, q') \<leftarrow> enqueue q p;
          let m' = m\<lparr>queues := (queues m)[nat i := q']\<rparr>;
          Some (if r = 0 then m'\<lparr>proc_count := proc_count m + 1\<rparr> else m') }"

definition get_proc :: "mlq_t \<Rightarrow> (pcb_t option \<times> mlq_t) option" where
  "get_proc m = get_mlq_proc m"

definition put_proc :: "mlq_t \<Rightarrow> pcb_t \<Rightarrow> mlq_t option" where
  "put_proc m p = put_mlq_proc m p"

definition add_proc :: "mlq_t \<Rightarrow> pcb_t \<Rightarrow> mlq_t option" where
  "add_proc m p = add_mlq_proc m p"

section \<open>The abstract scheduler\<close>

record amlq =
  a_items :: "nat \<Rightarrow> pcb_t list"
  a_slots :: "nat \<Rightarrow> int"

definition a_budget :: "nat \<Rightarrow> int" where
  "a_budget i = int (MAX_PRIO - i)"

definition a_refill :: "amlq \<Rightarrow> amlq" where
  "a_refill s = s\<lparr>a_slots := a_budget\<rparr>"

text \<open>The highest priority (least index) that has a process and budget left.\<close>

definition a_pick :: "amlq \<Rightarrow> nat option" where
  "a_pick s = find (\<lambda>i. a_items s i \<noteq> [] \<and> 0 < a_slots s i) [0..<MAX_PRIO]"

definition a_take :: "nat \<Rightarrow> amlq \<Rightarrow> amlq" where
  "a_take i s = s\<lparr>a_items := (a_items s)(i := tl (a_items s i)),
                  a_slots := (a_slots s)(i := a_slots s i - 1)\<rparr>"

definition a_idle :: "amlq \<Rightarrow> bool" where
  "a_idle s \<longleftrightarrow> (\<forall>i<MAX_PRIO. a_items s i = [])"

definition a_get :: "amlq \<Rightarrow> pcb_t option \<times> amlq" where
  "a_get s =
     (case a_pick s of
        Some i \<Rightarrow>
          let s' = a_take i s
          in (Some (hd (a_items s i)), if a_idle s' then a_refill s' else s')
      | None \<Rightarrow>
          (case a_pick (a_refill s) of
             None \<Rightarrow> (None, a_refill s)
           | Some i \<Rightarrow> (Some (hd (a_items s i)), a_take i (a_refill s))))"

definition a_put :: "pcb_t \<Rightarrow> amlq \<Rightarrow> amlq" where
  "a_put p s =
     (let i = unat (prio p) in
      if length (a_items s i) < MAX_QUEUE_SIZE
      then s\<lparr>a_items := (a_items s)(i := a_items s i @ [p])\<rparr> else s)"

definition abs_mlq :: "mlq_t \<Rightarrow> amlq" where
  "abs_mlq m = \<lparr>a_items = (\<lambda>i. if i < MAX_PRIO then q_items (queues m ! i) else []),
                a_slots = (\<lambda>i. if i < MAX_PRIO then slot (queues m ! i) else 0)\<rparr>"

section \<open>Invariant\<close>

text \<open>
  Every queue is well formed and holds processes of its own priority, the two counters
  are the sums they stand for, and no budget leaves its range.
\<close>

definition mlq_ok :: "mlq_t \<Rightarrow> bool" where
  "mlq_ok m \<longleftrightarrow> length (queues m) = MAX_PRIO
     \<and> (\<forall>i<MAX_PRIO. queue_ok (queues m ! i))
     \<and> (\<forall>i<MAX_PRIO. 0 \<le> slot (queues m ! i) \<and> slot (queues m ! i) \<le> a_budget i)
     \<and> (\<forall>i<MAX_PRIO. \<forall>p\<in>set (q_items (queues m ! i)). unat (prio p) = i)
     \<and> proc_count m = (\<Sum>q\<leftarrow>queues m. qsize q)
     \<and> slot_count m = (\<Sum>q\<leftarrow>queues m. slot q)"

lemma a_items_abs [simp]: "i < MAX_PRIO \<Longrightarrow> a_items (abs_mlq m) i = q_items (queues m ! i)"
  and a_slots_abs [simp]: "i < MAX_PRIO \<Longrightarrow> a_slots (abs_mlq m) i = slot (queues m ! i)"
  by (simp_all add: abs_mlq_def)

lemma mlq_ok_length: "mlq_ok m \<Longrightarrow> length (queues m) = MAX_PRIO"
  and mlq_ok_queue: "mlq_ok m \<Longrightarrow> i < MAX_PRIO \<Longrightarrow> queue_ok (queues m ! i)"
  and mlq_ok_slot: "mlq_ok m \<Longrightarrow> i < MAX_PRIO \<Longrightarrow> 0 \<le> slot (queues m ! i) \<and> slot (queues m ! i) \<le> a_budget i"
  and mlq_ok_prio: "mlq_ok m \<Longrightarrow> i < MAX_PRIO \<Longrightarrow> p \<in> set (q_items (queues m ! i)) \<Longrightarrow> unat (prio p) = i"
  and mlq_ok_proc_count: "mlq_ok m \<Longrightarrow> proc_count m = (\<Sum>q\<leftarrow>queues m. qsize q)"
  and mlq_ok_slot_count: "mlq_ok m \<Longrightarrow> slot_count m = (\<Sum>q\<leftarrow>queues m. slot q)"
  by (auto simp: mlq_ok_def)

lemmas mlq_okD = mlq_ok_length mlq_ok_queue mlq_ok_slot mlq_ok_prio mlq_ok_proc_count
  mlq_ok_slot_count

lemma sum_budgets: "(\<Sum>i\<leftarrow>[0..<n]. int (n - i)) * 2 = int (n * (n + 1))"
proof (induction n)
  case (Suc n)
  have "[0..<Suc n] = 0 # map Suc [0..<n]"
    by (metis map_Suc_upt upt_conv_Cons zero_less_Suc)
  then have "(\<Sum>i\<leftarrow>[0..<Suc n]. int (Suc n - i)) = int (Suc n) + (\<Sum>i\<leftarrow>[0..<n]. int (n - i))"
    by (simp add: comp_def del: upt_Suc)
  with Suc show ?case by (simp add: algebra_simps)
qed simp

lemma slot_total: "int (MAX_PRIO * (MAX_PRIO + 1)) div 2 = (\<Sum>i\<leftarrow>[0..<MAX_PRIO]. int (MAX_PRIO - i))"
  using sum_budgets [of MAX_PRIO] by linarith

text \<open>A queue at index \<open>i\<close> is replaced by one with a new list, size and budget.\<close>

lemma abs_mlq_update:
  assumes "i < MAX_PRIO" and "length (queues m) = MAX_PRIO"
  shows "abs_mlq (m\<lparr>queues := (queues m)[i := q], proc_count := c, slot_count := d\<rparr>) =
    \<lparr>a_items = (a_items (abs_mlq m))(i := q_items q), a_slots = (a_slots (abs_mlq m))(i := slot q)\<rparr>"
  using assms by (auto simp: abs_mlq_def fun_eq_iff nth_list_update)

lemma mlq_ok_update:
  assumes "mlq_ok m" and "i < MAX_PRIO" and "queue_ok q"
    and "0 \<le> slot q" and "slot q \<le> a_budget i"
    and "\<And>p. p \<in> set (q_items q) \<Longrightarrow> unat (prio p) = i"
  shows "mlq_ok (m\<lparr>queues := (queues m)[i := q],
    proc_count := proc_count m + (qsize q - qsize (queues m ! i)),
    slot_count := slot_count m + (slot q - slot (queues m ! i))\<rparr>)"
  using assms by (auto simp: mlq_ok_def nth_list_update sum_list_map_update)

lemma take_step:
  assumes ok: "mlq_ok m" and i: "i < MAX_PRIO"
    and items: "q_items (queues m ! i) \<noteq> []" and slot: "0 < slot (queues m ! i)"
  shows "\<exists>q'. dequeue ((queues m ! i)\<lparr>slot := slot (queues m ! i) - 1\<rparr>)
        = Some (Some (hd (q_items (queues m ! i))), q')
    \<and> mlq_ok (m\<lparr>queues := (queues m)[i := q'], proc_count := proc_count m - 1,
        slot_count := slot_count m - 1\<rparr>)
    \<and> abs_mlq (m\<lparr>queues := (queues m)[i := q'], proc_count := proc_count m - 1,
        slot_count := slot_count m - 1\<rparr>) = a_take i (abs_mlq m)"
proof -
  let ?q = "queues m ! i"
  let ?q1 = "?q\<lparr>slot := slot ?q - 1\<rparr>"
  have q: "queue_ok ?q" using ok i by (rule mlq_ok_queue)
  obtain x xs where xs: "q_items ?q = x # xs" using items by (cases "q_items ?q") auto
  then obtain q' where q': "dequeue ?q1 = Some (Some x, q')" "queue_ok q'" "q_items q' = xs"
      "slot q' = slot ?q - 1"
    using dequeue_Cons [of ?q1 x xs] q by auto
  have size: "qsize q' = qsize ?q - 1"
    using length_q_items [OF q] length_q_items [OF q'(2)] xs q'(3) by simp
  have "mlq_ok (m\<lparr>queues := (queues m)[i := q'], proc_count := proc_count m - 1,
        slot_count := slot_count m - 1\<rparr>)"
    using mlq_ok_update [OF ok i q'(2)] mlq_ok_slot [OF ok i] mlq_ok_prio [OF ok i] slot xs q' size
    by simp
  moreover have "abs_mlq (m\<lparr>queues := (queues m)[i := q'], proc_count := proc_count m - 1,
        slot_count := slot_count m - 1\<rparr>) = a_take i (abs_mlq m)"
    using i xs q' mlq_ok_length [OF ok] by (simp add: abs_mlq_update a_take_def)
  ultimately show ?thesis using q'(1) xs by auto
qed

text \<open>The loop finds the first queue that can be served.\<close>

lemma find_upt_step:
  "i < n \<Longrightarrow> find P [i..<n] = (if P i then Some i else find P [Suc i..<n])"
  by (simp add: upt_conv_Cons)

fun served :: "mlq_t \<Rightarrow> nat option \<Rightarrow> (pcb_t option \<times> mlq_t) option \<Rightarrow> bool" where
  "served m None r \<longleftrightarrow> r = Some (None, m)"
| "served m (Some k) r \<longleftrightarrow> k < MAX_PRIO \<and> a_items (abs_mlq m) k \<noteq> []
     \<and> (\<exists>m'. r = Some (Some (hd (a_items (abs_mlq m) k)), m')
          \<and> mlq_ok m' \<and> abs_mlq m' = a_take k (abs_mlq m))"

lemma scan_slots_eq:
  assumes "mlq_ok m" and "i + n = MAX_PRIO"
  shows "served m (find (\<lambda>i. a_items (abs_mlq m) i \<noteq> [] \<and> 0 < a_slots (abs_mlq m) i) [i..<MAX_PRIO])
    (scan_slots m n i)"
  using assms
proof (induction n arbitrary: i)
  case 0
  then show ?case by simp
next
  case (Suc n)
  then have i: "i < MAX_PRIO" "Suc i + n = MAX_PRIO" by auto
  let ?q = "queues m ! i"
  have get: "list_get (queues m) (int i) = Some ?q"
    using i mlq_ok_length [OF Suc.prems(1)] by (simp add: arr_simps)
  have emp: "empty (Some ?q) = (if q_items ?q = [] then 1 else 0)"
    using rq.is_empty_iff mlq_ok_queue [OF Suc.prems(1) i(1)] by blast
  show ?case
  proof (cases "q_items ?q \<noteq> [] \<and> 0 < slot ?q")
    case True
    with take_step [OF Suc.prems(1) i(1)] obtain q' where
      "dequeue (?q\<lparr>slot := slot ?q - 1\<rparr>) = Some (Some (hd (q_items ?q)), q')"
      "mlq_ok (m\<lparr>queues := (queues m)[i := q'], proc_count := proc_count m - 1,
        slot_count := slot_count m - 1\<rparr>)"
      "abs_mlq (m\<lparr>queues := (queues m)[i := q'], proc_count := proc_count m - 1,
        slot_count := slot_count m - 1\<rparr>) = a_take i (abs_mlq m)" by blast
    with True i get emp show ?thesis by (simp add: find_upt_step)
  next
    case False
    then have "scan_slots m (Suc n) i = scan_slots m n (Suc i)" using get emp by auto
    moreover have "find (\<lambda>i. a_items (abs_mlq m) i \<noteq> [] \<and> 0 < a_slots (abs_mlq m) i) [i..<MAX_PRIO]
        = find (\<lambda>i. a_items (abs_mlq m) i \<noteq> [] \<and> 0 < a_slots (abs_mlq m) i) [Suc i..<MAX_PRIO]"
      using False i by (auto simp: find_upt_step)
    ultimately show ?thesis using Suc.IH [OF Suc.prems(1) i(2)] by (simp only:)
  qed
qed

lemma proc_count_zero_iff:
  assumes "mlq_ok m"
  shows "proc_count m = 0 \<longleftrightarrow> a_idle (abs_mlq m)"
proof -
  have q: "queue_ok q" if "q \<in> set (queues m)" for q
    using that mlq_ok_queue [OF assms] mlq_ok_length [OF assms] by (metis in_set_conv_nth)
  have "proc_count m = 0 \<longleftrightarrow> (\<forall>q\<in>set (queues m). qsize q = 0)"
    unfolding mlq_ok_proc_count [OF assms]
    by (rule sum_list_nonneg_zero_iff) (use q in \<open>auto simp: queue_ok_def\<close>)
  also have "\<dots> \<longleftrightarrow> (\<forall>q\<in>set (queues m). q_items q = [])"
    using q q_items_Nil_iff by blast
  also have "\<dots> \<longleftrightarrow> a_idle (abs_mlq m)"
    by (simp add: a_idle_def all_set_conv_all_nth mlq_ok_length [OF assms])
  finally show ?thesis .
qed

lemma a_pick_idle: "a_idle s \<Longrightarrow> a_pick s = None"
  by (auto simp: a_pick_def a_idle_def find_None_iff)

lemma get_proc_by_slot_eq:
  assumes "mlq_ok m"
  shows "served m (a_pick (abs_mlq m)) (get_proc_by_slot m)"
proof (cases "proc_count m = 0")
  case True
  then show ?thesis
    using a_pick_idle proc_count_zero_iff [OF assms] by (simp add: get_proc_by_slot_def)
next
  case False
  with scan_slots_eq [OF assms, of 0 MAX_PRIO] show ?thesis
    by (simp only: get_proc_by_slot_def a_pick_def add_0 if_False)
qed

lemma refill_eq:
  assumes "mlq_ok m"
  shows "mlq_ok (refill_slots_of_mlq m)" "abs_mlq (refill_slots_of_mlq m) = a_refill (abs_mlq m)"
    "proc_count (refill_slots_of_mlq m) = proc_count m"
proof -
  have "(\<Sum>i\<leftarrow>[0..<MAX_PRIO]. qsize (queues m ! i)) = (\<Sum>q\<leftarrow>queues m. qsize q)"
    using mlq_ok_length [OF assms]
    by (metis (no_types, lifting) map_map map_nth comp_def map_eq_conv)
  then show "mlq_ok (refill_slots_of_mlq m)"
    using assms slot_total
    by (auto simp: mlq_ok_def refill_slots_of_mlq_def a_budget_def comp_def)
  show "abs_mlq (refill_slots_of_mlq m) = a_refill (abs_mlq m)"
    by (auto simp: abs_mlq_def refill_slots_of_mlq_def a_refill_def a_budget_def fun_eq_iff)
  show "proc_count (refill_slots_of_mlq m) = proc_count m"
    by (simp add: refill_slots_of_mlq_def)
qed

lemma a_items_refill [simp]: "a_items (a_refill s) = a_items s"
  and a_slots_refill [simp]: "a_slots (a_refill s) = a_budget"
  and a_idle_refill [simp]: "a_idle (a_refill s) = a_idle s"
  by (simp_all add: a_refill_def a_idle_def)

section \<open>The code refines the abstract scheduler\<close>

lemma get_mlq_proc_refines:
  assumes "mlq_ok m"
  shows "\<exists>m'. get_mlq_proc m = Some (fst (a_get (abs_mlq m)), m') \<and> mlq_ok m'
    \<and> abs_mlq m' = snd (a_get (abs_mlq m))"
proof (cases "a_pick (abs_mlq m)")
  case (Some k)
  with get_proc_by_slot_eq [OF assms] obtain m1 where
    m1: "get_proc_by_slot m = Some (Some (hd (a_items (abs_mlq m) k)), m1)" "mlq_ok m1"
      "abs_mlq m1 = a_take k (abs_mlq m)" by auto
  have "\<not> queue_empty m"
    using Some a_pick_idle proc_count_zero_iff [OF assms] by (auto simp: queue_empty_def)
  then show ?thesis
    using m1 Some refill_eq [OF m1(2)] proc_count_zero_iff [OF m1(2)]
    by (auto simp: get_mlq_proc_def a_get_def Let_def)
next
  case None
  let ?m = "refill_slots_of_mlq m"
  have "get_proc_by_slot m = Some (None, m)"
    using get_proc_by_slot_eq [OF assms] None by simp
  then have get: "get_mlq_proc m = get_proc_by_slot ?m"
    by (simp add: get_mlq_proc_def)
  have "served ?m (a_pick (a_refill (abs_mlq m))) (get_proc_by_slot ?m)"
    using get_proc_by_slot_eq [of ?m] refill_eq [OF assms] by simp
  then show ?thesis
    using None get refill_eq [OF assms] by (cases "a_pick (a_refill (abs_mlq m))") (auto simp: a_get_def)
qed

lemma put_mlq_proc_refines:
  assumes "mlq_ok m" and "unat (prio p) < MAX_PRIO"
  shows "\<exists>m'. put_mlq_proc m p = Some m' \<and> mlq_ok m' \<and> abs_mlq m' = a_put p (abs_mlq m)"
proof -
  define i where "i = unat (prio p)"
  have i: "i < MAX_PRIO" "uint (prio p) = int i" using assms(2) by (simp_all add: i_def)
  let ?q = "queues m ! i"
  have q: "queue_ok ?q" using assms(1) i(1) by (rule mlq_ok_queue)
  have get: "list_get (queues m) (int i) = Some ?q"
    using i mlq_ok_length [OF assms(1)] by (simp add: arr_simps)
  show ?thesis
  proof (cases "length (q_items ?q) < MAX_QUEUE_SIZE")
    case True
    then obtain q' where q': "enqueue ?q p = Some (0, q')" "queue_ok q'"
        "q_items q' = q_items ?q @ [p]" "slot q' = slot ?q"
      using enqueue_room [OF q] by blast
    have size: "qsize q' = qsize ?q + 1"
      using length_q_items [OF q] length_q_items [OF q'(2)] q'(3) by simp
    let ?m = "m\<lparr>queues := (queues m)[i := q'], proc_count := proc_count m + 1\<rparr>"
    have m: "?m = m\<lparr>queues := (queues m)[i := q'],
        proc_count := proc_count m + (qsize q' - qsize ?q),
        slot_count := slot_count m + (slot q' - slot ?q)\<rparr>"
      using q'(4) size by simp
    have prios: "unat (prio x) = i" if "x \<in> set (q_items q')" for x
      using that q'(3) mlq_ok_prio [OF assms(1) i(1)] by (auto simp: i_def)
    have "mlq_ok ?m"
      unfolding m using assms(1) i(1) q'(2)
      by (rule mlq_ok_update) (use mlq_ok_slot [OF assms(1) i(1)] q'(4) prios in auto)
    moreover have "abs_mlq ?m = a_put p (abs_mlq m)"
      unfolding m abs_mlq_update [OF i(1) mlq_ok_length [OF assms(1)]]
      using q' True i(1)
      by (auto simp: a_put_def Let_def i_def [symmetric] fun_eq_iff intro!: amlq.equality)
    ultimately show ?thesis
      using get q'(1) i by (simp add: put_mlq_proc_def)
  next
    case False
    then have "enqueue ?q p = Some (-1, ?q)" using rq.enq_full [OF q] by simp
    then have "put_mlq_proc m p = Some m" using get i by (simp add: put_mlq_proc_def)
    then show ?thesis using assms(1) False i by (simp add: a_put_def i_def [symmetric])
  qed
qed

lemma add_mlq_proc_eq: "add_mlq_proc m p = put_mlq_proc m p"
  by (simp add: add_mlq_proc_def put_mlq_proc_def)

lemma put_mlq_proc_bad_prio:
  assumes "mlq_ok m" and "MAX_PRIO \<le> unat (prio p)"
  shows "put_mlq_proc m p = None"
proof -
  have "int MAX_PRIO \<le> int (unat (prio p))" using assms(2) by (rule of_nat_mono)
  then have "int MAX_PRIO \<le> uint (prio p)" by simp
  then have "list_get (queues m) (uint (prio p)) = None"
    using mlq_ok_length [OF assms(1)] by (simp add: list_get_def)
  then show ?thesis by (simp add: put_mlq_proc_def)
qed

lemma init_scheduler_ok:
  assumes "\<forall>i<MAX_PRIO. length (proc (queues m ! i)) = MAX_QUEUE_SIZE"
  shows "mlq_ok (init_scheduler m)" "a_idle (abs_mlq (init_scheduler m))"
proof -
  show "mlq_ok (init_scheduler m)"
    using assms slot_total
    by (auto simp: mlq_ok_def init_scheduler_def queue_ok_def q_items_def a_budget_def comp_def
        sum_list_map_const)
  show "a_idle (abs_mlq (init_scheduler m))"
    by (simp add: a_idle_def init_scheduler_def q_items_def)
qed

section \<open>Conservation of processes\<close>

text \<open>
  The contract a CPU relies on: a pool that gives out a ready process whenever there is
  one, and that keeps the others.
\<close>

locale process_pool =
  fixes get :: "'m \<Rightarrow> ('p option \<times> 'm) option"
    and put :: "'m \<Rightarrow> 'p \<Rightarrow> 'm option"
    and ready :: "'m \<Rightarrow> 'p multiset"
    and room :: "'m \<Rightarrow> 'p \<Rightarrow> bool"
    and legal :: "'p \<Rightarrow> bool"
    and invar :: "'m \<Rightarrow> bool"
  assumes get_None: "\<lbrakk>invar m; ready m = {#}\<rbrakk> \<Longrightarrow>
      \<exists>m'. get m = Some (None, m') \<and> invar m' \<and> ready m' = {#}"
    and get_Some: "\<lbrakk>invar m; ready m \<noteq> {#}\<rbrakk> \<Longrightarrow>
      \<exists>x m'. get m = Some (Some x, m') \<and> invar m' \<and> ready m = add_mset x (ready m')"
    and put_room: "\<lbrakk>invar m; legal x; room m x\<rbrakk> \<Longrightarrow>
      \<exists>m'. put m x = Some m' \<and> invar m' \<and> ready m' = add_mset x (ready m)"
    and put_full: "\<lbrakk>invar m; legal x; \<not> room m x\<rbrakk> \<Longrightarrow>
      \<exists>m'. put m x = Some m' \<and> invar m' \<and> ready m' = ready m"
begin

lemma get_total:
  assumes "invar m"
  obtains p m' where "get m = Some (p, m')" and "invar m'"
    and "ready m = (case p of None \<Rightarrow> {#} | Some x \<Rightarrow> add_mset x (ready m'))"
    and "p = None \<Longrightarrow> ready m' = {#}"
  using get_None [OF assms] get_Some [OF assms] by (cases "ready m = {#}") fastforce+

lemma get_None_iff:
  "invar m \<Longrightarrow> get m = Some (p, m') \<Longrightarrow> p = None \<longleftrightarrow> ready m = {#}"
  using get_None [of m] get_Some [of m] by (cases "ready m = {#}") auto

lemma put_total:
  assumes "invar m" and "legal x"
  obtains m' where "put m x = Some m'" and "invar m'"
    and "ready m' = (if room m x then add_mset x (ready m) else ready m)"
  using put_room [OF assms] put_full [OF assms] by (cases "room m x") auto

primrec get_n :: "nat \<Rightarrow> 'm \<Rightarrow> ('p option list \<times> 'm) option" where
  "get_n 0 m = Some ([], m)"
| "get_n (Suc n) m = do { (p, m1) \<leftarrow> get m; (ps, m2) \<leftarrow> get_n n m1; Some (p # ps, m2) }"

text \<open>As many dispatches as there are ready processes give out all of them.\<close>

lemma get_n_drains:
  "\<lbrakk>invar m; size (ready m) = n\<rbrakk> \<Longrightarrow>
   \<exists>xs m'. get_n n m = Some (map Some xs, m') \<and> mset xs = ready m \<and> ready m' = {#}"
proof (induction n arbitrary: m)
  case (Suc n)
  then obtain x m1 where m1: "get m = Some (Some x, m1)" "invar m1"
      "ready m = add_mset x (ready m1)"
    using get_Some [of m] by fastforce
  with Suc obtain xs m2 where "get_n n m1 = Some (map Some xs, m2)" "mset xs = ready m1"
      "ready m2 = {#}" by fastforce
  with m1 show ?case by (auto intro!: exI [of _ "x # xs"])
qed simp

end

definition a_ready :: "amlq \<Rightarrow> pcb_t multiset" where
  "a_ready s = (\<Sum>i<MAX_PRIO. mset (a_items s i))"

definition mlq_ready :: "mlq_t \<Rightarrow> pcb_t multiset" where
  "mlq_ready m = a_ready (abs_mlq m)"

definition mlq_room :: "mlq_t \<Rightarrow> pcb_t \<Rightarrow> bool" where
  "mlq_room m p \<longleftrightarrow> length (q_items (queues m ! unat (prio p))) < MAX_QUEUE_SIZE"

definition legal_prio :: "pcb_t \<Rightarrow> bool" where
  "legal_prio p \<longleftrightarrow> unat (prio p) < MAX_PRIO"

lemma a_ready_update:
  assumes "i < MAX_PRIO"
  shows "a_ready (s\<lparr>a_items := (a_items s)(i := xs)\<rparr>) + mset (a_items s i) = a_ready s + mset xs"
proof -
  have "(\<Sum>j<MAX_PRIO. mset (f j)) = mset (f i) + (\<Sum>j\<in>{..<MAX_PRIO} - {i}. mset (f j))"
    for f :: "nat \<Rightarrow> pcb_t list"
    using assms by (simp add: sum.remove)
  then show ?thesis by (simp add: a_ready_def ac_simps)
qed

lemma a_ready_slots [simp]: "a_ready (s\<lparr>a_slots := f\<rparr>) = a_ready s"
  by (simp add: a_ready_def)

lemma a_ready_refill [simp]: "a_ready (a_refill s) = a_ready s"
  by (simp add: a_refill_def)

lemma a_ready_empty_iff: "a_ready s = {#} \<longleftrightarrow> a_idle s"
proof
  assume "a_ready s = {#}"
  then have "mset (a_items s i) = {#}" if "i < MAX_PRIO" for i
    using that by (simp add: a_ready_def sum.remove [of _ i])
  then show "a_idle s" by (simp add: a_idle_def)
qed (simp add: a_ready_def a_idle_def)

lemma a_ready_take:
  assumes "i < MAX_PRIO" and "a_items s i \<noteq> []"
  shows "a_ready s = add_mset (hd (a_items s i)) (a_ready (a_take i s))"
proof -
  obtain x xs where xs: "a_items s i = x # xs" using assms(2) by (cases "a_items s i") auto
  with a_ready_update [OF assms(1), of s xs] show ?thesis by (simp add: a_take_def)
qed

lemma a_pick_Some:
  "a_pick s = Some i \<Longrightarrow> i < MAX_PRIO \<and> a_items s i \<noteq> [] \<and> 0 < a_slots s i
     \<and> (\<forall>j<i. a_items s j = [] \<or> a_slots s j \<le> 0)"
  by (auto simp: a_pick_def find_Some_iff not_less)

lemma a_pick_refill_None: "a_pick (a_refill s) = None \<longleftrightarrow> a_idle s"
  by (auto simp: a_pick_def a_idle_def a_budget_def find_None_iff)

lemma a_get_ready:
  "case fst (a_get s) of
     None \<Rightarrow> a_ready s = {#} \<and> a_ready (snd (a_get s)) = {#}
   | Some x \<Rightarrow> a_ready s = add_mset x (a_ready (snd (a_get s)))"
proof (cases "a_pick s")
  case (Some i)
  then show ?thesis
    using a_ready_take [of i s] a_pick_Some [OF Some] by (simp add: a_get_def Let_def)
next
  case None
  note none = None
  show ?thesis
  proof (cases "a_pick (a_refill s)")
    case None
    with none show ?thesis
      using a_pick_refill_None [of s] a_ready_empty_iff [of s] by (simp add: a_get_def)
  next
    case (Some i)
    with none show ?thesis
      using a_ready_take [of i "a_refill s"] a_pick_Some [OF Some] by (simp add: a_get_def)
  qed
qed

lemma a_put_ready:
  assumes "unat (prio p) < MAX_PRIO"
  shows "a_ready (a_put p s) =
    (if length (a_items s (unat (prio p))) < MAX_QUEUE_SIZE then add_mset p (a_ready s) else a_ready s)"
  using a_ready_update [OF assms, of s "a_items s (unat (prio p)) @ [p]"]
  by (simp add: a_put_def Let_def)

interpretation mlq: process_pool get_mlq_proc put_mlq_proc mlq_ready mlq_room legal_prio mlq_ok
proof (unfold_locales, goal_cases)
  case (1 m)
  with get_mlq_proc_refines [of m] a_get_ready [of "abs_mlq m"] show ?case
    by (auto simp: mlq_ready_def split: option.splits)
next
  case (2 m)
  with get_mlq_proc_refines [of m] a_get_ready [of "abs_mlq m"] show ?case
    by (auto simp: mlq_ready_def split: option.splits)
next
  case (3 m x)
  with put_mlq_proc_refines [of m x] a_put_ready [of x "abs_mlq m"] show ?case
    by (auto simp: mlq_ready_def mlq_room_def legal_prio_def)
next
  case (4 m x)
  with put_mlq_proc_refines [of m x] a_put_ready [of x "abs_mlq m"] show ?case
    by (auto simp: mlq_ready_def mlq_room_def legal_prio_def)
qed

section \<open>Waiting time\<close>

text \<open>
  How many dispatches can pass before queue \<open>k\<close> is served: the budget the higher
  priorities have left while queue \<open>k\<close> has budget, else all the budget that is left and
  then a full budget of the higher priorities.
\<close>

definition wait_bound :: "amlq \<Rightarrow> nat \<Rightarrow> int" where
  "wait_bound s k =
     (if 0 < a_slots s k then \<Sum>i<k. a_slots s i
      else (\<Sum>i<MAX_PRIO. a_slots s i) + (\<Sum>i<k. a_budget i))"

definition slots_nonneg :: "amlq \<Rightarrow> bool" where
  "slots_nonneg s \<longleftrightarrow> (\<forall>i<MAX_PRIO. 0 \<le> a_slots s i)"

lemma a_budget_nonneg [simp]: "0 \<le> a_budget i" and a_budget_pos: "i < MAX_PRIO \<Longrightarrow> 0 < a_budget i"
  by (simp_all add: a_budget_def)

lemma slots_nonneg_sum: "slots_nonneg s \<Longrightarrow> k \<le> MAX_PRIO \<Longrightarrow> 0 \<le> (\<Sum>i<k. a_slots s i)"
  by (rule sum_nonneg) (auto simp: slots_nonneg_def)

lemma wait_bound_nonneg: "slots_nonneg s \<Longrightarrow> k < MAX_PRIO \<Longrightarrow> 0 \<le> wait_bound s k"
  using slots_nonneg_sum [of s k] slots_nonneg_sum [of s MAX_PRIO] sum_nonneg [of "{..<k}" a_budget]
  by (simp add: wait_bound_def)

lemma sum_slots_take:
  "(\<Sum>j<n. a_slots (a_take i s) j) = (\<Sum>j<n. a_slots s j) - (if i < n then 1 else 0)"
proof (cases "i < n")
  case True
  have "(\<Sum>j\<in>{..<n} - {i}. ((a_slots s)(i := a_slots s i - 1)) j) = (\<Sum>j\<in>{..<n} - {i}. a_slots s j)"
    by (rule sum.cong) auto
  with True show ?thesis
    by (simp add: a_take_def sum.remove [of "{..<n}" i])
qed (auto simp: a_take_def intro!: sum.cong)

text \<open>One dispatch serves queue \<open>k\<close> or comes closer to serving it.\<close>

lemma a_take_wait:
  assumes "a_pick s = Some i" and "i \<noteq> k" and "slots_nonneg s" and "k < MAX_PRIO"
    and "a_items s k \<noteq> []"
  shows "slots_nonneg (a_take i s)" and "wait_bound (a_take i s) k < wait_bound s k"
proof -
  have i: "i < MAX_PRIO" "0 < a_slots s i" "\<forall>j<i. a_items s j = [] \<or> a_slots s j \<le> 0"
    using a_pick_Some [OF assms(1)] by auto
  then show "slots_nonneg (a_take i s)"
    using assms(3) by (auto simp: slots_nonneg_def a_take_def)
  have "a_slots (a_take i s) k = a_slots s k" using assms(2) by (simp add: a_take_def)
  moreover have "i < k" if "0 < a_slots s k"
    using i(3) assms(2,5) that by (metis linorder_neqE_nat not_less)
  ultimately show "wait_bound (a_take i s) k < wait_bound s k"
    using i(1) by (simp add: wait_bound_def sum_slots_take)
qed

lemma a_get_wait:
  assumes s: "slots_nonneg s" and k: "k < MAX_PRIO" and p: "a_items s k = p # ps"
  shows "(fst (a_get s) = Some p \<and> a_items (snd (a_get s)) k = ps)
    \<or> (slots_nonneg (snd (a_get s)) \<and> a_items (snd (a_get s)) k = p # ps
        \<and> wait_bound (snd (a_get s)) k < wait_bound s k)"
proof (cases "a_pick s")
  case (Some i)
  show ?thesis
  proof (cases "i = k")
    case True
    with Some p show ?thesis by (simp add: a_get_def a_take_def Let_def)
  next
    case False
    then have items: "a_items (a_take i s) k = p # ps" using p by (simp add: a_take_def)
    then have "\<not> a_idle (a_take i s)" using k by (auto simp: a_idle_def)
    then show ?thesis
      using Some items a_take_wait [OF Some False s k] p by (simp add: a_get_def Let_def)
  qed
next
  case None
  let ?s = "a_refill s"
  have s': "slots_nonneg ?s" by (simp add: slots_nonneg_def)
  have "\<not> a_idle s" using k p by (auto simp: a_idle_def)
  then obtain i where i: "a_pick ?s = Some i" using a_pick_refill_None [of s] by auto
  have "a_slots s k \<le> 0" using None k p by (auto simp: a_pick_def find_None_iff)
  then have less: "wait_bound ?s k \<le> wait_bound s k"
    using a_budget_pos [OF k] slots_nonneg_sum [OF s order_refl] by (simp add: wait_bound_def)
  show ?thesis
  proof (cases "i = k")
    case True
    with i None p show ?thesis by (simp add: a_get_def a_take_def)
  next
    case False
    then have "a_items (a_take i ?s) k = p # ps" using p by (simp add: a_take_def)
    then show ?thesis
      using None i a_take_wait [OF i False s' k] less p by (simp add: a_get_def)
  qed
qed

lemma a_put_wait:
  "\<exists>qs. a_items (a_put x s) k = a_items s k @ qs"
  "slots_nonneg (a_put x s) = slots_nonneg s"
  "wait_bound (a_put x s) k = wait_bound s k"
  by (auto simp: a_put_def Let_def slots_nonneg_def wait_bound_def)

lemma mlq_ok_slots_nonneg: "mlq_ok m \<Longrightarrow> slots_nonneg (abs_mlq m)"
  using mlq_ok_slot by (auto simp: slots_nonneg_def)

lemma slot_count_abs:
  assumes "mlq_ok m"
  shows "slot_count m = (\<Sum>i<MAX_PRIO. a_slots (abs_mlq m) i)"
proof -
  have "slot_count m = (\<Sum>i\<leftarrow>[0..<MAX_PRIO]. slot (queues m ! i))"
    using mlq_ok_slot_count [OF assms] mlq_ok_length [OF assms]
    by (metis (no_types, lifting) map_map map_nth comp_def map_eq_conv)
  then show ?thesis
    by (simp add: interv_sum_list_conv_sum_set_nat atLeast0LessThan)
qed

lemma wait_bound_le:
  assumes "mlq_ok m" and "k < MAX_PRIO"
  shows "wait_bound (abs_mlq m) k \<le> slot_count m + (\<Sum>i<k. a_budget i)"
proof -
  have "(\<Sum>i<k. a_slots (abs_mlq m) i) \<le> (\<Sum>i<MAX_PRIO. a_slots (abs_mlq m) i)"
    using mlq_ok_slots_nonneg [OF assms(1)] assms(2)
    by (intro sum_mono2) (auto simp: slots_nonneg_def)
  moreover have "0 \<le> (\<Sum>i<k. a_budget i)" by (rule sum_nonneg) simp
  ultimately show ?thesis using slot_count_abs [OF assms(1)] by (simp add: wait_bound_def)
qed

text \<open>
  Once the head of queue \<open>k\<close> is dispatched, the next process of the queue waits at most as
  long as a queue waits when every budget is full.
\<close>

definition full_wait :: "nat \<Rightarrow> int" where
  "full_wait k = (\<Sum>i<MAX_PRIO. a_budget i) + (\<Sum>i<k. a_budget i) + 1"

lemma wait_bound_full:
  assumes "mlq_ok m" and "k < MAX_PRIO"
  shows "wait_bound (abs_mlq m) k < full_wait k"
proof -
  have "slot_count m \<le> (\<Sum>i<MAX_PRIO. a_budget i)"
    unfolding slot_count_abs [OF assms(1)] using mlq_ok_slot [OF assms(1)] by (intro sum_mono) simp
  with wait_bound_le [OF assms] show ?thesis by (simp add: full_wait_def)
qed

text \<open>Any sequence of scheduler operations, and the processes it dispatches.\<close>

datatype sched_op = Get | Put pcb_t

fun sched_run :: "mlq_t \<Rightarrow> sched_op list \<Rightarrow> (pcb_t list \<times> mlq_t) option" where
  "sched_run m [] = Some ([], m)"
| "sched_run m (Get # ops) =
     do { (p, m1) \<leftarrow> get_proc m;
          (ps, m2) \<leftarrow> sched_run m1 ops;
          Some (case p of None \<Rightarrow> ps | Some x \<Rightarrow> x # ps, m2) }"
| "sched_run m (Put x # ops) = do { m1 \<leftarrow> put_proc m x; sched_run m1 ops }"

fun puts :: "sched_op list \<Rightarrow> pcb_t list" where
  "puts [] = []"
| "puts (Get # ops) = puts ops"
| "puts (Put x # ops) = x # puts ops"

fun gets :: "sched_op list \<Rightarrow> nat" where
  "gets [] = 0"
| "gets (Get # ops) = Suc (gets ops)"
| "gets (Put x # ops) = gets ops"

lemma sched_run_conserves:
  "\<lbrakk>mlq_ok m; \<forall>x\<in>set (puts ops). legal_prio x\<rbrakk> \<Longrightarrow>
   \<exists>ps m'. sched_run m ops = Some (ps, m') \<and> mlq_ok m'
     \<and> mset ps + mlq_ready m' \<subseteq># mlq_ready m + mset (puts ops)"
proof (induction ops arbitrary: m rule: puts.induct)
  case 1
  then show ?case by simp
next
  case (2 ops)
  obtain p m1 where m1: "get_mlq_proc m = Some (p, m1)" "mlq_ok m1"
      "mlq_ready m = (case p of None \<Rightarrow> {#} | Some x \<Rightarrow> add_mset x (mlq_ready m1))"
      "p = None \<Longrightarrow> mlq_ready m1 = {#}"
    using mlq.get_total [OF 2(2)] by blast
  then obtain ps m' where "sched_run m1 ops = Some (ps, m')" "mlq_ok m'"
      "mset ps + mlq_ready m' \<subseteq># mlq_ready m1 + mset (puts ops)"
    using 2(1) [OF m1(2)] 2(3) by auto
  with m1 show ?case by (auto simp: get_proc_def split: option.splits)
next
  case (3 x ops)
  then obtain m1 where m1: "put_mlq_proc m x = Some m1" "mlq_ok m1"
      "mlq_ready m1 = (if mlq_room m x then add_mset x (mlq_ready m) else mlq_ready m)"
    using mlq.put_total [of m x] by auto
  then obtain ps m' where ps: "sched_run m1 ops = Some (ps, m')" "mlq_ok m'"
      "mset ps + mlq_ready m' \<subseteq># mlq_ready m1 + mset (puts ops)"
    using 3(1) [OF m1(2)] 3(3) by auto
  have "mlq_ready m1 + mset (puts ops) \<subseteq># mlq_ready m + mset (puts (Put x # ops))"
    using m1(3) by (auto simp: subset_mset.add_increasing)
  with m1(1) ps show ?case by (auto simp: put_proc_def intro: subset_mset.order_trans)
qed

lemma sched_run_serves:
  "\<lbrakk>mlq_ok m; k < MAX_PRIO; n < length (a_items (abs_mlq m) k); \<forall>x\<in>set (puts ops). legal_prio x;
    wait_bound (abs_mlq m) k + int n * full_wait k < int (gets ops)\<rbrakk> \<Longrightarrow>
   \<exists>xs m'. sched_run m ops = Some (xs, m') \<and> a_items (abs_mlq m) k ! n \<in> set xs"
proof (induction ops arbitrary: m n rule: puts.induct)
  case 1
  have "0 \<le> wait_bound (abs_mlq m) k" by (rule wait_bound_nonneg [OF mlq_ok_slots_nonneg [OF 1(1)] 1(2)])
  moreover from this have "0 \<le> int n * full_wait k" using wait_bound_full [OF 1(1,2)] by simp
  ultimately show ?case using 1(5) by simp
next
  case (2 ops)
  let ?s = "abs_mlq m"
  obtain m1 where m1: "get_mlq_proc m = Some (fst (a_get ?s), m1)" "mlq_ok m1" "abs_mlq m1 = snd (a_get ?s)"
    using get_mlq_proc_refines [OF 2(2)] by auto
  obtain q qs where q: "a_items ?s k = q # qs" using 2(4) by (cases "a_items ?s k") auto
  show ?case
  proof (cases "n = 0 \<and> fst (a_get ?s) = Some q")
    case True
    with m1 2(5) q sched_run_conserves [OF m1(2), of ops] show ?thesis by (auto simp: get_proc_def)
  next
    case False
    obtain n1 where n1: "n1 < length (a_items (abs_mlq m1) k)" "a_items (abs_mlq m1) k ! n1 = a_items ?s k ! n"
      "wait_bound (abs_mlq m1) k + int n1 * full_wait k < wait_bound ?s k + int n * full_wait k"
    proof (cases "a_items (abs_mlq m1) k = qs \<and> n \<noteq> 0")
      case True
      have "0 \<le> wait_bound ?s k" by (rule wait_bound_nonneg [OF mlq_ok_slots_nonneg [OF 2(2)] 2(3)])
      with True that [of "n - 1"] wait_bound_full [OF m1(2) 2(3)] q 2(4)
      show thesis by (cases n) (simp_all add: algebra_simps)
    next
      case other: False
      with False a_get_wait [OF mlq_ok_slots_nonneg [OF 2(2)] 2(3) q] m1(3)
      have "a_items (abs_mlq m1) k = q # qs" "wait_bound (abs_mlq m1) k < wait_bound ?s k" by auto
      with that [of n] q 2(4) show thesis by simp
    qed
    then obtain xs m' where "sched_run m1 ops = Some (xs, m')" "a_items ?s k ! n \<in> set xs"
      using 2(1) [OF m1(2) 2(3) n1(1)] 2(5,6) by fastforce
    with m1(1) show ?thesis by (auto simp: get_proc_def split: option.splits)
  qed
next
  case (3 x ops)
  then obtain m1 where m1: "put_mlq_proc m x = Some m1" "mlq_ok m1"
      "abs_mlq m1 = a_put x (abs_mlq m)"
    using put_mlq_proc_refines [of m x] by (auto simp: legal_prio_def)
  obtain qs where qs: "a_items (abs_mlq m1) k = a_items (abs_mlq m) k @ qs"
    using a_put_wait(1) [of x "abs_mlq m" k] m1(3) by auto
  then have "n < length (a_items (abs_mlq m1) k)" using 3(4) by simp
  from 3(1) [OF m1(2) 3(3) this] 3(4-6) m1(1,3) qs a_put_wait(3) [of x "abs_mlq m" k]
  show ?case by (auto simp: put_proc_def nth_append)
qed

lemma gets_replicate [simp]: "gets (replicate n Get) = n"
  and puts_replicate [simp]: "puts (replicate n Get) = []"
  by (induction n) auto

lemma sched_run_get_n:
  "mlq.get_n n m = Some (map Some xs, m') \<Longrightarrow> sched_run m (replicate n Get) = Some (xs, m')"
proof (induction n arbitrary: m xs)
  case (Suc n)
  then obtain p m1 ps m2 where m1: "get_mlq_proc m = Some (p, m1)" "mlq.get_n n m1 = Some (ps, m2)"
      "p # ps = map Some xs" "m2 = m'"
    by (auto simp: bind_Some_iff)
  then obtain x xs' where "xs = x # xs'" "p = Some x" "ps = map Some xs'" by auto
  with m1 Suc.IH [of m1 xs'] show ?case by (simp add: get_proc_def)
qed simp

section \<open>Sample states for the witnesses\<close>

definition mlq0 :: mlq_t where
  "mlq0 = \<lparr>queues = replicate MAX_PRIO queue0, proc_count = 0, slot_count = 0\<rparr>"

lemma mlq0_init: "mlq_ok (init_scheduler mlq0)" "a_idle (abs_mlq (init_scheduler mlq0))"
proof -
  have "\<forall>i<MAX_PRIO. length (proc (queues mlq0 ! i)) = MAX_QUEUE_SIZE"
    by (simp add: mlq0_def queue0_def)
  then show "mlq_ok (init_scheduler mlq0)" "a_idle (abs_mlq (init_scheduler mlq0))"
    using init_scheduler_ok [of mlq0] by blast+
qed

lemma legal_pcb0 [simp]: "legal_prio pcb0"
  and unat_prio_pcb0 [simp]: "unat (prio pcb0) = 0"
  by (simp_all add: legal_prio_def pcb0_def MAX_PRIO_def)

lemma MAX_PRIO_pos [simp]: "0 < MAX_PRIO"
  by (simp add: MAX_PRIO_def)

lemma full_queue_reachable:
  "n \<le> MAX_QUEUE_SIZE \<Longrightarrow> \<exists>m. mlq_ok m \<and> q_items (queues m ! 0) = replicate n pcb0
     \<and> slot_count m = 9870 \<and> mlq_ready m = replicate_mset n pcb0"
proof (induction n)
  case 0
  have "slot_count (init_scheduler mlq0) = 9870"
    by (simp add: init_scheduler_def MAX_PRIO_def)
  then show ?case using mlq0_init by (auto simp: a_idle_def mlq_ready_def a_ready_empty_iff)
next
  case (Suc n)
  then obtain m where m: "mlq_ok m" "q_items (queues m ! 0) = replicate n pcb0"
      "slot_count m = 9870" "mlq_ready m = replicate_mset n pcb0" by auto
  then obtain m' where m': "mlq_ok m'" "abs_mlq m' = a_put pcb0 (abs_mlq m)"
    using put_mlq_proc_refines [of m pcb0] by auto
  have "slot_count m' = slot_count m"
    unfolding slot_count_abs [OF m'(1)] slot_count_abs [OF m(1)] m'(2)
    by (simp add: a_put_def Let_def)
  moreover have "a_items (abs_mlq m') 0 = replicate (Suc n) pcb0"
    unfolding m'(2) using m(2) Suc.prems by (simp add: a_put_def replicate_append_same)
  moreover have "mlq_ready m' = replicate_mset (Suc n) pcb0"
    using a_put_ready [of pcb0 "abs_mlq m"] m(2,4) m'(2) Suc.prems by (simp add: mlq_ready_def)
  ultimately show ?case using m(3) m'(1) by auto
qed

lemma sample_state:
  obtains m where "mlq_ok m" and "q_items (queues m ! 0) = [pcb0]" and "slot_count m = 9870"
    and "mlq_ready m = {#pcb0#}"
  using full_queue_reachable [of 1] by (auto simp: MAX_QUEUE_SIZE_def)

lemma sum_all_budgets: "(\<Sum>i<MAX_PRIO. a_budget i) = 9870"
  using slot_total by (simp add: a_budget_def interv_sum_list_conv_sum_set_nat atLeast0LessThan MAX_PRIO_def)

lemma sample_two:
  obtains m q where "mlq_ok m" and "q_items (queues m ! 0) = [pcb0, q]" and "q \<noteq> pcb0" and "slot_count m = 9870"
proof -
  obtain m where m: "mlq_ok m" "q_items (queues m ! 0) = [pcb0]" "slot_count m = 9870" by (rule sample_state)
  define q where "q = pcb0\<lparr>pid := 7\<rparr>"
  have prio: "prio q = 0" by (simp add: q_def pcb0_def)
  have "unat (prio q) < MAX_PRIO" by (simp add: prio)
  from put_mlq_proc_refines [OF m(1) this] obtain m' where m': "mlq_ok m'" "abs_mlq m' = a_put q (abs_mlq m)" by blast
  have "a_items (abs_mlq m') 0 = [pcb0, q]" "a_slots (abs_mlq m') = a_slots (abs_mlq m)"
    using m(2) by (simp_all add: m'(2) a_put_def prio MAX_QUEUE_SIZE_def)
  then show thesis
    using that [of m' q] m(3) m'(1) slot_count_abs [OF m(1)] slot_count_abs [OF m'(1)] by (simp add: q_def pcb0_def)
qed

section \<open>Properties\<close>

text \<open>
  C7: the multi-level queue implements the abstract scheduler: on every state that keeps
  the invariant, \<open>get_proc\<close> and \<open>put_proc\<close> return (no access leaves an array), keep the
  invariant, and their effect on the ready lists and the slot budgets is the abstract
  one, including the refill. \<open>init_scheduler\<close> establishes the invariant with no process.
\<close>

theorem mlq_refines_abstract:
  assumes "mlq_ok m"
  shows "(\<exists>m'. get_proc m = Some (fst (a_get (abs_mlq m)), m') \<and> mlq_ok m'
      \<and> abs_mlq m' = snd (a_get (abs_mlq m)))
    \<and> (legal_prio p \<longrightarrow> (\<exists>m'. put_proc m p = Some m' \<and> mlq_ok m' \<and> abs_mlq m' = a_put p (abs_mlq m)))
    \<and> mlq_ok (init_scheduler m) \<and> a_idle (abs_mlq (init_scheduler m))"
proof -
  have "\<forall>i<MAX_PRIO. length (proc (queues m ! i)) = MAX_QUEUE_SIZE"
    using mlq_ok_queue [OF assms] by (simp add: queue_ok_def)
  then show ?thesis
    using get_mlq_proc_refines [OF assms] put_mlq_proc_refines [OF assms, of p]
      init_scheduler_ok [of m] by (simp add: get_proc_def put_proc_def legal_prio_def)
qed

theorem mlq_refines_abstract_witness:
  "\<exists>m'. put_proc (init_scheduler mlq0) pcb0 = Some m'
     \<and> abs_mlq m' = a_put pcb0 (abs_mlq (init_scheduler mlq0))"
  using mlq_refines_abstract [OF mlq0_init(1), of pcb0] by auto

text \<open>
  C29: no starvation. Whatever processes are put back or added in between, the process at
  any place \<open>n\<close> of the queue of priority \<open>k\<close> is dispatched, at the latest when the number
  of dispatches exceeds the slots left over all queues plus one full budget of every higher
  priority, and for each process ahead of it in its queue the full budgets of all
  priorities and of the higher ones once more.
\<close>

theorem mlq_no_starvation:
  assumes "mlq_ok m" and "k < MAX_PRIO" and "n < length (q_items (queues m ! k))"
    and "\<forall>x\<in>set (puts ops). legal_prio x"
    and "slot_count m + (\<Sum>i<k. a_budget i)
      + int n * ((\<Sum>i<MAX_PRIO. a_budget i) + (\<Sum>i<k. a_budget i) + 1) < int (gets ops)"
  shows "\<exists>xs m'. sched_run m ops = Some (xs, m') \<and> q_items (queues m ! k) ! n \<in> set xs"
  using sched_run_serves [OF assms(1,2) _ assms(4), of n] assms(2,3,5)
    wait_bound_le [OF assms(1,2)] by (simp add: full_wait_def)

theorem mlq_no_starvation_witness:
  "\<exists>m q. mlq_ok m \<and> q_items (queues m ! 0) = [pcb0, q] \<and> q \<noteq> pcb0
     \<and> (\<exists>xs m'. sched_run m (replicate 19742 Get) = Some (xs, m') \<and> q \<in> set xs)"
proof -
  obtain m q where m: "mlq_ok m" "q_items (queues m ! 0) = [pcb0, q]" "q \<noteq> pcb0" "slot_count m = 9870"
    by (rule sample_two)
  have "slot_count m + (\<Sum>i<0. a_budget i)
      + int 1 * ((\<Sum>i<MAX_PRIO. a_budget i) + (\<Sum>i<0. a_budget i) + 1) < int (gets (replicate 19742 Get))"
    unfolding gets_replicate sum_all_budgets using m(4) by simp
  with mlq_no_starvation [OF m(1) MAX_PRIO_pos, of 1] m(1-3) show ?thesis
    by (metis puts_replicate empty_iff list.set(1) length_Cons list.size(3) lessI nth_Cons_0 nth_Cons_Suc One_nat_def)
qed

text \<open>
  The scheduler is work conserving: \<open>get_proc\<close> returns the null pointer exactly when
  no process is ready in any queue, exhausted slot budgets included.
\<close>

theorem get_proc_work_conserving:
  assumes "mlq_ok m" and "get_proc m = Some (r, m')"
  shows "r = None \<longleftrightarrow> mlq_ready m = {#}"
  using mlq.get_None_iff [OF assms(1)] assms(2) by (simp add: get_proc_def)

theorem get_proc_work_conserving_witness:
  "\<exists>m r m'. mlq_ok m \<and> get_proc m = Some (r, m') \<and> r \<noteq> None"
proof -
  obtain m where m: "mlq_ok m" "mlq_ready m = {#pcb0#}" by (rule sample_state)
  obtain r m' where r: "get_proc m = Some (r, m')"
    using get_mlq_proc_refines [OF m(1)] by (auto simp: get_proc_def)
  with get_proc_work_conserving [OF m(1) r] m show ?thesis by auto
qed

text \<open>
  Priority order. The process \<open>get_proc\<close> dispatches is the first of the queue of its
  own priority, and every higher priority has no ready process or no slot left.
\<close>

theorem get_proc_highest_priority:
  assumes "mlq_ok m" and "get_proc m = Some (Some p, m')"
  shows "\<exists>i<MAX_PRIO. unat (prio p) = i \<and> q_items (queues m ! i) \<noteq> [] \<and> hd (q_items (queues m ! i)) = p
    \<and> (\<forall>j<i. q_items (queues m ! j) = [] \<or> slot (queues m ! j) = 0)"
proof -
  let ?s = "abs_mlq m"
  have p: "fst (a_get ?s) = Some p"
    using get_mlq_proc_refines [OF assms(1)] assms(2) by (auto simp: get_proc_def)
  obtain i where i: "i < MAX_PRIO" "a_items ?s i \<noteq> []" "hd (a_items ?s i) = p"
      "\<forall>j<i. a_items ?s j = [] \<or> a_slots ?s j \<le> 0"
  proof (cases "a_pick ?s")
    case (Some i)
    with p a_pick_Some [OF Some] that show thesis by (auto simp: a_get_def Let_def)
  next
    case None
    with p obtain i where "a_pick (a_refill ?s) = Some i" "hd (a_items ?s i) = p"
      by (auto simp: a_get_def split: option.splits)
    with a_pick_Some [of "a_refill ?s" i] that [of i] show thesis
      by (auto simp: a_budget_def)
  qed
  have "unat (prio p) = i"
    using mlq_ok_prio [OF assms(1) i(1)] i by (metis a_items_abs hd_in_set)
  moreover have "q_items (queues m ! j) = [] \<or> slot (queues m ! j) = 0" if "j < i" for j
    using i(1,4) that mlq_ok_slot [OF assms(1), of j] by force
  ultimately show ?thesis using i by auto
qed

theorem get_proc_highest_priority_witness:
  "\<exists>m m'. mlq_ok m \<and> get_proc m = Some (Some pcb0, m') \<and> hd (q_items (queues m ! 0)) = pcb0"
proof -
  obtain m where m: "mlq_ok m" "mlq_ready m = {#pcb0#}" by (rule sample_state)
  then obtain p m' where p: "get_proc m = Some (Some p, m')" "p = pcb0"
    using mlq.get_Some [OF m(1)] by (auto simp: get_proc_def)
  with get_proc_highest_priority [OF m(1) p(1)] m(1) show ?thesis by auto
qed

text \<open>
  No process is invented or duplicated. Over any sequence of scheduler operations the
  processes dispatched, together with those still ready, are among those that were ready
  at the start and those put in.
\<close>

theorem sched_run_no_duplicates:
  assumes "mlq_ok m" and "\<forall>x\<in>set (puts ops). legal_prio x"
  shows "\<exists>ps m'. sched_run m ops = Some (ps, m') \<and> mlq_ok m'
    \<and> mset ps + mlq_ready m' \<subseteq># mlq_ready m + mset (puts ops)"
  using assms by (rule sched_run_conserves)

theorem sched_run_no_duplicates_witness:
  "\<exists>ps m'. sched_run (init_scheduler mlq0) [Put pcb0, Get, Get] = Some (ps, m')
     \<and> mset ps + mlq_ready m' \<subseteq># {#pcb0#}"
  using sched_run_no_duplicates [OF mlq0_init(1), of "[Put pcb0, Get, Get]"] mlq0_init(2)
  by (auto simp: mlq_ready_def a_ready_empty_iff [symmetric])

text \<open>
  Every ready process gets out: as many dispatches as there are ready processes
  return all of them, each once.
\<close>

theorem sched_run_drains:
  assumes "mlq_ok m"
  shows "\<exists>xs m'. sched_run m (replicate (size (mlq_ready m)) Get) = Some (xs, m')
    \<and> mset xs = mlq_ready m \<and> mlq_ready m' = {#}"
  using mlq.get_n_drains [OF assms refl] sched_run_get_n by blast

theorem sched_run_drains_witness:
  "\<exists>m xs m'. sched_run m (replicate 1 Get) = Some (xs, m') \<and> mset xs = {#pcb0#}"
proof -
  obtain m where m: "mlq_ok m" "mlq_ready m = {#pcb0#}" by (rule sample_state)
  with sched_run_drains [OF m(1)] show ?thesis by auto
qed

text \<open>
  A process whose queue is full is lost. \<open>put_proc\<close> and \<open>add_proc\<close> ignore the \<open>-1\<close> of
  \<open>enqueue\<close>: with ten processes of one priority ready, an eleventh that is put back
  leaves the scheduler unchanged and is never dispatched again.
\<close>

theorem put_proc_full_loses_process:
  assumes "mlq_ok m" and "legal_prio p"
    and "length (q_items (queues m ! unat (prio p))) = MAX_QUEUE_SIZE"
  shows "put_proc m p = Some m \<and> add_proc m p = Some m"
proof -
  define i where "i = unat (prio p)"
  have i: "i < MAX_PRIO" "uint (prio p) = int i"
    using assms(2) by (simp_all add: i_def legal_prio_def)
  have "list_get (queues m) (int i) = Some (queues m ! i)"
    using i mlq_ok_length [OF assms(1)] by (simp add: arr_simps)
  moreover have "enqueue (queues m ! i) p = Some (-1, queues m ! i)"
    using rq.enq_full mlq_ok_queue [OF assms(1) i(1)] assms(3) by (simp add: i_def)
  ultimately show ?thesis
    using i by (simp add: put_proc_def add_proc_def add_mlq_proc_eq put_mlq_proc_def)
qed

theorem put_proc_full_loses_process_witness:
  "\<exists>m. mlq_ok m \<and> length (q_items (queues m ! 0)) = 10 \<and> put_proc m pcb0 = Some m"
proof -
  obtain m where m: "mlq_ok m" "length (q_items (queues m ! 0)) = MAX_QUEUE_SIZE"
    using full_queue_reachable [of MAX_QUEUE_SIZE] by auto
  with put_proc_full_loses_process [OF m(1) legal_pcb0] show ?thesis
    by (auto simp: MAX_QUEUE_SIZE_def)
qed

end
