(* ===== verification/Pool.thy ===== *)
theory Pool
  imports Isolation Sched
begin

text \<open>
  The processes of the running simulator: a collection that grows when the loader adds a
  process and shrinks when one finishes, wherever its members are (in a ready queue or on a
  processor). The invariant of the theory Isolation is restated for a multiset of control
  blocks, and kept by the three things that happen to it.
\<close>

section \<open>The invariant of a pool of processes\<close>

definition pool_ram :: "pcb_t multiset \<Rightarrow> int set" where
  "pool_ram M = (\<Union>p\<in>set_mset M. used_ram (mm p))"

definition pool_swp :: "pcb_t multiset \<Rightarrow> int set" where
  "pool_swp M = (\<Union>p\<in>set_mset M. used_swp (mm p))"

definition devs_ok :: "memphy_struct \<Rightarrow> memphy_struct \<Rightarrow> bool" where
  "devs_ok ram swp \<longleftrightarrow> dev_ok ram \<and> frames ram \<subseteq> {0..<1024} \<and> dev_ok swp \<and> frames swp \<subseteq> {0..<2097152}
     \<and> (\<forall>f\<in>set (free_fp_list ram). \<forall>i\<in>{0..<PAGING_PAGESZ}. frame_byte ram f i = 0)"

definition procs_ok :: "pcb_t multiset \<Rightarrow> memphy_struct \<Rightarrow> memphy_struct \<Rightarrow> bool" where
  "procs_ok M ram swp \<longleftrightarrow>
     (\<forall>p\<in>#M. mm_ok (pool_ram (M - {#p#})) (pool_swp (M - {#p#})) (ctx_of p ram swp))"

definition pool_ok :: "pcb_t multiset \<Rightarrow> memphy_struct \<Rightarrow> memphy_struct \<Rightarrow> bool" where
  "pool_ok M ram swp \<longleftrightarrow> devs_ok ram swp \<and> procs_ok M ram swp"

text \<open>The list of the theory Isolation and the multiset say the same.\<close>

lemma mset_remove_nth: "i < length xs \<Longrightarrow> mset xs - {#xs ! i#} = image_mset (\<lambda>j. xs ! j) (mset_set ({0..<length xs} - {i}))"
proof -
  assume i: "i < length xs"
  have "mset xs = image_mset (\<lambda>j. xs ! j) (mset_set {0..<length xs})"
    by (metis map_nth mset_map mset_upt)
  also have "mset_set {0..<length xs} = add_mset i (mset_set ({0..<length xs} - {i}))"
    using i by (intro mset_set.remove) simp_all
  finally show ?thesis by simp
qed

lemma others_pool:
  assumes "i < length ps"
  shows "others_ram ps i = pool_ram (mset ps - {#ps ! i#})" and "others_swp ps i = pool_swp (mset ps - {#ps ! i#})"
  by (simp_all add: mset_remove_nth [OF assms] others_ram_def others_swp_def pool_ram_def pool_swp_def)

lemma sys_ok_pool: "sys_ok \<lparr>procs = ps, m_ram = ram, m_swp = swp\<rparr> \<longleftrightarrow> procs_ok (mset ps) ram swp"
proof -
  have "sys_ok \<lparr>procs = ps, m_ram = ram, m_swp = swp\<rparr> \<longleftrightarrow> (\<forall>i<length ps. mm_ok (pool_ram (mset ps - {#ps ! i#}))
      (pool_swp (mset ps - {#ps ! i#})) (ctx_of (ps ! i) ram swp))"
    unfolding sys_ok_def ctx_def by (simp only: machine.select_convs others_pool cong: imp_cong)
  also have "\<dots> \<longleftrightarrow> procs_ok (mset ps) ram swp"
    by (simp add: procs_ok_def all_set_conv_all_nth)
  finally show ?thesis .
qed

section \<open>A process leaves\<close>

lemma vm_ok_anti:
  assumes "vm_ok R S c" "R' \<subseteq> R" "S' \<subseteq> S"
  shows "vm_ok R' S' c"
proof -
  have "A \<inter> R = {} \<Longrightarrow> A \<inter> R' = {}" "A \<inter> S = {} \<Longrightarrow> A \<inter> S' = {}" for A using assms(2,3) by blast+
  then show ?thesis using assms(1) unfolding vm_ok_def Int_Un_distrib Un_empty by simp
qed

lemma pool_mono: "set_mset M \<subseteq> set_mset N \<Longrightarrow> pool_ram M \<subseteq> pool_ram N"
    "set_mset M \<subseteq> set_mset N \<Longrightarrow> pool_swp M \<subseteq> pool_swp N"
  by (auto simp: pool_ram_def pool_swp_def)

lemma pool_add [simp]: "pool_ram (add_mset p M) = used_ram (mm p) \<union> pool_ram M"
    "pool_swp (add_mset p M) = used_swp (mm p) \<union> pool_swp M"
  by (simp_all add: pool_ram_def pool_swp_def)

lemma pool_remove:
  assumes "pool_ok (add_mset p M) ram swp"
  shows "pool_ok M ram swp"
proof -
  have "mm_ok (pool_ram (M - {#q#})) (pool_swp (M - {#q#})) (ctx_of q ram swp)" if "q \<in># M" for q
  proof -
    have "mm_ok (pool_ram (add_mset p M - {#q#})) (pool_swp (add_mset p M - {#q#})) (ctx_of q ram swp)"
      using assms that by (simp add: pool_ok_def procs_ok_def)
    moreover have "add_mset p M - {#q#} = add_mset p (M - {#q#})" using that by (cases "p = q") simp_all
    then have "set_mset (M - {#q#}) \<subseteq> set_mset (add_mset p M - {#q#})" by auto
    ultimately show ?thesis unfolding mm_ok_def using vm_ok_anti [OF _ pool_mono] by blast
  qed
  then show ?thesis using assms by (simp add: pool_ok_def procs_ok_def)
qed

section \<open>A process is loaded\<close>

definition fresh_mm :: "mm_struct \<Rightarrow> bool" where
  "fresh_mm m \<longleftrightarrow> (\<exists>m0. m = snd (init_mm [] m0) \<and> symrgtbl m0 = replicate 30 rg0)"

lemma fresh_fields:
  assumes "fresh_mm m"
  shows "current_max_pgn m = -1" "pgd m = (\<lambda>_. 0)" "fifo_using_pgn m = []" "num_of_fifo_using_pgn m = 0" "regions_ok m"
    "used_ram m = {}" "used_swp m = {}"
proof -
  show 1: "current_max_pgn m = -1" "pgd m = (\<lambda>_. 0)" "fifo_using_pgn m = []" "num_of_fifo_using_pgn m = 0" "regions_ok m"
    using assms init_mm_regions by (auto simp: fresh_mm_def init_mm_def Let_def)
  then show "used_ram m = {}" "used_swp m = {}" by (simp_all add: used_ram_def used_swp_def)
qed

lemma pool_free:
  assumes "pool_ok M ram swp"
  shows "set (free_fp_list ram) \<inter> pool_ram M = {}" "set (free_fp_list swp) \<inter> pool_swp M = {}"
proof -
  have "used_ram (mm q) \<inter> set (free_fp_list ram) = {} \<and> used_swp (mm q) \<inter> set (free_fp_list swp) = {}" if "q \<in># M" for q
  proof -
    have "vm_ok (pool_ram (M - {#q#})) (pool_swp (M - {#q#})) (ctx_of q ram swp)"
      using assms that by (simp add: pool_ok_def procs_ok_def mm_ok_def)
    from vm_ok_ram_used(2) [OF this] vm_ok_swp_used(2) [OF this] show ?thesis
      unfolding used_ram_eq [symmetric] used_swp_eq [symmetric] by (auto simp: ctx_of_def)
  qed
  then show "set (free_fp_list ram) \<inter> pool_ram M = {}" "set (free_fp_list swp) \<inter> pool_swp M = {}"
    by (auto simp: pool_ram_def pool_swp_def)
qed

lemma pool_add_fresh:
  assumes ok: "pool_ok M ram swp" and new: "fresh_mm (mm p)"
  shows "pool_ok (add_mset p M) ram swp"
proof -
  note f = fresh_fields [OF new]
  let ?c = "ctx_of p ram swp"
  have sets: "mapped ?c = {}" "resident ?c = {}" "swapped ?c = {}" "pte_at ?c x = 0" for x
    by (simp_all add: mapped_def resident_def swapped_def pte_at_def f ctx_of_def)
  have "vm_ok (pool_ram M) (pool_swp M) ?c"
    unfolding vm_ok_def sets using ok pool_free [OF ok]
    by (simp add: f PAGING_MAX_PGN_def pool_ok_def devs_ok_def ctx_of_def)
  then have self: "mm_ok (pool_ram M) (pool_swp M) ?c" using f(5) by (simp add: mm_ok_def ctx_of_def)
  have "mm_ok (pool_ram (add_mset p M - {#q#})) (pool_swp (add_mset p M - {#q#})) (ctx_of q ram swp)"
    if "q \<in># add_mset p M" for q
  proof (cases "q = p")
    case False
    then have "q \<in># M" using that by simp
    moreover have "add_mset p M - {#q#} = add_mset p (M - {#q#})" using False by simp
    ultimately show ?thesis using ok by (simp add: pool_ok_def procs_ok_def f(6,7))
  qed (simp add: self)
  then show ?thesis using ok by (simp add: pool_ok_def procs_ok_def)
qed

section \<open>A process executes an instruction\<close>

lemma pool_run:
  assumes ok: "pool_ok (add_mset p M) ram swp" and legal: "legal_step p"
    and run: "run p ram swp = Some (r, out, p', ram', swp')"
  shows "pool_ok (add_mset p' M) ram' swp'"
    and "q \<in># M \<Longrightarrow> a \<in> vdom (ctx_of q ram swp) \<Longrightarrow> vread (ctx_of q ram' swp') a = vread (ctx_of q ram swp) a"
proof -
  obtain xs where xs: "mset xs = M" using ex_mset by blast
  let ?s = "\<lparr>procs = p # xs, m_ram = ram, m_swp = swp\<rparr>" let ?s' = "\<lparr>procs = p' # xs, m_ram = ram', m_swp = swp'\<rparr>"
  have sok: "sys_ok ?s" using ok xs by (simp add: sys_ok_pool pool_ok_def)
  have step: "sys_step ?s 0 ?s'"
    using exec [of 0 ?s r out p' ram' swp'] legal run by simp
  note res = sys_step_ok [OF sok step]
  then have "procs_ok (add_mset p' M) ram' swp'" using xs by (simp add: sys_ok_pool)
  moreover from this have "vm_ok (pool_ram M) (pool_swp M) (ctx_of p' ram' swp')"
    by (simp add: procs_ok_def mm_ok_def)
  then have "devs_ok ram' swp'" by (simp add: vm_ok_def devs_ok_def ctx_of_def)
  ultimately show "pool_ok (add_mset p' M) ram' swp'" by (simp add: pool_ok_def)
  show "vread (ctx_of q ram' swp') a = vread (ctx_of q ram swp) a" if "q \<in># M" "a \<in> vdom (ctx_of q ram swp)"
  proof -
    have "q \<in> set xs" using that(1) unfolding xs [symmetric] by simp
    then obtain j where j: "j < length xs" "xs ! j = q" unfolding in_set_conv_nth by blast
    have "Suc j < length (procs ?s)" "Suc j \<noteq> 0" using j by simp_all
    with res [THEN conjunct2, THEN conjunct2, THEN spec, of "Suc j"]
    have same: "\<forall>a\<in>vdom (ctx ?s (Suc j)). vread (ctx ?s' (Suc j)) a = vread (ctx ?s (Suc j)) a" by blast
    have "ctx ?s (Suc j) = ctx_of q ram swp" "ctx ?s' (Suc j) = ctx_of q ram' swp'" by (simp_all add: ctx_def j(2))
    then show ?thesis using same that(2) by simp
  qed
qed

lemma pool_run_total:
  assumes ok: "pool_ok (add_mset p M) ram swp" and legal: "legal_step p"
  obtains r out p' ram' swp' where "run p ram swp = Some (r, out, p', ram', swp')"
    "code p' = code p" "pid p' = pid p" "prio p' = prio p"
    "pc p' = (if pc p < code_size (code p) then pc p + 1 else pc p)"
proof -
  have "mm_ok (pool_ram M) (pool_swp M) (ctx_of p ram swp)" using ok by (simp add: pool_ok_def procs_ok_def)
  from run_step [OF this legal] show ?thesis using that by metis
qed

end
