(* ===== verification/Os.thy ===== *)
theory Os
  imports Os_Config Loader Timer Pool
begin

text \<open>
  The simulator, \<open>src/os.c\<close>: the processor threads, the loader thread and the main thread,
  on top of the timer, the scheduler, the loader and the memory.

  Threads interleave in any order. A step of a thread is one call that takes a lock
  (\<open>get_proc\<close>, \<open>put_proc\<close>, \<open>add_proc\<close>, \<open>next_slot\<close>, \<open>detach_event\<close>), one instruction
  (\<open>run\<close>), or the test of \<open>done\<close>. A thread inside \<open>next_slot\<close> is a device of the timer that
  is not at work (\<open>DRun\<close>); it goes on when the timer has let it. Processor \<open>i\<close> is device
  \<open>i\<close>, the loader is the last device. What the threads print is the output of the model.
\<close>

section \<open>State\<close>

text \<open>
  \<open>CTop\<close> is the head of the loop, \<open>CGet\<close> the second \<open>get_proc\<close>, \<open>CCheck\<close> the test after
  loading, \<open>CRun\<close> the instruction, \<open>CSlot\<close> the call of \<open>next_slot\<close>, \<open>CStop\<close> the end of the loop.
\<close>

datatype cpu_pc = CTop | CGet | CCheck | CRun | CSlot | CStop | CDone

record cpu_t =
  cpc :: cpu_pc
  time_left :: int
  cproc :: "pcb_t option"

text \<open>\<open>LSlot b\<close>: a call of \<open>next_slot\<close>, after which the waiting loop goes on (\<open>b\<close>) or the outer one.\<close>

datatype ld_pc = LTop | LWait | LSlot bool | LStop | LDone

datatype os_line =
    Ld_routine
  | Loaded string u32 ulong
  | Dispatched nat u32
  | Put_back nat u32
  | Finished nat u32
  | Stopped nat
  | Console console_line
  | Load_failed load_error

record os_t =
  cfg :: os_config
  timer :: timer_t
  cpus :: "cpu_t list"
  sched :: mlq_t
  ram :: memphy_struct
  swp :: memphy_struct
  ld_i :: nat
  ldpc :: ld_pc
  ld_proc :: "pcb_t option"
  avail_pid :: u32
  os_done :: int
  exited :: "int option"
  out :: "os_line list"

text \<open>
  What the program gets from outside: the files, and the contents of the memory that
  \<open>malloc\<close> returns for the \<open>i\<close>-th control block, its instructions and its memory area.
\<close>

record os_env =
  files :: "string \<Rightarrow> string option"
  blk :: "nat \<Rightarrow> pcb_t"
  txt_mem :: "nat \<Rightarrow> nat \<Rightarrow> inst_t"
  vma_mem :: "nat \<Rightarrow> vm_rg_struct list"

section \<open>The processor thread\<close>

definition say :: "os_line list \<Rightarrow> os_t \<Rightarrow> os_t" where
  "say ls s = s\<lparr>out := out s @ ls\<rparr>"

definition set_cpu :: "nat \<Rightarrow> cpu_t \<Rightarrow> os_t \<Rightarrow> os_t" where
  "set_cpu i c s = s\<lparr>cpus := (cpus s)[i := c]\<rparr>"

definition cpu_routine :: "nat \<Rightarrow> os_t \<Rightarrow> os_t option" where
  "cpu_routine i s =
     do { c \<leftarrow> list_get (cpus s) (int i);
          _ \<leftarrow> require (i < length (dpcs (timer s)) \<and> dpcs (timer s) ! i = DRun);
          (case cpc c of
             CTop \<Rightarrow>
               (case cproc c of
                  None \<Rightarrow>
                    do { (p, q) \<leftarrow> get_proc (sched s);
                         Some (set_cpu i (c\<lparr>cproc := p, cpc := if Option.is_none p then CSlot else CCheck\<rparr>) (s\<lparr>sched := q\<rparr>)) }
                | Some p \<Rightarrow>
                    if pc p = code_size (code p) then
                      Some (say [Finished i (pid p)] (set_cpu i (c\<lparr>cproc := None, time_left := 0, cpc := CGet\<rparr>) s))
                    else if time_left c = 0 then
                      do { q \<leftarrow> put_proc (sched s) p;
                           Some (say [Put_back i (pid p)] (set_cpu i (c\<lparr>cproc := None, cpc := CGet\<rparr>) (s\<lparr>sched := q\<rparr>))) }
                    else Some (set_cpu i (c\<lparr>cpc := CCheck\<rparr>) s))
           | CGet \<Rightarrow>
               do { (p, q) \<leftarrow> get_proc (sched s);
                    Some (set_cpu i (c\<lparr>cproc := p, cpc := CCheck\<rparr>) (s\<lparr>sched := q\<rparr>)) }
           | CCheck \<Rightarrow>
               (case cproc c of
                  None \<Rightarrow>
                    if os_done s \<noteq> 0 then Some (say [Stopped i] (set_cpu i (c\<lparr>cpc := CStop\<rparr>) s))
                    else Some (set_cpu i (c\<lparr>cpc := CSlot\<rparr>) s)
                | Some p \<Rightarrow>
                    if time_left c = 0 then
                      Some (say [Dispatched i (pid p)] (set_cpu i (c\<lparr>time_left := time_slot (cfg s), cpc := CRun\<rparr>) s))
                    else Some (set_cpu i (c\<lparr>cpc := CRun\<rparr>) s))
           | CRun \<Rightarrow>
               do { p \<leftarrow> cproc c;
                    (_, ls, p', ram', swp') \<leftarrow> run p (ram s) (swp s);
                    t \<leftarrow> chk_int (time_left c - 1);
                    Some (say (map Console ls) (set_cpu i (c\<lparr>cproc := Some p', time_left := t, cpc := CSlot\<rparr>)
                           (s\<lparr>ram := ram', swp := swp'\<rparr>))) }
           | CSlot \<Rightarrow>
               do { t \<leftarrow> next_slot i (timer s);
                    Some (set_cpu i (c\<lparr>cpc := CTop\<rparr>) (s\<lparr>timer := t\<rparr>)) }
           | CStop \<Rightarrow>
               do { t \<leftarrow> detach_event i (timer s);
                    Some (set_cpu i (c\<lparr>cpc := CDone\<rparr>) (s\<lparr>timer := t\<rparr>)) }
           | CDone \<Rightarrow> None) }"

section \<open>The loader thread\<close>

definition ld_dev :: "os_t \<Rightarrow> nat" where
  "ld_dev s = length (cpus s)"

text \<open>The line at the start of \<open>ld_routine\<close>, printed once.\<close>

definition ld_begin :: "os_t \<Rightarrow> os_t" where
  "ld_begin s = (if ld_i s = 0 then say [Ld_routine] s else s)"

lemma ld_begin_simps [simp]:
  "cfg (ld_begin s) = cfg s" "timer (ld_begin s) = timer s" "cpus (ld_begin s) = cpus s" "sched (ld_begin s) = sched s"
  "ram (ld_begin s) = ram s" "swp (ld_begin s) = swp s" "ld_i (ld_begin s) = ld_i s" "ldpc (ld_begin s) = ldpc s"
  "ld_proc (ld_begin s) = ld_proc s" "avail_pid (ld_begin s) = avail_pid s" "os_done (ld_begin s) = os_done s"
  "exited (ld_begin s) = exited s" "out (ld_begin s) = out s @ (if ld_i s = 0 then [Ld_routine] else [])"
  by (simp_all add: ld_begin_def say_def)

text \<open>The memory of a new process: \<open>calloc\<close> and \<open>init_mm\<close>.\<close>

definition zero_mm :: mm_struct where
  "zero_mm = \<lparr>pgd = (\<lambda>_. 0), mmap = [], symrgtbl = replicate (nat PAGING_MAX_SYMTBL_SZ) \<lparr>rg_start = 0, rg_end = 0, valid = 0\<rparr>,
     fifo_using_pgn = [], current_max_pgn = 0, num_of_fifo_using_pgn = 0\<rparr>"

definition ld_routine :: "os_env \<Rightarrow> os_t \<Rightarrow> os_t option" where
  "ld_routine env s =
     do { _ \<leftarrow> require (ld_dev s < length (dpcs (timer s)) \<and> dpcs (timer s) ! ld_dev s = DRun);
          (case ldpc s of
             LTop \<Rightarrow>
               if int (ld_i s) < num_processes (cfg s) then
                 do { path \<leftarrow> list_get (ld_path (cfg s)) (int (ld_i s));
                      pr \<leftarrow> list_get (ld_prio (cfg s)) (int (ld_i s));
                      (r, n) \<leftarrow> load (blk env (ld_i s)) (txt_mem env (ld_i s)) (avail_pid s) (files env path);
                      Some (case r of
                          Inl e \<Rightarrow> say [Load_failed e] ((ld_begin s)\<lparr>avail_pid := n, exited := Some 1\<rparr>)
                        | Inr p \<Rightarrow> (ld_begin s)\<lparr>avail_pid := n, ld_proc := Some (p\<lparr>prio := ucast pr\<rparr>), ldpc := LWait\<rparr>) }
               else Some ((ld_begin s)\<lparr>os_done := 1, ldpc := LStop\<rparr>)
           | LWait \<Rightarrow>
               do { start \<leftarrow> list_get (ld_start (cfg s)) (int (ld_i s));
                    if current_time (timer s) < start then Some (s\<lparr>ldpc := LSlot True\<rparr>)
                    else
                      do { p \<leftarrow> ld_proc s;
                           path \<leftarrow> list_get (ld_path (cfg s)) (int (ld_i s));
                           pr \<leftarrow> list_get (ld_prio (cfg s)) (int (ld_i s));
                           let p' = p\<lparr>mm := snd (init_mm (vma_mem env (ld_i s)) zero_mm)\<rparr>;
                           q \<leftarrow> add_proc (sched s) p';
                           Some (say [Loaded path (pid p) pr]
                             (s\<lparr>sched := q, ld_proc := None, ld_i := ld_i s + 1, ldpc := LSlot False\<rparr>)) } }
           | LSlot again \<Rightarrow>
               do { t \<leftarrow> next_slot (ld_dev s) (timer s);
                    Some (s\<lparr>timer := t, ldpc := if again then LWait else LTop\<rparr>) }
           | LStop \<Rightarrow>
               do { t \<leftarrow> detach_event (ld_dev s) (timer s);
                    Some (s\<lparr>timer := t, ldpc := LDone\<rparr>) }
           | LDone \<Rightarrow> None) }"

section \<open>The main thread\<close>

text \<open>
  \<open>main\<close> up to the creation of the threads: \<open>argv\<close> is the one argument, \<open>mp\<close> and \<open>node\<close> the
  contents of the memory of the devices and of their first list node. The devices for the
  swaps that are not active are set up and never used.
\<close>

definition boot :: "os_config \<Rightarrow> memphy_struct \<Rightarrow> int list \<Rightarrow> mlq_t \<Rightarrow> os_t option" where
  "boot c mp node q =
     do { _ \<leftarrow> require (length (memswpsz c) = nat PAGING_MAX_MMSWP);
          (_, mram) \<leftarrow> init_memphy node mp (memramsz c) 1;
          (_, mswp0) \<leftarrow> init_memphy node mp (memswpsz c ! 0) 1;
          _ \<leftarrow> init_memphy node mp (memswpsz c ! 1) 1;
          _ \<leftarrow> init_memphy node mp (memswpsz c ! 2) 1;
          _ \<leftarrow> init_memphy node mp (memswpsz c ! 3) 1;
          Some \<lparr>cfg = c, timer = boot_timer (nat (num_cpus c) + 1),
            cpus = replicate (nat (num_cpus c)) \<lparr>cpc = CTop, time_left = 0, cproc = None\<rparr>,
            sched = init_scheduler q, ram = mram, swp = mswp0, ld_i = 0, ldpc = LTop, ld_proc = None,
            avail_pid = 1, os_done = 0, exited = None, out = []\<rparr> }"

definition os_main :: "os_env \<Rightarrow> string list \<Rightarrow> (nat \<Rightarrow> ulong) \<Rightarrow> memphy_struct \<Rightarrow> int list \<Rightarrow> mlq_t
    \<Rightarrow> (int + os_t) option" where
  "os_main env argv junk mp node q =
     (case argv of
        [prog, arg] \<Rightarrow>
          do { _ \<leftarrow> require (length ''input/'' + length arg < 100);
               r \<leftarrow> read_config junk (files env (''input/'' @ arg));
               (case r of
                  Inl e \<Rightarrow> Some (Inl 1)
                | Inr c \<Rightarrow> do { s \<leftarrow> boot c mp node q; Some (Inr s) }) }
      | _ \<Rightarrow> Some (Inl 1))"

text \<open>\<open>main\<close> joins every thread, then stops the timer and returns.\<close>

definition main_join :: "os_t \<Rightarrow> os_t option" where
  "main_join s =
     do { _ \<leftarrow> require ((\<forall>c\<in>set (cpus s). cpc c = CDone) \<and> ldpc s = LDone \<and> timer_stop (timer s) = 0);
          Some (s\<lparr>timer := stop_timer (timer s)\<rparr>) }"

definition main_return :: "os_t \<Rightarrow> os_t option" where
  "main_return s =
     do { _ \<leftarrow> require (timer_stop (timer s) \<noteq> 0);
          t \<leftarrow> free_devices (timer s);
          Some (s\<lparr>timer := t, exited := Some 0\<rparr>) }"

section \<open>The whole program\<close>

text \<open>
  Who moves: a processor, the loader, the main thread (twice), the timer thread, or a
  device that is inside \<open>next_slot\<close>. The program that has exited does not move.
\<close>

datatype os_act = Cpu nat | Ld | Join | Return | Clock | Wake_clock | Resume nat | Rouse nat

fun timer_act :: "os_act \<Rightarrow> tact option" where
  "timer_act Clock = Some Tick"
| "timer_act Wake_clock = Some Wake_timer"
| "timer_act (Resume d) = Some (Wait d)"
| "timer_act (Rouse d) = Some (Wake d)"
| "timer_act _ = None"

definition os_step :: "os_env \<Rightarrow> os_act \<Rightarrow> os_t \<Rightarrow> os_t option" where
  "os_step env a s =
     (if exited s \<noteq> None then None
      else case timer_act a of
        Some ta \<Rightarrow> do { t \<leftarrow> tstep ta (timer s); Some (s\<lparr>timer := t\<rparr>) }
      | None \<Rightarrow>
          (case a of
             Cpu i \<Rightarrow> cpu_routine i s
           | Ld \<Rightarrow> ld_routine env s
           | Join \<Rightarrow> main_join s
           | _ \<Rightarrow> main_return s))"

end
