(* ===== verification/Os_Inv.thy ===== *)
theory Os_Inv
  imports Os
begin

text \<open>
  The invariant of the running simulator and its preservation by every step.
\<close>

section \<open>The live processes\<close>

fun opt_mset :: "'a option \<Rightarrow> 'a multiset" where
  "opt_mset None = {#}"
| "opt_mset (Some x) = {#x#}"

definition on_cpus :: "cpu_t list \<Rightarrow> pcb_t multiset" where
  "on_cpus cs = (\<Sum>c\<in>#mset cs. opt_mset (cproc c))"

definition live :: "os_t \<Rightarrow> pcb_t multiset" where
  "live s = on_cpus (cpus s) + mlq_ready (sched s)"

lemma on_cpus_update:
  assumes "i < length cs"
  shows "on_cpus (cs[i := c]) + opt_mset (cproc (cs ! i)) = on_cpus cs + opt_mset (cproc c)"
proof -
  have "mset cs = add_mset (cs ! i) (mset cs - {#cs ! i#})" using assms by simp
  then have "on_cpus cs = opt_mset (cproc (cs ! i)) + on_cpus (remove1 (cs ! i) cs)"
    unfolding on_cpus_def by (metis image_mset_add_mset mset_remove1 sum_mset.add_mset)
  moreover have "on_cpus (cs[i := c]) = opt_mset (cproc c) + on_cpus (remove1 (cs ! i) cs)"
    using assms by (simp add: on_cpus_def mset_update)
  ultimately show ?thesis by (simp add: ac_simps)
qed

lemma on_cpus_member: "c \<in> set cs \<Longrightarrow> cproc c = Some p \<Longrightarrow> p \<in># on_cpus cs"
  by (force simp: on_cpus_def)

lemma in_on_cpus: "p \<in># on_cpus cs \<Longrightarrow> \<exists>c\<in>set cs. cproc c = Some p"
  by (auto simp: on_cpus_def elim: opt_mset.elims split: option.splits) (metis insert_iff opt_mset.simps set_mset_add_mset_insert set_mset_empty empty_iff option.exhaust)

section \<open>The invariant\<close>

definition proc_ok :: "pcb_t \<Rightarrow> bool" where
  "proc_ok p \<longleftrightarrow> legal_prio p \<and> pc p \<le> code_size (code p)"

definition cpu_ok :: "int \<Rightarrow> cpu_t \<Rightarrow> bool" where
  "cpu_ok ts c \<longleftrightarrow> 0 \<le> time_left c \<and> time_left c \<le> ts
     \<and> (cproc c = None \<longrightarrow> time_left c = 0 \<and> cpc c \<noteq> CRun)
     \<and> (cpc c = CRun \<longrightarrow> 0 < time_left c)
     \<and> (cpc c \<in> {CGet, CStop, CDone} \<longrightarrow> cproc c = None)"

text \<open>All but the memories of the processes, and all.\<close>

definition shape_ok :: "os_t \<Rightarrow> bool" where
  "shape_ok s \<longleftrightarrow> mlq_ok (sched s) \<and> 0 < time_slot (cfg s) \<and> time_slot (cfg s) < 2 ^ 31
     \<and> (\<forall>c\<in>set (cpus s). cpu_ok (time_slot (cfg s)) c) \<and> (\<forall>p\<in>#live s. proc_ok p)"

definition core_ok :: "os_t \<Rightarrow> bool" where
  "core_ok s \<longleftrightarrow> shape_ok s \<and> pool_ok (live s) (ram s) (swp s)"

text \<open>The processes, by number: those the loader has made so far, each at one place at most.\<close>

definition pids :: "os_t \<Rightarrow> u32 multiset" where
  "pids s = image_mset pid (live s + opt_mset (ld_proc s))"

definition ld_ok :: "os_t \<Rightarrow> bool" where
  "ld_ok s \<longleftrightarrow> (ld_proc s \<noteq> None \<longleftrightarrow> ldpc s \<in> {LWait, LSlot True})
     \<and> (ldpc s \<in> {LWait, LSlot True} \<longrightarrow> int (ld_i s) < num_processes (cfg s))
     \<and> (ldpc s \<in> {LStop, LDone} \<longleftrightarrow> os_done s \<noteq> 0)
     \<and> (\<forall>p. ld_proc s = Some p \<longrightarrow> pc p = 0 \<and> unat (prio p) < MAX_PRIO)
     \<and> int (ld_i s) \<le> max 0 (num_processes (cfg s)) \<and> num_processes (cfg s) < 2 ^ 31
     \<and> unat (avail_pid s) = ld_i s + (if ld_proc s = None then 1 else 2)
     \<and> (\<forall>n\<in>#pids s. n < avail_pid s) \<and> (\<forall>n. count (pids s) n \<le> 1)"

section \<open>A processor step\<close>

lemma proc_ok_run: "\<lbrakk>proc_ok p; code p' = code p; prio p' = prio p;
    pc p' = (if pc p < code_size (code p) then pc p + 1 else pc p)\<rbrakk> \<Longrightarrow> proc_ok p'"
  by (auto simp: proc_ok_def legal_prio_def inc_le)


lemma say_fields [simp]:
  "cfg (say ls s) = cfg s" "timer (say ls s) = timer s" "cpus (say ls s) = cpus s" "sched (say ls s) = sched s"
  "ram (say ls s) = ram s" "swp (say ls s) = swp s" "ld_i (say ls s) = ld_i s" "ldpc (say ls s) = ldpc s"
  "ld_proc (say ls s) = ld_proc s" "avail_pid (say ls s) = avail_pid s" "os_done (say ls s) = os_done s"
  "exited (say ls s) = exited s" "live (say ls s) = live s"
  by (simp_all add: say_def live_def)

lemma set_cpu_fields [simp]:
  "cfg (set_cpu i c s) = cfg s" "timer (set_cpu i c s) = timer s" "cpus (set_cpu i c s) = (cpus s)[i := c]"
  "sched (set_cpu i c s) = sched s"
  "ram (set_cpu i c s) = ram s" "swp (set_cpu i c s) = swp s" "ld_i (set_cpu i c s) = ld_i s" "ldpc (set_cpu i c s) = ldpc s"
  "ld_proc (set_cpu i c s) = ld_proc s" "avail_pid (set_cpu i c s) = avail_pid s" "os_done (set_cpu i c s) = os_done s"
  "exited (set_cpu i c s) = exited s"
  by (simp_all add: set_cpu_def)

text \<open>
  What a step of a processor that holds the process \<open>x\<close> does to the live processes: nothing,
  or \<open>x\<close> disappears, or \<open>x\<close> is replaced by itself after an instruction.
\<close>

definition live_kept :: "pcb_t option \<Rightarrow> os_t \<Rightarrow> os_t \<Rightarrow> bool" where
  "live_kept x s s' \<longleftrightarrow> ram s' = ram s \<and> swp s' = swp s \<and> (live s' = live s \<or> (\<exists>p. x = Some p \<and> live s = add_mset p (live s')))"

definition live_step :: "pcb_t option \<Rightarrow> os_t \<Rightarrow> os_t \<Rightarrow> bool" where
  "live_step x s s' \<longleftrightarrow> live_kept x s s'
     \<or> (\<exists>p p' M r ls. x = Some p \<and> live s = add_mset p M \<and> live s' = add_mset p' M \<and> legal_step p
          \<and> run p (ram s) (swp s) = Some (r, ls, p', ram s', swp s'))"

lemma call_pcb:
  "pgalloc p mr ms a b = Some (r, ls, p', mr', ms') \<Longrightarrow> \<exists>m. p' = p\<lparr>mm := m\<rparr>"
  "pgfree_data p mr ms a = Some (r, ls, p', mr', ms') \<Longrightarrow> \<exists>m. p' = p\<lparr>mm := m\<rparr>"
  "pgread p mr ms a b d = Some (r, ls, p', mr', ms') \<Longrightarrow> \<exists>m. p' = p\<lparr>mm := m\<rparr>"
  "pgwrite p mr ms x a b = Some (r, ls, p', mr', ms') \<Longrightarrow> \<exists>m. p' = p\<lparr>mm := m\<rparr>"
  by (auto simp: pgalloc_def pgfree_data_def pgread_def pgwrite_def bind_Some_iff Let_def)

lemma run_pcb:
  assumes "run p mr ms = Some (r, ls, p', mr', ms')"
  shows "code p' = code p \<and> pid p' = pid p \<and> prio p' = prio p \<and> pc p' = (if pc p < code_size (code p) then pc p + 1 else pc p)"
proof (cases "code_size (code p) \<le> pc p")
  case True
  then show ?thesis using assms by (simp add: run_def not_less)
next
  case False
  let ?p = "p\<lparr>pc := pc p + 1\<rparr>"
  obtain ins where "list_get (code_text (code p)) (uint (pc p)) = Some ins" using assms False by (auto simp: run_def bind_Some_iff)
  then have "\<exists>m. p' = ?p\<lparr>mm := m\<rparr>" using assms False call_pcb [of ?p]
    by (cases "opcode ins") (force simp: run_def Let_def intro: exI [of _ "mm p"])+
  then show ?thesis using False by (auto simp: not_le)
qed

lemma live_step_shape:
  assumes "live_step x s s'" "\<forall>p\<in>#live s. proc_ok p"
  shows "(\<forall>p\<in>#live s'. proc_ok p) \<and> image_mset pid (live s') \<subseteq># image_mset pid (live s)"
  using assms(1) unfolding live_step_def live_kept_def
proof (elim disjE exE conjE)
  fix p p' M r ls
  assume a: "live s = add_mset p M" "live s' = add_mset p' M" "run p (ram s) (swp s) = Some (r, ls, p', ram s', swp s')"
  show ?thesis using proc_ok_run [of p p'] run_pcb [OF a(3)] a(1,2) assms(2) by auto
qed (use assms in simp_all)

lemma live_step_pool:
  assumes "live_step x s s'" "pool_ok (live s) (ram s) (swp s)"
  shows "pool_ok (live s') (ram s') (swp s')"
  using assms(1) unfolding live_step_def live_kept_def
proof (elim disjE exE conjE)
  fix p assume "live s = add_mset p (live s')" "ram s' = ram s" "swp s' = swp s"
  with assms(2) pool_remove [of p "live s'"] show ?thesis by simp
next
  fix p p' M r ls
  assume a: "live s = add_mset p M" "live s' = add_mset p' M" "legal_step p" "run p (ram s) (swp s) = Some (r, ls, p', ram s', swp s')"
  show ?thesis using pool_run(1) [OF _ a(3,4), of M] assms(2) a(1,2) by simp
qed (use assms in simp_all)

lemma get_live:
  assumes "mlq_ok q" "get_proc q = Some (p, q')"
  shows "mlq_ok q'" "mlq_ready q = opt_mset p + mlq_ready q'" "p = None \<longleftrightarrow> mlq_ready q = {#}"
proof -
  obtain p1 q1 where 1: "get_mlq_proc q = Some (p1, q1)" "mlq_ok q1"
    "mlq_ready q = (case p1 of None \<Rightarrow> {#} | Some x \<Rightarrow> add_mset x (mlq_ready q1))" "p1 = None \<Longrightarrow> mlq_ready q1 = {#}"
    by (rule mlq.get_total [OF assms(1)]) blast
  then show "mlq_ok q'" "mlq_ready q = opt_mset p + mlq_ready q'" using assms(2)
    by (auto simp: get_proc_def split: option.splits)
  show "p = None \<longleftrightarrow> mlq_ready q = {#}" using 1 assms(2) by (auto simp: get_proc_def split: option.splits)
qed

lemma put_live:
  assumes "mlq_ok q" "legal_prio p" "put_proc q p = Some q'"
  shows "mlq_ok q'" "mlq_ready q' = (if mlq_room q p then add_mset p (mlq_ready q) else mlq_ready q)"
  by (use mlq.put_total [OF assms(1,2)] assms(3) in \<open>metis option.inject put_proc_def\<close>)+

lemma cpu_routineD:
  assumes "cpu_routine i s = Some s'"
  shows "i < length (cpus s)" "i < length (dpcs (timer s))" "dpcs (timer s) ! i = DRun" "cpc (cpus s ! i) \<noteq> CDone"
  using assms by (auto simp: cpu_routine_def bind_Some_iff list_get_eq_Some)

text \<open>The steps of a processor, one by one.\<close>

lemma cpu_cases:
  assumes step: "cpu_routine i s = Some s'" and c: "cpus s ! i = c"
  obtains (fetch) p q where "cpc c = CTop" "cproc c = None" "get_proc (sched s) = Some (p, q)"
      "s' = set_cpu i (c\<lparr>cproc := p, cpc := if Option.is_none p then CSlot else CCheck\<rparr>) (s\<lparr>sched := q\<rparr>)"
  | (finish) p where "cpc c = CTop" "cproc c = Some p" "pc p = code_size (code p)"
      "s' = say [Finished i (pid p)] (set_cpu i (c\<lparr>cproc := None, time_left := 0, cpc := CGet\<rparr>) s)"
  | (put) p q where "cpc c = CTop" "cproc c = Some p" "time_left c = 0" "put_proc (sched s) p = Some q"
      "s' = say [Put_back i (pid p)] (set_cpu i (c\<lparr>cproc := None, cpc := CGet\<rparr>) (s\<lparr>sched := q\<rparr>))"
  | (keep) p where "cpc c = CTop" "cproc c = Some p" "time_left c \<noteq> 0" "s' = set_cpu i (c\<lparr>cpc := CCheck\<rparr>) s"
  | (get) p q where "cpc c = CGet" "get_proc (sched s) = Some (p, q)" "s' = set_cpu i (c\<lparr>cproc := p, cpc := CCheck\<rparr>) (s\<lparr>sched := q\<rparr>)"
  | (stop) "cpc c = CCheck" "cproc c = None" "os_done s \<noteq> 0" "s' = say [Stopped i] (set_cpu i (c\<lparr>cpc := CStop\<rparr>) s)"
  | (skip) "cpc c = CCheck" "cproc c = None" "os_done s = 0" "s' = set_cpu i (c\<lparr>cpc := CSlot\<rparr>) s"
  | (dispatch) p where "cpc c = CCheck" "cproc c = Some p" "time_left c = 0"
      "s' = say [Dispatched i (pid p)] (set_cpu i (c\<lparr>time_left := time_slot (cfg s), cpc := CRun\<rparr>) s)"
  | (go) p where "cpc c = CCheck" "cproc c = Some p" "time_left c \<noteq> 0" "s' = set_cpu i (c\<lparr>cpc := CRun\<rparr>) s"
  | (exec) p r ls p' m w where "cpc c = CRun" "cproc c = Some p" "run p (ram s) (swp s) = Some (r, ls, p', m, w)"
      "s' = say (map Console ls) (set_cpu i (c\<lparr>cproc := Some p', time_left := time_left c - 1, cpc := CSlot\<rparr>) (s\<lparr>ram := m, swp := w\<rparr>))"
  | (slot) t where "cpc c = CSlot" "next_slot i (timer s) = Some t" "s' = set_cpu i (c\<lparr>cpc := CTop\<rparr>) (s\<lparr>timer := t\<rparr>)"
  | (leave) t where "cpc c = CStop" "detach_event i (timer s) = Some t" "s' = set_cpu i (c\<lparr>cpc := CDone\<rparr>) (s\<lparr>timer := t\<rparr>)"
proof -
  note d = cpu_routine_def cpu_routineD(1-3) [OF step] c list_get_def bind_Some_iff chk_int_def
  show ?thesis
  proof (cases "cpc c")
    case CTop
    then show ?thesis using step fetch finish put keep by (cases "cproc c") (auto simp: d split: if_splits)
  next
    case CCheck
    then show ?thesis using step stop skip dispatch go by (cases "cproc c") (auto simp: d split: if_splits)
  next
    case CRun
    then show ?thesis using step exec by (auto simp: d split: if_splits)
  next
    case CDone
    then show ?thesis using cpu_routineD(4) [OF step] c by simp
  qed (use step get slot leave in \<open>auto simp: d\<close>)
qed

lemma shape_update:
  assumes "shape_ok s" "cfg s' = cfg s" "cpus s' = (cpus s)[i := c']" "cpu_ok (time_slot (cfg s)) c'" "mlq_ok (sched s')" "live_step x s s'"
  shows "shape_ok s'"
proof -
  have "\<forall>c\<in>set (cpus s'). cpu_ok (time_slot (cfg s)) c"
    using assms(1,3,4) set_update_subset_insert [of "cpus s" i c'] by (auto simp: shape_ok_def)
  with assms live_step_shape [OF assms(6)] show ?thesis by (simp add: shape_ok_def)
qed

definition os_legal :: "os_act \<Rightarrow> os_t \<Rightarrow> bool" where
  "os_legal a s \<longleftrightarrow> (\<forall>i p. a = Cpu i \<longrightarrow> i < length (cpus s) \<longrightarrow> cpc (cpus s ! i) = CRun
      \<longrightarrow> cproc (cpus s ! i) = Some p \<longrightarrow> legal_step p)"

lemma kept_live:
  assumes "i < length (cpus s)" "cpus s' = (cpus s)[i := cpus s' ! i]" "ram s' = ram s" "swp s' = swp s"
    "opt_mset (cproc (cpus s ! i)) + mlq_ready (sched s) = opt_mset (cproc (cpus s' ! i)) + mlq_ready (sched s')"
  shows "live_kept y s s'"
proof -
  have "(on_cpus (cpus s') + opt_mset (cproc (cpus s ! i))) + (opt_mset (cproc (cpus s' ! i)) + mlq_ready (sched s'))
      = (on_cpus (cpus s) + opt_mset (cproc (cpus s' ! i))) + (opt_mset (cproc (cpus s ! i)) + mlq_ready (sched s))"
    using on_cpus_update [OF assms(1), of "cpus s' ! i"] assms(2,5) by (simp add: ac_simps)
  then have "live s' = live s" by (simp add: live_def ac_simps)
  then show ?thesis using assms(3,4) by (simp add: live_kept_def)
qed

lemma lost_live:
  assumes "i < length (cpus s)" "cpus s' = (cpus s)[i := cpus s' ! i]" "ram s' = ram s" "swp s' = swp s"
    "cproc (cpus s ! i) = Some p" "cproc (cpus s' ! i) = None" "mlq_ready (sched s') = mlq_ready (sched s)"
  shows "live_kept (cproc (cpus s ! i)) s s'"
  using on_cpus_update [OF assms(1), of "cpus s' ! i"] assms(2-) by (simp add: live_kept_def live_def)

text \<open>Every step of a processor, as an update of its locals, of the queues and of the devices.\<close>

lemma cpu_step_live:
  assumes core: "shape_ok s" and legal: "os_legal (Cpu i) s" and step: "cpu_routine i s = Some s'"
  shows "shape_ok s' \<and> live_step (cproc (cpus s ! i)) s s' \<and> cfg s' = cfg s
    \<and> (cpc (cpus s ! i) \<noteq> CRun \<longrightarrow> live_kept (cproc (cpus s ! i)) s s')"
proof -
  define c where "c = cpus s ! i"
  then have c: "cpus s ! i = c" by simp
  have i: "i < length (cpus s)" by (rule cpu_routineD(1) [OF step])
  have cin: "c \<in> set (cpus s)" using i c by auto
  then have cok: "cpu_ok (time_slot (cfg s)) c" and q: "mlq_ok (sched s)" and ts: "0 < time_slot (cfg s)"
    using core by (simp_all add: shape_ok_def)
  have proc: "p \<in># live s \<and> legal_prio p" if "cproc c = Some p" for p
    using on_cpus_member [OF cin that] core by (simp add: live_def shape_ok_def proc_ok_def)
  have result: ?thesis if "cpus s' = (cpus s)[i := cpus s' ! i]" "cfg s' = cfg s" "cpu_ok (time_slot (cfg s)) (cpus s' ! i)" "mlq_ok (sched s')"
      "live_step (cproc c) s s'" "cpc c \<noteq> CRun \<longrightarrow> live_kept (cproc c) s s'"
    using shape_update [OF core that(2,1,3-5)] that(2,5,6) c by simp
  note kept = kept_live [OF i, unfolded c] and lost = lost_live [OF i, unfolded c]
  have local: ?thesis if "cpus s' = (cpus s)[i := cpus s' ! i]" "cfg s' = cfg s" "sched s' = sched s" "ram s' = ram s" "swp s' = swp s"
      "cproc (cpus s' ! i) = cproc c" "cpu_ok (time_slot (cfg s)) (cpus s' ! i)" "cpc c \<noteq> CRun"
  proof -
    have "live_kept (cproc c) s s'" using that by (intro kept) simp_all
    then show ?thesis using that q by (intro result) (simp_all add: live_step_def)
  qed
  show ?thesis
    using step c
  proof (cases rule: cpu_cases)
    case (fetch p q')
    note g = get_live [OF q fetch(3)]
    have "live_kept (cproc c) s s'" using fetch g by (intro kept) (simp_all add: i)
    then show ?thesis using fetch g cok by (intro result) (auto simp: live_step_def cpu_ok_def i)
  next
    case (finish p)
    have "live_kept (cproc c) s s'" using finish by (intro lost) (simp_all add: i)
    then show ?thesis using finish ts q by (intro result) (auto simp: live_step_def cpu_ok_def i)
  next
    case (put p q')
    note g = put_live [OF q proc [OF put(2), THEN conjunct2] put(4)]
    have "live_kept (cproc c) s s'"
    proof (cases "mlq_room (sched s) p")
      case True
      then show ?thesis using put g by (intro kept) (simp_all add: i)
    next
      case False
      then show ?thesis using put g by (intro lost) (simp_all add: i)
    qed
    then show ?thesis using put g ts by (intro result) (auto simp: live_step_def cpu_ok_def i)
  next
    case (get p q')
    then have none: "cproc c = None" "time_left c = 0" using cok by (auto simp: cpu_ok_def)
    note g = get_live [OF q get(2)]
    have "live_kept (cproc c) s s'" using get none g by (intro kept) (simp_all add: i)
    then show ?thesis using get none g ts by (intro result) (auto simp: live_step_def cpu_ok_def i)
  next
    case (exec p r ls p' m w)
    let ?x = "c\<lparr>cproc := Some p', time_left := time_left c - 1, cpc := CSlot\<rparr>"
    obtain M where M: "live s = add_mset p M" using proc [OF exec(2)] by (metis mset_add)
    have "on_cpus ((cpus s)[i := ?x]) + {#p#} = on_cpus (cpus s) + {#p'#}" using on_cpus_update [OF i, of ?x] exec(2) c by simp
    then have "live s' + {#p#} = live s + {#p'#}" by (simp add: live_def exec(4) ac_simps)
    then have "live s' = add_mset p' M" using M by simp
    moreover have "legal_step p" using legal i exec(1,2) c by (simp add: os_legal_def)
    ultimately have "live_step (cproc c) s s'" using M exec(2,3) unfolding live_step_def by (auto simp: exec(4))
    then show ?thesis using exec q cok by (intro result) (simp_all add: cpu_ok_def i)
  qed (rule local; use cok ts in \<open>auto simp: i cpu_ok_def\<close>)+
qed

lemma cpu_step_core:
  assumes "core_ok s" and "os_legal (Cpu i) s" and "cpu_routine i s = Some s'"
  shows "core_ok s' \<and> live_step (cproc (cpus s ! i)) s s' \<and> cfg s' = cfg s"
  using cpu_step_live [of s i s'] live_step_pool [of _ s s'] assms by (auto simp: core_ok_def)

end
