(* ===== verification/Os_Run.thy ===== *)
theory Os_Run
  imports Os_Inv
begin

text \<open>
  Runs of the simulator: the loader's part of the invariant, the link between the threads
  and the devices of the timer, and the states a run can reach.
\<close>

section \<open>The configuration and its files\<close>

text \<open>The slot in which process \<open>i\<close> is added: its start time, or the slot after the one before it.\<close>

fun arrival :: "ulong list \<Rightarrow> nat \<Rightarrow> nat" where
  "arrival st 0 = unat (st ! 0)"
| "arrival st (Suc i) = max (Suc (arrival st i)) (unat (st ! Suc i))"

definition next_time :: "ulong list \<Rightarrow> nat \<Rightarrow> nat" where
  "next_time st i = (if i = 0 then 0 else Suc (arrival st (i - 1)))"

lemma arrival_next: "arrival st i = max (next_time st i) (unat (st ! i))"
  by (cases i) (simp_all add: next_time_def)

definition config_ok :: "os_env \<Rightarrow> os_config \<Rightarrow> bool" where
  "config_ok env c \<longleftrightarrow> 0 < time_slot c \<and> time_slot c < 2 ^ 31 \<and> 0 \<le> num_processes c \<and> num_processes c < 2 ^ 31
     \<and> int (length (ld_path c)) = num_processes c \<and> int (length (ld_start c)) = num_processes c
     \<and> int (length (ld_prio c)) = num_processes c
     \<and> (\<forall>i<nat (num_processes c). unat (ucast (ld_prio c ! i) :: u32) < MAX_PRIO \<and> vma_mem env i = []
          \<and> arrival (ld_start c) i < 2 ^ 64
          \<and> (\<forall>k. \<exists>p. load (blk env i) (txt_mem env i) k (files env (ld_path c ! i)) = Some (Inr p, k + 1)))"

lemma load_fields:
  assumes "load b tx k f = Some (Inr p, k')"
  shows "pid p = k" "pc p = 0"
proof -
  obtain s where s: "f = Some s" using assms by (cases f) (simp_all add: load_def Let_def)
  obtain xs s1 where x: "scan_nums 2 s = (xs, s1)" by (cases "scan_nums 2 s")
  obtain r where r: "load_loop None (map tx [0..<unat (got (map conv_u xs) 1 (code_size (code b)))]) s1 = Some r"
    using assms s x by (auto simp: load_def Let_def bind_Some_iff)
  then show "pid p = k" "pc p = 0" using assms s x by (cases r; auto simp: load_def Let_def)+
qed

section \<open>The invariant\<close>

definition ld_time :: "os_t \<Rightarrow> nat \<Rightarrow> bool" where
  "ld_time s n \<longleftrightarrow>
     (case ldpc s of
        LTop \<Rightarrow> n = next_time (ld_start (cfg s)) (ld_i s)
      | LWait \<Rightarrow> next_time (ld_start (cfg s)) (ld_i s) \<le> n \<and> n \<le> arrival (ld_start (cfg s)) (ld_i s)
      | LSlot True \<Rightarrow> next_time (ld_start (cfg s)) (ld_i s) \<le> n \<and> n < unat (ld_start (cfg s) ! ld_i s)
      | LSlot False \<Rightarrow> 0 < ld_i s \<and> n = arrival (ld_start (cfg s)) (ld_i s - 1)
      | _ \<Rightarrow> True)"

definition dev_link :: "os_t \<Rightarrow> bool" where
  "dev_link s \<longleftrightarrow> length (dpcs (timer s)) = Suc (length (cpus s))
     \<and> (\<forall>i<length (cpus s). cpc (cpus s ! i) = CDone \<longleftrightarrow> dpcs (timer s) ! i = DExit)
     \<and> (ldpc s = LDone \<longleftrightarrow> dpcs (timer s) ! length (cpus s) = DExit)"

definition os_shape :: "os_env \<Rightarrow> tact list \<Rightarrow> os_t \<Rightarrow> bool" where
  "os_shape env tr s \<longleftrightarrow> shape_ok s \<and> ld_ok s \<and> dev_link s \<and> config_ok env (cfg s)
     \<and> trun tr (boot_timer (Suc (length (cpus s)))) = Some (timer s) \<and> ld_time s (finished tr (ld_dev s))"

definition os_inv :: "os_env \<Rightarrow> tact list \<Rightarrow> os_t \<Rightarrow> bool" where
  "os_inv env tr s \<longleftrightarrow> os_shape env tr s \<and> pool_ok (live s) (ram s) (swp s)"

lemma os_invD:
  assumes "os_inv env tr s"
  shows "os_shape env tr s" "core_ok s"
  using assms by (simp_all add: os_inv_def os_shape_def core_ok_def)

text \<open>What a step of a thread does to the timer.\<close>

lemma cpu_step_frame:
  assumes "cpu_routine i s = Some s'"
  shows "ld_i s' = ld_i s \<and> ldpc s' = ldpc s \<and> ld_proc s' = ld_proc s \<and> avail_pid s' = avail_pid s \<and> os_done s' = os_done s
    \<and> exited s' = exited s \<and> length (cpus s') = length (cpus s) \<and> cfg s' = cfg s
    \<and> (\<forall>j<length (cpus s). j \<noteq> i \<longrightarrow> cpus s' ! j = cpus s ! j)
    \<and> (if cpc (cpus s ! i) = CSlot then next_slot i (timer s) = Some (timer s')
       else if cpc (cpus s ! i) = CStop then detach_event i (timer s) = Some (timer s') else timer s' = timer s)
    \<and> (cpc (cpus s' ! i) = CDone \<longleftrightarrow> cpc (cpus s ! i) = CStop)"
proof -
  note i = cpu_routineD(1) [OF assms]
  from assms refl show ?thesis by (cases rule: cpu_cases) (auto simp: i split: if_splits)
qed

lemma nth_upd: "j < length xs \<Longrightarrow> xs[i := x] ! j = (if i = j then x else xs ! j)"
  by (cases "i = j") simp_all

lemma tstep_exit:
  assumes "tstep ta t = Some t'" "\<And>d. ta \<noteq> Next d" "\<And>d. ta \<noteq> Detach d"
  shows "length (dpcs t') = length (dpcs t) \<and> (\<forall>d<length (dpcs t). dpcs t' ! d = DExit \<longleftrightarrow> dpcs t ! d = DExit)"
proof (cases ta)
  case Tick
  with assms(1) show ?thesis
    by (auto simp: timer_routine_def bind_Some_iff nth_upd split: timer_pc.splits list.splits if_splits)
next
  case (Wait d)
  with assms(1) show ?thesis by (auto simp: wait_slot_def bind_Some_iff nth_upd split: if_splits)
next
  case (Wake d)
  with assms(1) show ?thesis by (auto simp: nth_upd split: if_splits)
qed (use assms in \<open>auto simp: stop_timer_def split: timer_pc.splits\<close>)

lemma next_slot_dpcs: "next_slot d t = Some t' \<Longrightarrow> dpcs t' = (dpcs t)[d := DCheck] \<and> dpcs t ! d = DRun"
  by (auto simp: next_slot_def bind_Some_iff)

lemma detach_dpcs: "detach_event d t = Some t' \<Longrightarrow> dpcs t' = (dpcs t)[d := DExit] \<and> dpcs t ! d = DRun"
  by (auto simp: detach_event_def bind_Some_iff)

lemma trun_snoc: "trun tr t0 = Some t \<Longrightarrow> tstep ta t = Some t' \<Longrightarrow> trun (tr @ [ta]) t0 = Some t'"
  by (rule trun_trans) (simp_all add: bind_Some_iff)

lemma finished_other: "ta \<noteq> Next d \<Longrightarrow> finished (tr @ [ta]) d = finished tr d"
  and finished_next: "finished (tr @ [Next d]) d = Suc (finished tr d)"
  by (simp_all add: finished_def)

section \<open>A processor step keeps the invariant\<close>

lemma cpu_step_shape:
  assumes inv: "os_shape env tr s" and legal: "os_legal (Cpu i) s" and step: "cpu_routine i s = Some s'"
  shows "\<exists>tr'. os_shape env tr' s'"
proof -
  have core: "shape_ok s" and ld: "ld_ok s" and dl: "dev_link s" and cf: "config_ok env (cfg s)"
    and tr: "trun tr (boot_timer (Suc (length (cpus s)))) = Some (timer s)" and lt: "ld_time s (finished tr (ld_dev s))"
    using inv by (simp_all add: os_shape_def)
  note C = cpu_step_live [OF core legal step]
  note F = cpu_step_frame [OF step]
  note D = cpu_routineD [OF step]
  have "image_mset pid (live s') \<subseteq># image_mset pid (live s)" using live_step_shape core C by (auto simp: shape_ok_def)
  then have "pids s' \<subseteq># pids s" using F by (simp add: pids_def)
  then have sub: "count (pids s') n \<le> count (pids s) n" "n \<in># pids s' \<Longrightarrow> n \<in># pids s" for n
    by (auto intro: mset_subset_eq_count dest: mset_subset_eqD)
  have "\<forall>n. count (pids s') n \<le> 1"
  proof
    fix n show "count (pids s') n \<le> 1" using ld sub(1) [of n] by (auto simp: ld_ok_def intro: le_trans)
  qed
  moreover have "\<forall>n\<in>#pids s'. n < avail_pid s'" using ld sub(2) F by (simp add: ld_ok_def)
  ultimately have "ld_ok s'" using ld F by (simp add: ld_ok_def)
  moreover have "dev_link s'"
  proof -
    have pcs: "dpcs (timer s') = (if cpc (cpus s ! i) = CSlot then (dpcs (timer s))[i := DCheck]
        else if cpc (cpus s ! i) = CStop then (dpcs (timer s))[i := DExit] else dpcs (timer s))"
      using F next_slot_dpcs [of i "timer s" "timer s'"] detach_dpcs [of i "timer s" "timer s'"] by (auto split: if_splits)
    then have len: "length (dpcs (timer s')) = Suc (length (cpus s'))" using dl F by (simp add: dev_link_def)
    have "cpc (cpus s' ! j) = CDone \<longleftrightarrow> dpcs (timer s') ! j = DExit" if "j < length (cpus s')" for j
    proof (cases "j = i")
      case True
      then show ?thesis using F D by (simp add: pcs)
    next
      case False
      then show ?thesis using dl F that by (simp add: pcs dev_link_def)
    qed
    moreover have "dpcs (timer s') ! length (cpus s) = dpcs (timer s) ! length (cpus s)" using D(1) by (simp add: pcs)
    then have "ldpc s' = LDone \<longleftrightarrow> dpcs (timer s') ! length (cpus s') = DExit" using dl F by (simp add: dev_link_def)
    ultimately show ?thesis using len by (simp add: dev_link_def)
  qed
  moreover have "ldpc s' = ldpc s" "cfg s' = cfg s" "ld_i s' = ld_i s" using F by blast+
  then have "ld_time s' n = ld_time s n" for n by (simp add: ld_time_def split: ld_pc.split bool.split)
  moreover have "\<exists>tr'. trun tr' (boot_timer (Suc (length (cpus s)))) = Some (timer s') \<and> finished tr' (length (cpus s)) = finished tr (length (cpus s))"
  proof -
    consider "next_slot i (timer s) = Some (timer s')" | "detach_event i (timer s) = Some (timer s')" | "timer s' = timer s"
      using F by (auto split: if_splits)
    then show ?thesis
    proof cases
      case 1
      then show ?thesis using trun_snoc [OF tr, of "Next i" "timer s'"] finished_other [of "Next i" "length (cpus s)" tr] D(1) by auto
    next
      case 2
      then show ?thesis using trun_snoc [OF tr, of "Detach i" "timer s'"] finished_other [of "Detach i" "length (cpus s)" tr] by auto
    next
      case 3
      then show ?thesis using tr by auto
    qed
  qed
  ultimately show ?thesis using C cf F lt by (auto simp: os_shape_def ld_dev_def)
qed

section \<open>The other steps keep the invariant\<close>

lemma timer_act_shape:
  assumes inv: "os_shape env tr s" and a: "timer_act a = Some ta" and step: "tstep ta (timer s) = Some t"
  shows "\<exists>tr'. os_shape env tr' (s\<lparr>timer := t\<rparr>)"
proof -
  let ?s = "s\<lparr>timer := t\<rparr>"
  have ta: "ta \<noteq> Next d" "ta \<noteq> Detach d" for d using a by (cases a; auto)+
  have "trun (tr @ [ta]) (boot_timer (Suc (length (cpus s)))) = Some t" using inv step by (intro trun_snoc) (simp_all add: os_shape_def)
  moreover have "finished (tr @ [ta]) d = finished tr d" for d using ta by (intro finished_other)
  moreover have "dev_link ?s" using inv tstep_exit [OF step ta] by (simp add: os_shape_def dev_link_def)
  moreover have "shape_ok ?s \<and> ld_ok ?s \<and> ld_time ?s n = ld_time s n" for n using inv
    by (simp add: os_shape_def shape_ok_def ld_ok_def live_def pids_def ld_time_def split: ld_pc.split bool.split)
  ultimately show ?thesis using inv by (intro exI [of _ "tr @ [ta]"]) (simp add: os_shape_def ld_dev_def)
qed

text \<open>The value of the clock for the loader at work.\<close>

lemma ld_clock:
  assumes inv: "os_shape env tr s" and run: "dpcs (timer s) ! ld_dev s = DRun"
  shows "current_time (timer s) = of_nat (finished tr (ld_dev s))"
proof -
  have tr: "trun tr (boot_timer (Suc (length (cpus s)))) = Some (timer s)" using inv by (simp add: os_shape_def)
  obtain T where T: "timer_inv T (finished tr) (timer s)" by (rule run_inv [OF tr])
  have "ld_dev s < length (ids (timer s))" using run_devices [OF tr] by (simp add: ld_dev_def)
  from not_held(4) [OF T this run] T show ?thesis by (simp add: current_time_def timer_inv_def)
qed

lemma fresh_zero: "fresh_mm (snd (init_mm [] zero_mm))"
  unfolding fresh_mm_def by (intro exI [of _ zero_mm]) (simp add: zero_mm_def rg0_def PAGING_MAX_SYMTBL_SZ_def)

text \<open>A new process joins the pool, or is lost when its queue is full.\<close>

lemma add_ready:
  assumes core: "shape_ok s" and new: "proc_ok p" and add: "add_proc (sched s) p = Some q"
  shows "shape_ok (s\<lparr>sched := q\<rparr>)" and "mlq_ready q = add_mset p (mlq_ready (sched s)) \<or> mlq_ready q = mlq_ready (sched s)"
proof -
  have ok: "mlq_ok (sched s)" "legal_prio p" using core new by (simp_all add: shape_ok_def proc_ok_def)
  have "put_proc (sched s) p = Some q" using add by (simp add: add_proc_def put_proc_def add_mlq_proc_eq)
  note put = put_live [OF ok this]
  show l: "mlq_ready q = add_mset p (mlq_ready (sched s)) \<or> mlq_ready q = mlq_ready (sched s)" using put(2) by auto
  then have "live (s\<lparr>sched := q\<rparr>) = add_mset p (live s) \<or> live (s\<lparr>sched := q\<rparr>) = live s" by (auto simp: live_def)
  then have "\<forall>p\<in>#live (s\<lparr>sched := q\<rparr>). proc_ok p" using core new by (auto simp: shape_ok_def)
  then show "shape_ok (s\<lparr>sched := q\<rparr>)" using put(1) core by (simp add: shape_ok_def)
qed

lemma shape_cong:
  assumes "shape_ok s" "cfg s' = cfg s" "cpus s' = cpus s" "sched s' = sched s"
  shows "shape_ok s'"
  using assms by (simp add: shape_ok_def live_def)

lemma live_cong: "cpus s' = cpus s \<Longrightarrow> sched s' = sched s \<Longrightarrow> live s' = live s"
  by (simp add: live_def)

text \<open>The steps of the loader, one by one: no file is missing.\<close>

lemma ld_cases:
  assumes ld: "ld_ok s" and cf: "config_ok env (cfg s)" and step: "ld_routine env s = Some s'"
  obtains (load) p where "ldpc s = LTop" "ld_i s < nat (num_processes (cfg s))"
      "load (blk env (ld_i s)) (txt_mem env (ld_i s)) (avail_pid s) (files env (ld_path (cfg s) ! ld_i s)) = Some (Inr p, avail_pid s + 1)"
      "s' = (ld_begin s)\<lparr>avail_pid := avail_pid s + 1, ld_proc := Some (p\<lparr>prio := ucast (ld_prio (cfg s) ! ld_i s)\<rparr>), ldpc := LWait\<rparr>"
  | (all) "ldpc s = LTop" "s' = (ld_begin s)\<lparr>os_done := 1, ldpc := LStop\<rparr>"
  | (early) "ldpc s = LWait" "ld_i s < nat (num_processes (cfg s))" "current_time (timer s) < ld_start (cfg s) ! ld_i s" "s' = s\<lparr>ldpc := LSlot True\<rparr>"
  | (add) p p' q where "ldpc s = LWait" "ld_i s < nat (num_processes (cfg s))" "\<not> current_time (timer s) < ld_start (cfg s) ! ld_i s"
      "ld_proc s = Some p" "p' = p\<lparr>mm := snd (init_mm [] zero_mm)\<rparr>" "add_proc (sched s) p' = Some q"
      "s' = say [Loaded (ld_path (cfg s) ! ld_i s) (pid p) (ld_prio (cfg s) ! ld_i s)]
         (s\<lparr>sched := q, ld_proc := None, ld_i := ld_i s + 1, ldpc := LSlot False\<rparr>)"
  | (slot) again t where "ldpc s = LSlot again" "next_slot (ld_dev s) (timer s) = Some t" "s' = s\<lparr>timer := t, ldpc := if again then LWait else LTop\<rparr>"
  | (leave) t where "ldpc s = LStop" "detach_event (ld_dev s) (timer s) = Some t" "s' = s\<lparr>timer := t, ldpc := LDone\<rparr>"
proof -
  have dev: "ld_dev s < length (dpcs (timer s))" "dpcs (timer s) ! ld_dev s = DRun" using step by (auto simp: ld_routine_def bind_Some_iff)
  note d = ld_routine_def dev bind_Some_iff list_get_eq_Some Let_def
  show ?thesis
  proof (cases "ldpc s")
    case LTop
    show ?thesis
    proof (cases "int (ld_i s) < num_processes (cfg s)")
      case True
      then have i: "ld_i s < nat (num_processes (cfg s))" by simp
      then obtain p where p: "load (blk env (ld_i s)) (txt_mem env (ld_i s)) (avail_pid s) (files env (ld_path (cfg s) ! ld_i s))
          = Some (Inr p, avail_pid s + 1)" using cf by (auto simp: config_ok_def)
      with True LTop step show ?thesis by (intro load [OF LTop i p]) (auto simp: d)
    next
      case False
      with LTop step show ?thesis by (intro all) (simp_all add: d)
    qed
  next
    case LWait
    then have i: "ld_i s < nat (num_processes (cfg s))" using ld by (auto simp: ld_ok_def)
    then have "vma_mem env (ld_i s) = []" using cf by (simp add: config_ok_def)
    with LWait step i show ?thesis using early add by (auto simp: d split: if_splits)
  next
    case (LSlot again)
    with step slot show ?thesis by (auto simp: d)
  next
    case LStop
    with step leave show ?thesis by (auto simp: d)
  qed (use step in \<open>simp add: d\<close>)
qed

lemma ld_ok_load:
  assumes ld: "ld_ok s" and cf: "config_ok env (cfg s)" and top: "ldpc s = LTop" "ld_i s < nat (num_processes (cfg s))"
    and p: "load (blk env (ld_i s)) (txt_mem env (ld_i s)) (avail_pid s) (files env (ld_path (cfg s) ! ld_i s)) = Some (Inr p, avail_pid s + 1)"
  shows "ld_ok ((ld_begin s)\<lparr>avail_pid := avail_pid s + 1, ld_proc := Some (p\<lparr>prio := ucast (ld_prio (cfg s) ! ld_i s)\<rparr>), ldpc := LWait\<rparr>)" (is "ld_ok ?s")
    and "avail_pid s < avail_pid s + 1"
proof -
  have none: "ld_proc s = None" using ld top(1) by (auto simp: ld_ok_def)
  have pr: "unat (ucast (ld_prio (cfg s) ! ld_i s) :: u32) < MAX_PRIO" using cf top(2) by (auto simp: config_ok_def)
  have av: "unat (avail_pid s) = ld_i s + 1" using ld none by (simp add: ld_ok_def)
  have "num_processes (cfg s) < 2 ^ 31" using cf by (simp add: config_ok_def)
  with top(2) have lt31: "ld_i s < 2 ^ 31" by simp
  have av1: "unat (avail_pid s + 1) = ld_i s + 2" using av lt31 by (simp add: unat_word_ariths)
  show lt: "avail_pid s < avail_pid s + 1" using av av1 by (simp add: word_less_nat_alt)
  have "pids ?s = add_mset (avail_pid s) (pids s)" using load_fields [OF p] none by (simp add: pids_def live_def)
  moreover have "avail_pid s \<notin># pids s" using ld by (auto simp: ld_ok_def)
  ultimately show "ld_ok ?s" using ld none top lt av1 load_fields [OF p] pr
    by (auto simp: ld_ok_def not_in_iff intro: order.strict_trans)
qed

lemma ld_ok_add:
  assumes ld: "ld_ok s" and wait: "ldpc s = LWait" "ld_i s < nat (num_processes (cfg s))" "ld_proc s = Some p"
    and s': "ldpc s' = LSlot False" "ld_proc s' = None" "ld_i s' = ld_i s + 1" "cfg s' = cfg s" "os_done s' = os_done s" "avail_pid s' = avail_pid s"
    and sub: "image_mset pid (live s') \<subseteq># add_mset (pid p) (image_mset pid (live s))"
  shows "ld_ok s'"
proof -
  have "pids s' \<subseteq># pids s" using sub wait(3) s'(2) by (simp add: pids_def)
  then have sub: "count (pids s') k \<le> count (pids s) k" "k \<in># pids s' \<Longrightarrow> k \<in># pids s" for k
    by (auto intro: mset_subset_eq_count dest: mset_subset_eqD)
  have "count (pids s') k \<le> 1" for k using ld sub(1) [of k] by (auto simp: ld_ok_def intro: le_trans)
  then show ?thesis using ld wait sub(2) by (auto simp: ld_ok_def s')
qed

text \<open>The clock the loader sees, while it waits for the start time of a process.\<close>

lemma ld_due:
  assumes inv: "os_shape env tr s" and run: "dpcs (timer s) ! ld_dev s = DRun" and wait: "ldpc s = LWait" "ld_i s < nat (num_processes (cfg s))"
  defines "n \<equiv> finished tr (ld_dev s)"
  shows "current_time (timer s) < ld_start (cfg s) ! ld_i s \<longleftrightarrow> n < unat (ld_start (cfg s) ! ld_i s)"
    and "next_time (ld_start (cfg s)) (ld_i s) \<le> n" and "n \<le> arrival (ld_start (cfg s)) (ld_i s)"
proof -
  show n: "next_time (ld_start (cfg s)) (ld_i s) \<le> n" "n \<le> arrival (ld_start (cfg s)) (ld_i s)"
    using inv wait by (simp_all add: os_shape_def ld_time_def n_def)
  have "arrival (ld_start (cfg s)) (ld_i s) < 2 ^ 64" using inv wait(2) by (simp add: os_shape_def config_ok_def)
  with n have "unat (of_nat n :: ulong) = n" by (simp add: unat_of_nat)
  then show "current_time (timer s) < ld_start (cfg s) ! ld_i s \<longleftrightarrow> n < unat (ld_start (cfg s) ! ld_i s)"
    using ld_clock [OF inv run] by (simp add: word_less_nat_alt n_def)
qed

lemma ld_step_shape:
  assumes inv: "os_shape env tr s" and step: "ld_routine env s = Some s'"
  shows "exited s' = exited s \<and> (\<exists>tr'. os_shape env tr' s')"
proof -
  have core: "shape_ok s" and ld: "ld_ok s" and dl: "dev_link s" and cf: "config_ok env (cfg s)"
    and tr: "trun tr (boot_timer (Suc (length (cpus s)))) = Some (timer s)" and lt: "ld_time s (finished tr (ld_dev s))"
    using inv by (simp_all add: os_shape_def)
  have run: "dpcs (timer s) ! ld_dev s = DRun" using step by (auto simp: ld_routine_def bind_Some_iff)
  let ?n = "finished tr (ld_dev s)" and ?st = "ld_start (cfg s)"
  have rest: "os_shape env tr x" if "shape_ok x" "ld_ok x" "cpus x = cpus s" "timer x = timer s" "cfg x = cfg s"
      "ldpc x \<noteq> LDone" "ldpc s \<noteq> LDone" "ld_time x ?n" for x
    using dl that tr cf by (simp add: os_shape_def ld_dev_def dev_link_def)
  have same: "shape_ok x" "pids x = pids s" if "cfg x = cfg s" "cpus x = cpus s" "sched x = sched s" "ld_proc x = ld_proc s" for x
    using shape_cong [OF core that(1-3)] live_cong [OF that(2,3)] that(4) by (simp_all add: pids_def)
  show ?thesis
    using ld cf step
  proof (cases rule: ld_cases)
    case (load p)
    have "shape_ok s'" by (rule shape_cong [OF core]) (simp_all add: load(4))
    moreover have "ld_ok s'" unfolding load(4) by (rule ld_ok_load(1) [OF ld cf load(1-3)])
    moreover have "ld_time s' ?n" using lt load(1) arrival_next [of ?st "ld_i s"] by (simp add: ld_time_def load(4))
    ultimately have "os_shape env tr s'" using load(1) by (intro rest) (simp_all add: load(4))
    then show ?thesis by (auto simp: load(4))
  next
    case all
    have "ld_ok s'" using ld all same(2) [of s'] by (auto simp: ld_ok_def)
    then have "os_shape env tr s'" using all same(1) [of s'] by (intro rest) (simp_all add: ld_time_def)
    then show ?thesis by (auto simp: all)
  next
    case early
    note due = ld_due [OF inv run early(1,2)]
    have "ld_ok s'" using ld early same(2) [of s'] by (auto simp: ld_ok_def)
    then have "os_shape env tr s'" using early same(1) [of s'] due by (intro rest) (simp_all add: ld_time_def)
    then show ?thesis by (auto simp: early)
  next
    case (add p p' q)
    note due = ld_due [OF inv run add(1,2)]
    have pk: "proc_ok p'" using ld add(4) by (simp add: ld_ok_def proc_ok_def add(5) legal_prio_def)
    note new = add_ready [OF core pk add(6)]
    have "shape_ok s'" by (rule shape_cong [OF new(1)]) (simp_all add: add(7))
    moreover have "ld_ok s'" by (rule ld_ok_add [OF ld add(1,2,4)]) (use new(2) in \<open>auto simp: add(5,7) live_def\<close>)
    moreover have "?n = arrival ?st (ld_i s)" using due add(3) arrival_next [of ?st "ld_i s"] by simp
    then have "ld_time s' ?n" by (simp add: ld_time_def add(7))
    ultimately have "os_shape env tr s'" using add(1) by (intro rest) (simp_all add: add(7))
    then show ?thesis by (auto simp: add(7))
  next
    case (slot again t)
    have "ld_ok s'" using ld slot same(2) [of s'] by (cases again) (auto simp: ld_ok_def)
    moreover have "dev_link s'" using dl next_slot_dpcs [OF slot(2)] slot(1) by (auto simp: dev_link_def slot(3) ld_dev_def nth_list_update)
    moreover have "trun (tr @ [Next (ld_dev s)]) (boot_timer (Suc (length (cpus s')))) = Some (timer s')"
      using tr slot(2) by (intro trun_snoc) (simp_all add: slot(3))
    moreover have "ld_time s' (Suc ?n)"
      using lt slot(1) arrival_next [of ?st "ld_i s"] by (cases again) (simp_all add: ld_time_def slot(3) next_time_def)
    ultimately have "os_shape env (tr @ [Next (ld_dev s)]) s'"
      using cf same(1) [of s'] finished_next [of tr "ld_dev s"] by (simp add: os_shape_def slot(3) ld_dev_def)
    then show ?thesis by (auto simp: slot(3))
  next
    case (leave t)
    have "ld_ok s'" using ld leave same(2) [of s'] by (auto simp: ld_ok_def)
    moreover have "dev_link s'" using dl detach_dpcs [OF leave(2)] by (auto simp: dev_link_def leave(3) ld_dev_def nth_list_update)
    moreover have "trun (tr @ [Detach (ld_dev s)]) (boot_timer (Suc (length (cpus s')))) = Some (timer s')"
      using tr leave(2) by (intro trun_snoc) (simp_all add: leave(3))
    ultimately have "os_shape env (tr @ [Detach (ld_dev s)]) s'" using cf same(1) [of s'] by (simp add: os_shape_def leave(3) ld_time_def)
    then show ?thesis by (auto simp: leave(3))
  qed
qed

text \<open>What the loader does to the processes: nothing, or a new one joins a queue.\<close>

lemma ld_step_frame:
  assumes inv: "os_shape env tr s" and step: "ld_routine env s = Some s'"
  shows "ram s' = ram s \<and> swp s' = swp s \<and> cpus s' = cpus s \<and> (mlq_ready (sched s') = mlq_ready (sched s)
    \<or> (\<exists>p. fresh_mm (mm p) \<and> pc p = 0 \<and> mlq_ready (sched s') = add_mset p (mlq_ready (sched s))))"
proof -
  have core: "shape_ok s" and ld: "ld_ok s" and cf: "config_ok env (cfg s)" using inv by (simp_all add: os_shape_def)
  from ld cf step show ?thesis
  proof (cases rule: ld_cases)
    case (add p p' q)
    have "proc_ok p'" using ld add(4) by (simp add: ld_ok_def proc_ok_def add(5) legal_prio_def)
    note new = add_ready(2) [OF core this add(6)]
    have "fresh_mm (mm p') \<and> pc p' = 0" using fresh_zero ld add(4) by (simp add: ld_ok_def add(5))
    with new show ?thesis by (auto simp: add(7))
  qed simp_all
qed

text \<open>A step of the program, until it exits.\<close>

lemma join_return_frame:
  assumes "os_step env a s = Some s'" "timer_act a \<noteq> None \<or> a = Join \<or> a = Return"
  shows "cpus s' = cpus s \<and> sched s' = sched s \<and> ram s' = ram s \<and> swp s' = swp s"
  using assms by (cases a) (auto simp: os_step_def main_join_def main_return_def bind_Some_iff split: if_splits)

lemma os_step_shape:
  assumes inv: "os_shape env tr s" and legal: "os_legal a s" and step: "os_step env a s = Some s'" and run: "exited s' = None"
  shows "\<exists>tr'. os_shape env tr' s'"
proof (cases "timer_act a")
  case (Some ta)
  then obtain t where "tstep ta (timer s) = Some t" "s' = s\<lparr>timer := t\<rparr>"
    using step by (auto simp: os_step_def bind_Some_iff split: if_splits)
  with timer_act_shape [OF inv Some] show ?thesis by blast
next
  case None
  show ?thesis
  proof (cases a)
    case (Cpu i)
    then have "cpu_routine i s = Some s'" using step by (simp add: os_step_def split: if_splits)
    with cpu_step_shape [OF inv] legal Cpu show ?thesis by blast
  next
    case Ld
    then have "ld_routine env s = Some s'" using step by (simp add: os_step_def split: if_splits)
    with ld_step_shape [OF inv] show ?thesis by blast
  next
    case Join
    then have s': "s' = s\<lparr>timer := stop_timer (timer s)\<rparr>" using step by (auto simp: os_step_def main_join_def bind_Some_iff split: if_splits)
    have "trun (tr @ [Stop]) (boot_timer (Suc (length (cpus s)))) = Some (stop_timer (timer s))"
      using inv by (intro trun_snoc) (simp_all add: os_shape_def)
    moreover have "shape_ok s' \<and> pids s' = pids s" using inv by (simp add: os_shape_def shape_ok_def live_def pids_def s')
    moreover have "dev_link s'" using inv by (simp add: os_shape_def dev_link_def s' stop_timer_def)
    moreover have "ld_ok s'" using inv calculation(2) by (simp add: os_shape_def ld_ok_def s')
    moreover have "ld_time s' n = ld_time s n" for n by (simp add: ld_time_def s' split: ld_pc.split bool.split)
    moreover have "finished (tr @ [Stop]) d = finished tr d" for d by (rule finished_other) simp
    ultimately show ?thesis using inv by (intro exI [of _ "tr @ [Stop]"]) (simp add: os_shape_def s' ld_dev_def)
  next
    case Return
    then have "exited s' = Some 0" using step by (auto simp: os_step_def main_return_def bind_Some_iff split: if_splits)
    with run show ?thesis by simp
  qed (use None in simp_all)
qed

text \<open>The memories of the processes, when an instruction is one step.\<close>

lemma os_step_pool:
  assumes inv: "os_inv env tr s" and legal: "os_legal a s" and step: "os_step env a s = Some s'"
  shows "pool_ok (live s') (ram s') (swp s')"
proof -
  have pool: "pool_ok (live s) (ram s) (swp s)" using inv by (simp add: os_inv_def)
  consider (cpu) i where "a = Cpu i" | (ld) "a = Ld" | (rest) "timer_act a \<noteq> None \<or> a = Join \<or> a = Return" by (cases a) auto
  then show ?thesis
  proof cases
    case (cpu i)
    then have "cpu_routine i s = Some s'" using step by (simp add: os_step_def split: if_splits)
    from cpu_step_core [OF os_invD(2) [OF inv] legal [unfolded cpu] this] show ?thesis by (simp add: core_ok_def)
  next
    case ld
    then have "ld_routine env s = Some s'" using step by (simp add: os_step_def split: if_splits)
    from ld_step_frame [OF os_invD(1) [OF inv] this] have f: "ram s' = ram s" "swp s' = swp s" "live s' = live s
        \<or> (\<exists>p. fresh_mm (mm p) \<and> live s' = add_mset p (live s))" by (auto simp: live_def)
    with pool pool_add_fresh [OF pool] show ?thesis by auto
  next
    case rest
    from join_return_frame [OF step rest] have f: "ram s' = ram s" "swp s' = swp s" "live s' = live s" by (simp_all add: live_def)
    with pool show ?thesis by simp
  qed
qed

lemma os_step_inv:
  assumes inv: "os_inv env tr s" and legal: "os_legal a s" and step: "os_step env a s = Some s'" and run: "exited s' = None"
  shows "\<exists>tr'. os_inv env tr' s'"
  using os_step_shape [OF os_invD(1) [OF inv] legal step run] os_step_pool [OF inv legal step] by (auto simp: os_inv_def)

section \<open>Reachable states\<close>

inductive os_reach :: "os_env \<Rightarrow> os_t \<Rightarrow> os_t \<Rightarrow> bool" for env s0 where
  start: "os_reach env s0 s0"
| move: "\<lbrakk>os_reach env s0 s; os_legal a s; os_step env a s = Some s'\<rbrakk> \<Longrightarrow> os_reach env s0 s'"

text \<open>
  A start of the program: the memory sizes fit the frame number fields, and the queues are
  the static array.
\<close>

definition booted :: "os_env \<Rightarrow> os_t \<Rightarrow> bool" where
  "booted env s0 \<longleftrightarrow> (\<exists>c mp node q. boot c mp node q = Some s0 \<and> config_ok env c
     \<and> (\<forall>i<MAX_PRIO. length (proc (queues q ! i)) = MAX_QUEUE_SIZE)
     \<and> 512 \<le> memramsz c \<and> memramsz c \<le> 262144 \<and> 512 \<le> memswpsz c ! 0 \<and> memswpsz c ! 0 \<le> 536870912)"

lemma booted_inv:
  assumes "booted env s0"
  shows "os_inv env [] s0 \<and> exited s0 = None"
proof -
  obtain c mp node q where b: "boot c mp node q = Some s0" and cf: "config_ok env c"
    and q: "\<forall>i<MAX_PRIO. length (proc (queues q ! i)) = MAX_QUEUE_SIZE"
    and m: "512 \<le> memramsz c" "memramsz c \<le> 262144" "512 \<le> memswpsz c ! 0" "memswpsz c ! 0 \<le> 536870912"
    using assms by (auto simp: booted_def)
  from b obtain mram mswp0 where d: "init_memphy node mp (memramsz c) 1 = Some (0, mram)" "init_memphy node mp (memswpsz c ! 0) 1 = Some (0, mswp0)"
    and s0: "s0 = \<lparr>cfg = c, timer = boot_timer (nat (num_cpus c) + 1),
            cpus = replicate (nat (num_cpus c)) \<lparr>cpc = CTop, time_left = 0, cproc = None\<rparr>,
            sched = init_scheduler q, ram = mram, swp = mswp0, ld_i = 0, ldpc = LTop, ld_proc = None,
            avail_pid = 1, os_done = 0, exited = None, out = []\<rparr>"
    using init_memphy_spec [of "memramsz c" 1 node mp] init_memphy_spec [of "memswpsz c ! 0" 1 node mp] m
    by (auto simp: boot_def bind_Some_iff PAGING_PAGESZ_def)
  have dev: "dev_ok mram \<and> maxsz mram = memramsz c \<and> (\<forall>f\<in>frames mram. \<forall>i. frame_byte mram f i = 0)"
      "dev_ok mswp0 \<and> maxsz mswp0 = memswpsz c ! 0"
    using init_memphy_spec [of "memramsz c" 1 node mp] init_memphy_spec [of "memswpsz c ! 0" 1 node mp] m d
    by (auto simp: PAGING_PAGESZ_def)
  have "devs_ok mram mswp0" using dev m by (auto simp: devs_ok_def frames_def dev_ok_def PAGING_PAGESZ_def)
  then have "pool_ok {#} mram mswp0" by (simp add: pool_ok_def procs_ok_def)
  moreover have "on_cpus (cpus s0) = {#}" by (simp add: s0 on_cpus_def)
  moreover have sch: "mlq_ok (init_scheduler q)" "mlq_ready (init_scheduler q) = {#}"
    using init_scheduler_ok [OF q] by (simp_all add: mlq_ready_def a_ready_empty_iff)
  ultimately have "core_ok s0" using cf by (simp add: core_ok_def shape_ok_def live_def s0 cpu_ok_def config_ok_def)
  moreover have "ld_ok s0" using cf sch(2) \<open>on_cpus (cpus s0) = {#}\<close> by (simp add: ld_ok_def pids_def live_def s0 config_ok_def)
  moreover have "dev_link s0" by (simp add: dev_link_def s0 boot_timer_state nth_append del: replicate_Suc)
  moreover have "ld_time s0 0" by (simp add: ld_time_def s0 next_time_def)
  ultimately show ?thesis using cf by (simp add: os_inv_def os_shape_def core_ok_def s0 finished_def)
qed

lemma reach_inv:
  assumes "os_reach env s0 s" "booted env s0" "exited s = None"
  obtains tr where "os_inv env tr s"
proof -
  have "\<exists>tr. os_inv env tr s" using assms
  proof (induction rule: os_reach.induct)
    case start
    then show ?case using booted_inv by blast
  next
    case (move s a s')
    have "exited s = None" using move.hyps(3) by (auto simp: os_step_def split: if_splits)
    with move obtain tr where "os_inv env tr s" by blast
    with os_step_inv [OF this move.hyps(2,3)] move.prems show ?case by blast
  qed
  then show ?thesis using that by blast
qed

end
