(* ===== verification/Simulator.thy ===== *)
theory Simulator
  imports Os_Run
begin

text \<open>
  What holds of every run of the whole simulator: memory safety and isolation, processes at
  one place, time slices, arrival of processes, absence of faults and of deadlock; and two
  defects of \<open>src/os.c\<close>: an idle processor never stops, and a process that finishes takes
  its frames with it.
\<close>

section \<open>No fault\<close>

lemma cpu_total_shape:
  assumes inv: "os_shape env tr s" and pc: "cpc (cpus s ! i) \<noteq> CRun" and i: "i < length (cpus s)" "dpcs (timer s) ! i = DRun"
  shows "\<exists>s'. cpu_routine i s = Some s'"
proof -
  define c where "c = cpus s ! i"
  then have c: "cpus s ! i = c" by simp
  have core: "shape_ok s" and dl: "dev_link s"
    and tr: "trun tr (boot_timer (Suc (length (cpus s)))) = Some (timer s)" using inv by (simp_all add: os_shape_def)
  have len: "length (ids (timer s)) = Suc (length (cpus s))" "i < length (dpcs (timer s))"
    using run_devices [OF tr] dl i by (simp_all add: dev_link_def)
  have cin: "c \<in> set (cpus s)" using i c by auto
  then have cok: "cpu_ok (time_slot (cfg s)) c" and q: "mlq_ok (sched s)" and ts: "time_slot (cfg s) < 2 ^ 31"
    using core by (simp_all add: shape_ok_def)
  have proc: "p \<in># live s \<and> proc_ok p" if "cproc c = Some p" for p
    using on_cpus_member [OF cin that] core by (simp add: live_def shape_ok_def)
  have get: "\<exists>p q'. get_proc (sched s) = Some (p, q')" using mlq.get_total [OF q] by (metis get_proc_def)
  note d = cpu_routine_def i c len list_get_def
  show ?thesis
  proof (cases "cpc c")
    case CTop
    show ?thesis
    proof (cases "cproc c")
      case None
      with get CTop show ?thesis by (auto simp: d)
    next
      case (Some p)
      have "legal_prio p" using proc [OF Some] by (simp add: proc_ok_def)
      then have "\<exists>q'. put_proc (sched s) p = Some q'" using mlq.put_total [OF q] by (metis put_proc_def)
      with CTop Some show ?thesis by (auto simp: d)
    qed
  next
    case CGet
    with get show ?thesis by (auto simp: d)
  next
    case CCheck
    then show ?thesis by (cases "cproc c") (auto simp: d)
  next
    case CRun
    then show ?thesis using pc c by simp
  next
    case CSlot
    then show ?thesis by (auto simp: d next_slot_def less_SucI)
  next
    case CStop
    then show ?thesis by (auto simp: d detach_event_def less_SucI)
  next
    case CDone
    then show ?thesis using dl i c by (auto simp: dev_link_def)
  qed
qed

lemma cpu_total:
  assumes inv: "os_inv env tr s" and legal: "os_legal (Cpu i) s" and i: "i < length (cpus s)" "dpcs (timer s) ! i = DRun"
  shows "\<exists>s'. cpu_routine i s = Some s'"
proof (cases "cpc (cpus s ! i) = CRun")
  case False
  then show ?thesis by (rule cpu_total_shape [OF os_invD(1) [OF inv] _ i])
next
  case True
  define c where "c = cpus s ! i"
  then have c: "cpus s ! i = c" by simp
  have core: "core_ok s" and dl: "dev_link s" using os_invD [OF inv] by (simp_all add: os_shape_def)
  have dev: "i < length (dpcs (timer s))" using dl i by (simp add: dev_link_def)
  have cin: "c \<in> set (cpus s)" using i c by auto
  then have cok: "cpu_ok (time_slot (cfg s)) c" and ts: "time_slot (cfg s) < 2 ^ 31" using core by (simp_all add: core_ok_def shape_ok_def)
  obtain p where p: "cproc c = Some p" using cok True c by (cases "cproc c") (auto simp: cpu_ok_def)
  have "legal_step p" using legal i c True p by (simp add: os_legal_def)
  moreover obtain M where M: "live s = add_mset p M" using on_cpus_member [OF cin p] by (metis live_def mset_add union_iff)
  moreover have "pool_ok (add_mset p M) (ram s) (swp s)" using core M by (simp add: core_ok_def)
  ultimately obtain r ls p' ram' swp' where "run p (ram s) (swp s) = Some (r, ls, p', ram', swp')"
    using pool_run_total by metis
  moreover have "chk_int (time_left c - 1) = Some (time_left c - 1)" using cok True c ts by (intro chk_int_Some) (auto simp: cpu_ok_def)
  ultimately show ?thesis using True p by (auto simp: cpu_routine_def i c dev list_get_def)
qed

lemma ld_total:
  assumes inv: "os_shape env tr s" and run: "dpcs (timer s) ! ld_dev s = DRun"
  shows "\<exists>s'. ld_routine env s = Some s'"
proof -
  have core: "shape_ok s" and ld: "ld_ok s" and dl: "dev_link s" and cf: "config_ok env (cfg s)"
    and tr: "trun tr (boot_timer (Suc (length (cpus s)))) = Some (timer s)" using inv by (simp_all add: os_shape_def)
  have len: "ld_dev s < length (ids (timer s))" "ld_dev s < length (dpcs (timer s))"
    using run_devices [OF tr] dl by (simp_all add: dev_link_def ld_dev_def)
  note d = ld_routine_def run len
  have gets: "list_get (ld_start (cfg s)) (int (ld_i s)) = Some (ld_start (cfg s) ! ld_i s)"
      "list_get (ld_path (cfg s)) (int (ld_i s)) = Some (ld_path (cfg s) ! ld_i s)"
      "list_get (ld_prio (cfg s)) (int (ld_i s)) = Some (ld_prio (cfg s) ! ld_i s)" if "ld_i s < nat (num_processes (cfg s))"
    using cf that by (auto simp: config_ok_def list_get_def)
  show ?thesis
  proof (cases "ldpc s")
    case LTop
    show ?thesis
    proof (cases "int (ld_i s) < num_processes (cfg s)")
      case True
      then have i: "ld_i s < nat (num_processes (cfg s))" by simp
      then obtain p where "load (blk env (ld_i s)) (txt_mem env (ld_i s)) (avail_pid s) (files env (ld_path (cfg s) ! ld_i s))
          = Some (Inr p, avail_pid s + 1)" using cf by (auto simp: config_ok_def)
      with True LTop gets [OF i] show ?thesis by (simp add: d)
    next
      case False
      with LTop show ?thesis by (simp add: d)
    qed
  next
    case LWait
    then obtain p where p: "ld_proc s = Some p" "ld_i s < nat (num_processes (cfg s))" "unat (prio p) < MAX_PRIO"
      using ld by (auto simp: ld_ok_def)
    have q: "mlq_ok (sched s)" using core by (simp add: shape_ok_def)
    have "\<exists>q'. add_proc (sched s) (p\<lparr>mm := m\<rparr>) = Some q'" for m
    proof -
      have "legal_prio (p\<lparr>mm := m\<rparr>)" using p(3) by (simp add: legal_prio_def)
      from mlq.put_total [OF q this] show ?thesis by (metis add_proc_def add_mlq_proc_eq)
    qed
    then obtain q' where "add_proc (sched s) (p\<lparr>mm := snd (init_mm (vma_mem env (ld_i s)) zero_mm)\<rparr>) = Some q'" by blast
    with LWait p(1) gets [OF p(2)] show ?thesis by (simp add: d Let_def)
  next
    case (LSlot again)
    then show ?thesis by (auto simp: d next_slot_def)
  next
    case LStop
    then show ?thesis by (auto simp: d detach_event_def)
  next
    case LDone
    then show ?thesis using dl run by (auto simp: dev_link_def ld_dev_def)
  qed
qed

section \<open>An idle processor\<close>

text \<open>
  A processor that found no process at the head of its loop, when no process is left
  anywhere and the loader has finished.
\<close>

definition idle_cpu :: "nat \<Rightarrow> os_t \<Rightarrow> bool" where
  "idle_cpu i s \<longleftrightarrow> i < length (cpus s) \<and> cpc (cpus s ! i) \<in> {CTop, CSlot} \<and> exited s = None
     \<and> (\<forall>c\<in>set (cpus s). cproc c = None) \<and> mlq_ok (sched s) \<and> mlq_ready (sched s) = {#}
     \<and> ldpc s \<in> {LStop, LDone} \<and> timer_stop (timer s) = 0"

lemma timer_stop_kept:
  "timer_act a = Some ta \<Longrightarrow> tstep ta t = Some t' \<Longrightarrow> timer_stop t' = timer_stop t"
  "next_slot d t = Some t' \<Longrightarrow> timer_stop t' = timer_stop t"
  "detach_event d t = Some t' \<Longrightarrow> timer_stop t' = timer_stop t"
proof -
  show "timer_act a = Some ta \<Longrightarrow> tstep ta t = Some t' \<Longrightarrow> timer_stop t' = timer_stop t"
    by (cases a) (auto simp: timer_routine_def wait_slot_def bind_Some_iff split: timer_pc.splits list.splits if_splits)
qed (auto simp: next_slot_def detach_event_def bind_Some_iff)


lemma idle_step:
  assumes idle: "idle_cpu i s" and step: "os_step env a s = Some s'"
  shows "idle_cpu i s'"
proof (cases "timer_act a")
  case (Some ta)
  then obtain t where "tstep ta (timer s) = Some t" "s' = s\<lparr>timer := t\<rparr>"
    using step by (auto simp: os_step_def bind_Some_iff split: if_splits)
  with idle timer_stop_kept(1) [OF Some] show ?thesis by (simp add: idle_cpu_def)
next
  case None
  have q: "mlq_ok (sched s)" "mlq_ready (sched s) = {#}" using idle by (simp_all add: idle_cpu_def)
  have get: "p = None \<and> mlq_ok q' \<and> mlq_ready q' = {#}" if "get_proc (sched s) = Some (p, q')" for p q'
    using get_live [OF q(1) that] q(2) by simp
  show ?thesis
  proof (cases a)
    case (Cpu j)
    then have cpu: "cpu_routine j s = Some s'" using step by (simp add: os_step_def split: if_splits)
    define c where "c = cpus s ! j"
    then have c: "cpus s ! j = c" by simp
    note j = cpu_routineD(1) [OF cpu]
    have none: "cproc c = None" using idle j c by (auto simp: idle_cpu_def)
    have base: "exited s = None" "timer_stop (timer s) = 0" "j = i \<longrightarrow> cpc c \<in> {CTop, CSlot}" using idle c by (auto simp: idle_cpu_def)
    have fin: ?thesis if "cpus s' = (cpus s)[j := cpus s' ! j]" "cproc (cpus s' ! j) = None" "j = i \<longrightarrow> cpc (cpus s' ! j) \<in> {CTop, CSlot}"
        "exited s' = None" "mlq_ok (sched s')" "mlq_ready (sched s') = {#}" "ldpc s' = ldpc s" "timer_stop (timer s') = 0"
    proof -
      have "\<forall>c\<in>set (cpus s'). cproc c = None"
        using idle that(1,2) set_update_subset_insert [of "cpus s" j "cpus s' ! j"] by (auto simp: idle_cpu_def)
      moreover have "cpc (cpus s' ! i) \<in> {CTop, CSlot}"
      proof (cases "j = i")
        case False
        then have "cpus s' ! i = cpus s ! i" using that(1) by (metis nth_list_update_neq)
        then show ?thesis using idle by (simp add: idle_cpu_def)
      qed (use that(3) in simp)
      moreover have "length (cpus s') = length (cpus s)" using that(1) by (metis length_list_update)
      ultimately show ?thesis using idle that by (simp add: idle_cpu_def)
    qed
    from cpu c show ?thesis
    proof (cases rule: cpu_cases)
      case (slot t)
      then show ?thesis using base q none j timer_stop_kept(2) by (intro fin) auto
    next
      case (leave t)
      then show ?thesis using base q none j timer_stop_kept(3) by (intro fin) auto
    qed (rule fin; use base q none get j in auto)+
  next
    case Ld
    then have ld: "ld_routine env s = Some s'" using step by (simp add: os_step_def split: if_splits)
    have "ldpc s \<in> {LStop, LDone}" using idle by (simp add: idle_cpu_def)
    then obtain t where "detach_event (ld_dev s) (timer s) = Some t" "s' = s\<lparr>timer := t, ldpc := LDone\<rparr>"
      using ld by (auto simp: ld_routine_def bind_Some_iff)
    with idle timer_stop_kept(3) show ?thesis by (simp add: idle_cpu_def)
  next
    case Join
    then have "\<forall>c\<in>set (cpus s). cpc c = CDone" using step by (auto simp: os_step_def main_join_def bind_Some_iff split: if_splits)
    moreover have "cpus s ! i \<in> set (cpus s)" "cpc (cpus s ! i) \<in> {CTop, CSlot}" using idle by (auto simp: idle_cpu_def)
    ultimately show ?thesis by auto
  next
    case Return
    then show ?thesis using step idle by (auto simp: os_step_def main_return_def bind_Some_iff idle_cpu_def split: if_splits)
  qed (use None in simp_all)
qed

lemma idle_forever: "os_reach env s s' \<Longrightarrow> idle_cpu i s \<Longrightarrow> idle_cpu i s'"
  by (induction rule: os_reach.induct) (auto intro: idle_step)

section \<open>A small run\<close>

definition demo_ins :: inst_t where
  "demo_ins = \<lparr>opcode = CALC, arg_0 = 0, arg_1 = 0, arg_2 = 0\<rparr>"

definition demo_env :: os_env where
  "demo_env = \<lparr>files = (\<lambda>_. Some (show_file 1 1 [demo_ins])), blk = (\<lambda>_. pcb0), txt_mem = (\<lambda>_ _. ins0), vma_mem = (\<lambda>_. [])\<rparr>"

definition demo_cfg :: os_config where
  "demo_cfg = \<lparr>time_slot = 2, num_cpus = 1, num_processes = 1, memramsz = 512, memswpsz = [512, 512, 512, 512],
     ld_path = [''input/proc/c''], ld_start = [0], ld_prio = [0]\<rparr>"

lemma demo_load: "\<exists>p. load (blk demo_env i) (txt_mem demo_env i) k (files demo_env x) = Some (Inr p, k + 1)"
  using load_show [of "[demo_ins]" 1 pcb0 "\<lambda>_. ins0" k 1] by (auto simp: demo_env_def)

text \<open>The process of the demonstration has one instruction, which is legal.\<close>

lemma demo_program: "\<exists>p. load (blk demo_env 0) (txt_mem demo_env 0) 1 (files demo_env ''input/proc/c'') = Some (Inr p, 1 + 1)
    \<and> pc p = 0 \<and> code_size (code p) = 1 \<and> (\<forall>k m. legal_step (p\<lparr>prio := k, mm := m\<rparr>))"
proof -
  obtain p "is" where p: "load pcb0 (\<lambda>_. ins0) 1 (Some (show_file 1 1 [demo_ins])) = Some (Inr p, 1 + 1)" "pc p = 0" "code_size (code p) = 1"
    "code_text (code p) = is" "list_all2 same_ins is [demo_ins]"
    using load_show [of "[demo_ins]" 1 pcb0 "\<lambda>_. ins0" 1 1] by auto
  then obtain i where "code_text (code p) = [i]" "opcode i = CALC" by (auto simp: list_all2_Cons2 same_ins_def demo_ins_def)
  with p(2,3) have "\<forall>k m. legal_step (p\<lparr>prio := k, mm := m\<rparr>)" by (simp add: legal_step_def legal_ins_def)
  with p show ?thesis by (auto simp: demo_env_def)
qed

lemma demo_config: "config_ok demo_env demo_cfg"
  using demo_load by (simp add: config_ok_def demo_cfg_def MAX_PRIO_def) (simp add: demo_env_def)

lemma demo_boot: "\<exists>mp. boot demo_cfg raw_memphy [99] mlq0 = Some \<lparr>cfg = demo_cfg, timer = boot_timer 2,
    cpus = [\<lparr>cpc = CTop, time_left = 0, cproc = None\<rparr>], sched = init_scheduler mlq0, ram = mp, swp = mp, ld_i = 0,
    ldpc = LTop, ld_proc = None, avail_pid = 1, os_done = 0, exited = None, out = []\<rparr>"
proof -
  obtain mp where "init_memphy [99] raw_memphy 512 1 = Some (0, mp)"
    using init_memphy_spec [of 512 1 "[99]" raw_memphy] by (auto simp: PAGING_PAGESZ_def)
  then show ?thesis by (simp add: boot_def demo_cfg_def PAGING_MAX_MMSWP_def numeral_2_eq_2)
qed

definition demo_s0 :: os_t where
  "demo_s0 = the (boot demo_cfg raw_memphy [99] mlq0)"

lemma demo_s0: "boot demo_cfg raw_memphy [99] mlq0 = Some demo_s0"
  using demo_boot by (auto simp: demo_s0_def)

lemma demo_booted: "booted demo_env demo_s0"
  unfolding booted_def
proof (intro exI conjI)
  show "boot demo_cfg raw_memphy [99] mlq0 = Some demo_s0" by (rule demo_s0)
qed (use demo_config in \<open>simp_all add: demo_cfg_def mlq0_def queue0_def\<close>)

lemma demo_fields: "cfg demo_s0 = demo_cfg" "timer demo_s0 = boot_timer 2" "cpus demo_s0 = [\<lparr>cpc = CTop, time_left = 0, cproc = None\<rparr>]"
  "sched demo_s0 = init_scheduler mlq0" "ld_i demo_s0 = 0" "ldpc demo_s0 = LTop" "ld_proc demo_s0 = None" "avail_pid demo_s0 = 1"
  "exited demo_s0 = None" "out demo_s0 = []" "os_done demo_s0 = 0"
proof -
  obtain mp where e: "demo_s0 = \<lparr>cfg = demo_cfg, timer = boot_timer 2,
    cpus = [\<lparr>cpc = CTop, time_left = 0, cproc = None\<rparr>], sched = init_scheduler mlq0, ram = mp, swp = mp, ld_i = 0,
    ldpc = LTop, ld_proc = None, avail_pid = 1, os_done = 0, exited = None, out = []\<rparr>"
    using demo_boot demo_s0 by auto
  show "cfg demo_s0 = demo_cfg" "timer demo_s0 = boot_timer 2" "cpus demo_s0 = [\<lparr>cpc = CTop, time_left = 0, cproc = None\<rparr>]"
    "sched demo_s0 = init_scheduler mlq0" "ld_i demo_s0 = 0" "ldpc demo_s0 = LTop" "ld_proc demo_s0 = None"
    "avail_pid demo_s0 = 1" "exited demo_s0 = None" "out demo_s0 = []" "os_done demo_s0 = 0" by (simp_all only: e os_t.simps)
qed

text \<open>The loader reads the program and adds the process.\<close>

lemma demo_added:
  obtains s1 s2 p where "os_reach demo_env demo_s0 s1" "ld_routine demo_env s1 = Some s2" "ld_i s1 = 0" "ldpc s1 = LWait" "exited s1 = None"
    "os_reach demo_env demo_s0 s2" "exited s2 = None" "ld_i s2 = 1" "live s2 = {#p#}" "cpus s2 = cpus demo_s0" "timer s2 = boot_timer 2"
    "out s2 = [Ld_routine, Loaded ''input/proc/c'' 1 0]" "cfg s2 = demo_cfg" "ldpc s2 = LSlot False" "ld_proc s2 = None" "os_done s2 = 0"
    "mlq_ready (sched s2) = {#p#}" "pc p = 0" "code_size (code p) = 1" "legal_step p"
proof -
  obtain p where p: "load (blk demo_env 0) (txt_mem demo_env 0) 1 (files demo_env ''input/proc/c'') = Some (Inr p, 1 + 1)"
    and one: "pc p = 0" "code_size (code p) = 1" "\<And>k m. legal_step (p\<lparr>prio := k, mm := m\<rparr>)" using demo_program by blast
  define s1 where "s1 = (ld_begin demo_s0)\<lparr>avail_pid := 1 + 1, ld_proc := Some (p\<lparr>prio := 0\<rparr>), ldpc := LWait\<rparr>"
  have l1: "ld_routine demo_env demo_s0 = Some s1"
    using p by (simp add: ld_routine_def demo_fields ld_dev_def boot_timer_state demo_cfg_def list_get_def s1_def)
  then have st1: "os_step demo_env Ld demo_s0 = Some s1" by (simp add: os_step_def demo_fields)
  have r1: "os_reach demo_env demo_s0 s1" by (rule os_reach.move [OF os_reach.start _ st1]) (simp add: os_legal_def)
  let ?p = "p\<lparr>prio := 0, mm := snd (init_mm [] zero_mm)\<rparr>"
  have mq: "mlq_ok (init_scheduler mlq0)" "mlq_ready (init_scheduler mlq0) = {#}"
    using mlq0_init by (simp_all add: mlq_ready_def a_ready_empty_iff)
  have lp: "legal_prio ?p" by (simp add: legal_prio_def MAX_PRIO_def)
  obtain q where q: "put_proc (init_scheduler mlq0) ?p = Some q"
    using mlq.put_total [OF mq(1) lp] by (metis put_proc_def)
  have "a_items (abs_mlq (init_scheduler mlq0)) 0 = []" using mlq0_init(2) by (simp add: a_idle_def MAX_PRIO_def)
  then have "mlq_room (init_scheduler mlq0) ?p" by (simp add: mlq_room_def MAX_QUEUE_SIZE_def)
  then have ready: "mlq_ready q = {#?p#}" using put_live(2) [OF mq(1) lp q] mq(2) by simp
  define s2 where "s2 = say [Loaded ''input/proc/c'' (pid p) 0] (s1\<lparr>sched := q, ld_proc := None, ld_i := 1, ldpc := LSlot False\<rparr>)"
  have "add_proc (init_scheduler mlq0) ?p = Some q" using q by (simp add: add_proc_def put_proc_def add_mlq_proc_eq)
  then have l2: "ld_routine demo_env s1 = Some s2"
    by (simp add: ld_routine_def s1_def demo_fields ld_dev_def boot_timer_state demo_cfg_def list_get_def s2_def current_time_def demo_env_def)
  then have st2: "os_step demo_env Ld s1 = Some s2" by (simp add: os_step_def demo_fields s1_def)
  have r2: "os_reach demo_env demo_s0 s2" by (rule os_reach.move [OF r1 _ st2]) (simp add: os_legal_def)
  have "live s2 = {#?p#}" by (simp add: live_def s2_def s1_def say_def ready demo_fields on_cpus_def)
  from that [OF r1 l2 _ _ _ r2 _ _ this] show ?thesis using load_fields(1) [OF p] one ready by (simp add: s1_def s2_def demo_fields say_def)
qed

section \<open>Properties\<close>

text \<open>
  Memory safety of the running system. Whatever the schedule, the programs (of legal
  instructions), the arrivals and the number of processors, in every reachable state each
  process, queued or running, has a well-formed memory, no two of them share a frame of RAM
  or of swap, none of their frames is on a free list, and no process is at two places.
\<close>

theorem os_memory_safe:
  assumes "booted env s0" and "os_reach env s0 s" and "exited s = None"
  shows "\<forall>p\<in>#live s. mm_ok (pool_ram (live s - {#p#})) (pool_swp (live s - {#p#})) (ctx_of p (ram s) (swp s))
    \<and> used_ram (mm p) \<inter> set (free_fp_list (ram s)) = {} \<and> used_swp (mm p) \<inter> set (free_fp_list (swp s)) = {}
    \<and> (\<forall>q\<in>#live s - {#p#}. pid q \<noteq> pid p \<and> used_ram (mm p) \<inter> used_ram (mm q) = {} \<and> used_swp (mm p) \<inter> used_swp (mm q) = {})"
proof
  fix p assume p: "p \<in># live s"
  obtain tr where inv: "os_inv env tr s" by (rule reach_inv [OF assms(2,1,3)])
  then have ok: "pool_ok (live s) (ram s) (swp s)" and ld: "ld_ok s" by (simp_all add: os_inv_def os_shape_def shape_ok_def)
  define M where "M = live s - {#p#}"
  have M: "live s = add_mset p M" using p by (simp add: M_def)
  have mm: "mm_ok (pool_ram M) (pool_swp M) (ctx_of p (ram s) (swp s))"
    using ok p by (simp add: pool_ok_def procs_ok_def M_def)
  then have vm: "vm_ok (pool_ram M) (pool_swp M) (ctx_of p (ram s) (swp s))" by (simp add: mm_ok_def)
  note used = vm_ok_ram_used(2) [OF vm] vm_ok_swp_used(2) [OF vm]
  then have "used_ram (mm p) \<inter> (set (free_fp_list (ram s)) \<union> pool_ram M) = {}"
    "used_swp (mm p) \<inter> (set (free_fp_list (swp s)) \<union> pool_swp M) = {}"
    unfolding used_ram_eq [symmetric] used_swp_eq [symmetric] by (simp_all add: ctx_of_def)
  moreover have "pid q \<noteq> pid p" if "q \<in># M" for q
  proof
    assume eq: "pid q = pid p"
    obtain N where N: "M = add_mset q N" using \<open>q \<in># M\<close> by (metis mset_add)
    have "count (pids s) (pid p) \<ge> 2" using M N eq by (simp add: pids_def)
    moreover have "count (pids s) (pid p) \<le> 1" using ld by (simp only: ld_ok_def)
    ultimately show False by simp
  qed
  moreover have "used_ram (mm q) \<subseteq> pool_ram M \<and> used_swp (mm q) \<subseteq> pool_swp M" if "q \<in># M" for q
    using that by (auto simp: pool_ram_def pool_swp_def)
  ultimately show "mm_ok (pool_ram (live s - {#p#})) (pool_swp (live s - {#p#})) (ctx_of p (ram s) (swp s))
    \<and> used_ram (mm p) \<inter> set (free_fp_list (ram s)) = {} \<and> used_swp (mm p) \<inter> set (free_fp_list (swp s)) = {}
    \<and> (\<forall>q\<in>#live s - {#p#}. pid q \<noteq> pid p \<and> used_ram (mm p) \<inter> used_ram (mm q) = {} \<and> used_swp (mm p) \<inter> used_swp (mm q) = {})"
    using mm unfolding M_def [symmetric] by blast
qed

theorem os_memory_safe_witness:
  "\<exists>s p. os_reach demo_env demo_s0 s \<and> live s = {#p#} \<and> used_ram (mm p) \<inter> set (free_fp_list (ram s)) = {}"
proof -
  obtain s1 s2 p where s: "os_reach demo_env demo_s0 s2" "exited s2 = None" "live s2 = {#p#}" by (rule demo_added)
  from os_memory_safe [OF demo_booted s(1,2)] s show ?thesis by auto
qed

text \<open>
  A processor cannot disturb a process it does not hold. In a reachable state, a step of
  processor \<open>i\<close> (a dispatch, a put back, an instruction) leaves every other process where
  the system can find it, with every byte of its memory.
\<close>

theorem os_step_isolated:
  assumes "booted env s0" and "os_reach env s0 s" and "exited s = None"
    and "os_legal (Cpu i) s" and "os_step env (Cpu i) s = Some s'" and "q \<in># live s" and "cproc (cpus s ! i) \<noteq> Some q"
  shows "q \<in># live s' \<and> (\<forall>a\<in>vdom (ctx_of q (ram s) (swp s)).
    vread (ctx_of q (ram s') (swp s')) a = vread (ctx_of q (ram s) (swp s)) a)"
proof -
  obtain tr where inv: "os_inv env tr s" by (rule reach_inv [OF assms(2,1,3)])
  then have core: "core_ok s" by (rule os_invD(2))
  have step: "cpu_routine i s = Some s'" using assms(3,5) by (simp add: os_step_def)
  have "live_step (cproc (cpus s ! i)) s s'" using cpu_step_core [OF core assms(4) step] by blast
  then show ?thesis unfolding live_step_def live_kept_def
  proof (elim disjE exE conjE)
    fix p p' M r ls
    assume a: "cproc (cpus s ! i) = Some p" "live s = add_mset p M" "live s' = add_mset p' M" "legal_step p"
      "run p (ram s) (swp s) = Some (r, ls, p', ram s', swp s')"
    have "pool_ok (add_mset p M) (ram s) (swp s)" using core a(2) by (simp add: core_ok_def shape_ok_def)
    moreover have "q \<in># M" using a(1,2) assms(6,7) by auto
    ultimately show ?thesis using pool_run(2) [OF _ a(4,5)] a(3) by auto
  qed (use assms(6,7) in auto)
qed

theorem os_step_isolated_witness:
  "\<exists>s s' q. os_reach demo_env demo_s0 s \<and> os_step demo_env (Cpu 0) s = Some s' \<and> q \<in># live s'"
proof -
  obtain s1 s2 p where s: "os_reach demo_env demo_s0 s2" "exited s2 = None" "live s2 = {#p#}" "cpus s2 = cpus demo_s0"
    "timer s2 = boot_timer 2" by (rule demo_added)
  obtain tr where inv: "os_inv demo_env tr s2" by (rule reach_inv [OF s(1) demo_booted s(2)])
  have legal: "os_legal (Cpu 0) s2" by (simp add: os_legal_def s(4) demo_fields)
  have "0 < length (cpus s2)" "dpcs (timer s2) ! 0 = DRun" by (simp_all add: s(4,5) demo_fields boot_timer_state)
  from cpu_total [OF inv legal this] obtain s' where "cpu_routine 0 s2 = Some s'" by blast
  then have step: "os_step demo_env (Cpu 0) s2 = Some s'" by (simp add: os_step_def s(2))
  have "p \<in># live s2" "cproc (cpus s2 ! 0) \<noteq> Some p" by (simp_all add: s(3,4) demo_fields)
  from os_step_isolated [OF demo_booted s(1,2) legal step this] s(1) step show ?thesis by blast
qed

text \<open>
  No processor exceeds the time slot. In every reachable state the time a processor has
  left is between 0 and the configured slot, it is positive when an instruction is about to
  run, and a processor without a process has none.
\<close>

theorem os_time_slice:
  assumes "booted env s0" and "os_reach env s0 s" and "exited s = None" and "c \<in> set (cpus s)"
  shows "0 \<le> time_left c \<and> time_left c \<le> time_slot (cfg s) \<and> (cpc c = CRun \<longrightarrow> 0 < time_left c)
    \<and> (cproc c = None \<longrightarrow> time_left c = 0 \<and> cpc c \<noteq> CRun)"
proof -
  obtain tr where inv: "os_inv env tr s" by (rule reach_inv [OF assms(2,1,3)])
  then have "cpu_ok (time_slot (cfg s)) c" using assms(4) by (simp add: os_inv_def os_shape_def shape_ok_def)
  then show ?thesis by (auto simp: cpu_ok_def)
qed

theorem os_time_slice_witness:
  "\<exists>s. os_reach demo_env demo_s0 s \<and> ld_i s = 1 \<and> time_left (cpus s ! 0) \<le> time_slot (cfg s)"
proof -
  obtain s1 s2 p where s: "os_reach demo_env demo_s0 s2" "exited s2 = None" "ld_i s2 = 1" "cpus s2 = cpus demo_s0" by (rule demo_added)
  have "cpus s2 ! 0 \<in> set (cpus s2)" by (simp add: s(4) demo_fields)
  from os_time_slice [OF demo_booted s(1,2) this] s show ?thesis by blast
qed

text \<open>Some thread is at work, or the timer or the main thread can move.\<close>

lemma someone_moves:
  assumes inv: "os_shape env tr s" and run: "exited s = None"
  obtains (other) a s' where "os_step env a s = Some s'" "timer_act a \<noteq> None \<or> a = Join \<or> a = Return"
  | (cpu) i where "i < length (cpus s)" "dpcs (timer s) ! i = DRun"
  | (ld) "dpcs (timer s) ! ld_dev s = DRun"
proof -
  from inv have tr: "trun tr (boot_timer (Suc (length (cpus s)))) = Some (timer s)" and dl: "dev_link s" by (simp_all add: os_shape_def)
  from timer_live [OF tr] consider (tick) t where "timer_routine (timer s) = Some t"
    | (work) d where "d < Suc (length (cpus s))" "dpcs (timer s) ! d = DRun"
    | (ret) d t where "wait_slot d (timer s) = Some t"
    | (ended) "tpc (timer s) = TExit" "timer_stop (timer s) \<noteq> 0 \<or> (\<forall>d<Suc (length (cpus s)). dpcs (timer s) ! d = DExit)" by blast
  then show ?thesis
  proof cases
    case tick
    then have "os_step env Clock s = Some (s\<lparr>timer := t\<rparr>)" using run by (simp add: os_step_def)
    then show ?thesis by (rule other) simp
  next
    case (work d)
    then consider "d < length (cpus s)" | "d = ld_dev s" by (auto simp: ld_dev_def less_Suc_eq)
    then show ?thesis using work cpu ld by cases blast+
  next
    case (ret d)
    then have "os_step env (Resume d) s = Some (s\<lparr>timer := t\<rparr>)" using run by (simp add: os_step_def)
    then show ?thesis by (rule other) simp
  next
    case ended
    show ?thesis
    proof (cases "timer_stop (timer s) = 0")
      case True
      then have "\<forall>c\<in>set (cpus s). cpc c = CDone" "ldpc s = LDone" using dl ended(2) by (auto simp: dev_link_def in_set_conv_nth)
      then have "os_step env Join s \<noteq> None" using True run by (simp add: os_step_def main_join_def)
      then show ?thesis using other [of Join] by blast
    next
      case False
      then have "os_step env Return s \<noteq> None" using ended(1) run by (simp add: os_step_def main_return_def free_devices_def)
      then show ?thesis using other [of Return] by blast
    qed
  qed
qed

lemma os_can_move:
  assumes inv: "os_inv env tr s" and run: "exited s = None" and legal: "\<forall>i. os_legal (Cpu i) s"
  shows "\<exists>a s'. os_step env a s = Some s'"
  using os_invD(1) [OF inv] run
proof (cases rule: someone_moves)
  case (cpu i)
  with cpu_total [OF inv _ cpu] legal obtain s' where "cpu_routine i s = Some s'" by blast
  then have "os_step env (Cpu i) s = Some s'" using run by (simp add: os_step_def)
  then show ?thesis by blast
next
  case ld
  from ld_total [OF os_invD(1) [OF inv] ld] obtain s' where "ld_routine env s = Some s'" by blast
  then have "os_step env Ld s = Some s'" using run by (simp add: os_step_def)
  then show ?thesis by blast
qed blast

text \<open>
  Nothing faults and the system never gets stuck. In a reachable state in which every
  process about to execute has a legal instruction, every thread that is at work can make
  its step, and some thread can: the threads never wait for one another for ever.
\<close>

theorem os_never_stuck:
  assumes "booted env s0" and "os_reach env s0 s" and "exited s = None" and "\<forall>i. os_legal (Cpu i) s"
  shows "(\<forall>i<length (cpus s). dpcs (timer s) ! i = DRun \<longrightarrow> (\<exists>s'. os_step env (Cpu i) s = Some s'))
    \<and> (dpcs (timer s) ! ld_dev s = DRun \<longrightarrow> (\<exists>s'. os_step env Ld s = Some s'))
    \<and> (\<exists>a s'. os_step env a s = Some s')"
proof -
  obtain tr where inv: "os_inv env tr s" by (rule reach_inv [OF assms(2,1,3)])
  have "\<exists>s'. os_step env (Cpu i) s = Some s'" if "i < length (cpus s)" "dpcs (timer s) ! i = DRun" for i
    using cpu_total [OF inv _ that] assms(3,4) by (simp add: os_step_def)
  moreover have "\<exists>s'. os_step env Ld s = Some s'" if "dpcs (timer s) ! ld_dev s = DRun"
    using ld_total [OF os_invD(1) [OF inv] that] assms(3) by (simp add: os_step_def)
  ultimately show ?thesis using os_can_move [OF inv assms(3,4)] by blast
qed

theorem os_never_stuck_witness:
  "\<exists>a s'. os_step demo_env a demo_s0 = Some s'"
proof -
  have "\<forall>i. os_legal (Cpu i) demo_s0" by (simp add: os_legal_def demo_fields)
  from os_never_stuck [OF demo_booted os_reach.start demo_fields(9) this] show ?thesis by blast
qed

lemma ld_adds:
  assumes "ld_routine env s = Some s'" "ld_i s' = Suc (ld_i s)"
  shows "ldpc s = LWait" "\<not> current_time (timer s) < ld_start (cfg s) ! ld_i s"
proof -
  show w: "ldpc s = LWait"
  proof (cases "ldpc s")
    case LTop
    have "ld_i s' = ld_i s"
    proof (cases "int (ld_i s) < num_processes (cfg s)")
      case True
      then obtain r n where "s' = (case r of Inl e \<Rightarrow> say [Load_failed e] ((ld_begin s)\<lparr>avail_pid := n, exited := Some 1\<rparr>)
          | Inr p \<Rightarrow> (ld_begin s)\<lparr>avail_pid := n, ld_proc := Some (p\<lparr>prio := ucast (ld_prio (cfg s) ! ld_i s)\<rparr>), ldpc := LWait\<rparr>)"
        using assms(1) LTop by (auto simp: ld_routine_def bind_Some_iff list_get_eq_Some)
      then show ?thesis by (cases r) simp_all
    qed (use assms(1) LTop in \<open>auto simp: ld_routine_def bind_Some_iff\<close>)
    with assms(2) show ?thesis by simp
  qed (use assms in \<open>auto simp: ld_routine_def bind_Some_iff\<close>)
  show "\<not> current_time (timer s) < ld_start (cfg s) ! ld_i s"
    using assms w by (auto simp: ld_routine_def bind_Some_iff list_get_eq_Some split: if_splits)
qed

lemma loader_due:
  assumes inv: "os_shape env tr s" and step: "ld_routine env s = Some s'" "ld_i s' = Suc (ld_i s)"
  shows "current_time (timer s) = of_nat (arrival (ld_start (cfg s)) (ld_i s))
    \<and> ld_start (cfg s) ! ld_i s \<le> current_time (timer s)"
proof -
  from inv have ld: "ld_ok s" and cf: "config_ok env (cfg s)" and lt: "ld_time s (finished tr (ld_dev s))" by (simp_all add: os_shape_def)
  let ?n = "finished tr (ld_dev s)" and ?st = "ld_start (cfg s)"
  have run: "dpcs (timer s) ! ld_dev s = DRun" using step(1) by (auto simp: ld_routine_def bind_Some_iff)
  note clock = ld_clock [OF inv run]
  have w: "ldpc s = LWait" and due: "\<not> current_time (timer s) < ?st ! ld_i s"
    using ld_adds [OF step] by simp_all
  have i: "ld_i s < nat (num_processes (cfg s))" using ld w by (auto simp: ld_ok_def)
  then have ar: "arrival ?st (ld_i s) < 2 ^ 64" using cf by (simp add: config_ok_def)
  have n: "next_time ?st (ld_i s) \<le> ?n" "?n \<le> arrival ?st (ld_i s)" using lt w by (simp_all add: ld_time_def)
  then have "unat (of_nat ?n :: ulong) = ?n" using ar by (simp add: unat_of_nat)
  with due have "unat (?st ! ld_i s) \<le> ?n" by (simp add: clock word_less_nat_alt)
  with n have "?n = arrival ?st (ld_i s)" using arrival_next [of ?st "ld_i s"] by simp
  with clock due show ?thesis by simp
qed

text \<open>
  Processes arrive in order and on time. The loader adds process \<open>i\<close> in the slot
  \<open>arrival i\<close>: its start time, or the slot after the arrival of the process before it when
  that is later; never earlier.
\<close>

theorem loader_on_time:
  assumes "booted env s0" and "os_reach env s0 s" and "exited s = None"
    and "ld_routine env s = Some s'" and "ld_i s' = Suc (ld_i s)"
  shows "current_time (timer s) = of_nat (arrival (ld_start (cfg s)) (ld_i s))
    \<and> ld_start (cfg s) ! ld_i s \<le> current_time (timer s)"
proof -
  obtain tr where inv: "os_inv env tr s" by (rule reach_inv [OF assms(2,1,3)])
  show ?thesis by (rule loader_due [OF os_invD(1) [OF inv] assms(4,5)])
qed

theorem loader_on_time_witness:
  "\<exists>s. os_reach demo_env demo_s0 s \<and> ldpc s = LWait \<and> ld_start (cfg s) ! 0 \<le> current_time (timer s)"
proof -
  obtain s1 s2 where s: "os_reach demo_env demo_s0 s1" "ld_routine demo_env s1 = Some s2" "ld_i s1 = 0" "ldpc s1 = LWait"
    "exited s1 = None" "ld_i s2 = 1" by (rule demo_added)
  from loader_on_time [OF demo_booted s(1,5,2)] s show ?thesis by auto
qed

text \<open>
  C36: an idle processor never stops. A processor that finds no process at the head of its
  loop goes to the next slot without looking at \<open>done\<close>; once every process has finished
  and the loader is done it repeats this for ever: whatever happens it is still in its loop,
  \<open>main\<close> never joins it and the program never exits.
\<close>

theorem idle_cpu_never_stops:
  assumes "idle_cpu i s" and "os_reach env s s'"
  shows "cpc (cpus s' ! i) \<in> {CTop, CSlot} \<and> exited s' = None \<and> main_join s' = None"
proof -
  have idle: "idle_cpu i s'" by (rule idle_forever [OF assms(2,1)])
  then have "cpus s' ! i \<in> set (cpus s')" "cpc (cpus s' ! i) \<in> {CTop, CSlot}" by (auto simp: idle_cpu_def)
  then have nd: "((\<forall>c\<in>set (cpus s'). cpc c = CDone) \<and> ldpc s' = LDone \<and> timer_stop (timer s') = 0) = False" by force
  have "main_join s' = None" unfolding main_join_def nd by simp
  with idle show ?thesis by (simp add: idle_cpu_def)
qed

definition idle_s :: os_t where
  "idle_s = demo_s0\<lparr>os_done := 1, ldpc := LStop\<rparr>"

lemma idle_idle: "idle_cpu 0 idle_s"
  using mlq0_init by (simp add: idle_cpu_def idle_s_def demo_fields boot_timer_state mlq_ready_def a_ready_empty_iff)

theorem idle_cpu_never_stops_witness:
  "\<exists>s'. os_step demo_env (Cpu 0) idle_s = Some s' \<and> cpc (cpus s' ! 0) \<in> {CTop, CSlot} \<and> main_join s' = None"
proof -
  have q: "mlq_ok (sched idle_s)" using idle_idle by (simp add: idle_cpu_def)
  obtain p q' where "get_proc (sched idle_s) = Some (p, q')" using mlq.get_total [OF q] by (metis get_proc_def)
  then obtain s' where "cpu_routine 0 idle_s = Some s'"
    by (auto simp: cpu_routine_def list_get_def idle_s_def demo_fields boot_timer_state)
  then have step: "os_step demo_env (Cpu 0) idle_s = Some s'" by (simp add: os_step_def idle_s_def demo_fields)
  have "os_reach demo_env idle_s s'" by (rule os_reach.move [OF os_reach.start _ step]) (simp add: os_legal_def idle_s_def demo_fields)
  from idle_cpu_never_stops [OF idle_idle this] step show ?thesis by blast
qed

text \<open>
  C37: a process that finishes takes its frames with it. \<open>free(proc)\<close> releases the control
  block only; after the step its frames are on no free list and belong to no live process,
  so nothing can use them again, and the memory of the simulator shrinks.
\<close>

theorem finished_process_leaks:
  assumes "core_ok s" and "i < length (cpus s)" and "cpc (cpus s ! i) = CTop" and "cproc (cpus s ! i) = Some p"
    and "pc p = code_size (code p)" and "i < length (dpcs (timer s))" and "dpcs (timer s) ! i = DRun"
  shows "\<exists>s'. cpu_routine i s = Some s' \<and> live s = add_mset p (live s') \<and> ram s' = ram s \<and> swp s' = swp s
    \<and> used_ram (mm p) \<inter> (set (free_fp_list (ram s')) \<union> pool_ram (live s')) = {}
    \<and> used_swp (mm p) \<inter> (set (free_fp_list (swp s')) \<union> pool_swp (live s')) = {}"
proof -
  define c where "c = cpus s ! i"
  let ?s' = "say [Finished i (pid p)] (set_cpu i (c\<lparr>cproc := None, time_left := 0, cpc := CGet\<rparr>) s)"
  have step: "cpu_routine i s = Some ?s'" using assms by (simp add: cpu_routine_def list_get_def c_def)
  have l: "live s = add_mset p (live ?s')"
    using on_cpus_update [OF assms(2), of "c\<lparr>cproc := None, time_left := 0, cpc := CGet\<rparr>"] assms(4) by (simp add: live_def)
  have "mm_ok (pool_ram (live ?s')) (pool_swp (live ?s')) (ctx_of p (ram s) (swp s))"
    using assms(1) l by (simp add: core_ok_def shape_ok_def pool_ok_def procs_ok_def)
  then have vm: "vm_ok (pool_ram (live ?s')) (pool_swp (live ?s')) (ctx_of p (ram s) (swp s))" by (simp add: mm_ok_def)
  have "used_ram (mm p) \<inter> (set (free_fp_list (ram s)) \<union> pool_ram (live ?s')) = {}"
    "used_swp (mm p) \<inter> (set (free_fp_list (swp s)) \<union> pool_swp (live ?s')) = {}"
    using vm_ok_ram_used(2) [OF vm] vm_ok_swp_used(2) [OF vm]
    unfolding used_ram_eq [symmetric] used_swp_eq [symmetric] by (simp_all add: ctx_of_def)
  with step l show ?thesis by (intro exI [of _ ?s']) simp
qed

text \<open>A process that holds two frames of RAM and one of swap, at its end.\<close>

definition leaving_p :: pcb_t where
  "leaving_p = pcb0\<lparr>mm := proc_mm\<rparr>"

definition leaving_s :: os_t where
  "leaving_s = demo_s0\<lparr>cpus := [\<lparr>cpc = CTop, time_left = 0, cproc = Some leaving_p\<rparr>], ram := sample_ram, swp := sample_swp\<rparr>"

lemma leaving_pool: "pool_ok {#leaving_p#} sample_ram sample_swp" "used_ram (mm leaving_p) = {0, 1}"
proof -
  have c: "ctx_of leaving_p sample_ram sample_swp = proc_ctx" by (simp add: ctx_of_def leaving_p_def proc_ctx_def)
  have ok: "vm_ok {} {} proc_ctx" using proc_ok(1) by (simp add: mm_ok_def)
  have dev: "vram proc_ctx = sample_ram" "vswp proc_ctx = sample_swp" by (simp_all add: proc_ctx_def)
  have "devs_ok sample_ram sample_swp"
    using vm_ok_ram [OF ok] vm_ok_swp [OF ok] vm_ok_ram_frames [OF ok] vm_ok_swp_frames [OF ok]
    by (simp add: devs_ok_def dev) (simp add: sample_ram_def)
  then show "pool_ok {#leaving_p#} sample_ram sample_swp"
    using proc_ok(1) c by (simp add: pool_ok_def procs_ok_def pool_ram_def pool_swp_def)
  have "used_ram (mm leaving_p) = used_ram (vmm sample_ctx)"
    by (simp add: used_ram_def leaving_p_def proc_mm_def sample_ctx_def)
  then show "used_ram (mm leaving_p) = {0, 1}" by (simp add: used_ram_eq sample_sets)
qed

theorem finished_process_leaks_witness:
  "\<exists>s'. cpu_routine 0 leaving_s = Some s' \<and> live s' = {#} \<and> used_ram (mm leaving_p) = {0, 1}
     \<and> frames (ram s') = {0, 1} \<and> 0 \<notin> set (free_fp_list (ram s')) \<union> pool_ram (live s')"
proof -
  have inv: "core_ok demo_s0" using booted_inv [OF demo_booted] by (simp add: os_inv_def os_shape_def core_ok_def)
  have l0: "mlq_ready (sched demo_s0) = {#}"
    using mlq0_init by (simp add: demo_fields mlq_ready_def a_ready_empty_iff)
  have l: "live leaving_s = {#leaving_p#}" using l0 by (simp add: live_def leaving_s_def on_cpus_def)
  have pc: "pc leaving_p = 0" "code_size (code leaving_p) = 0" by (simp_all add: leaving_p_def pcb0_def)
  have "proc_ok leaving_p" using legal_pcb0 pc by (simp add: proc_ok_def legal_prio_def leaving_p_def)
  then have "core_ok leaving_s" using inv l leaving_pool(1)
    by (simp add: core_ok_def shape_ok_def leaving_s_def cpu_ok_def demo_fields demo_cfg_def)
  from finished_process_leaks [OF this, of 0 leaving_p] pc obtain s' where s': "cpu_routine 0 leaving_s = Some s'"
    "live leaving_s = add_mset leaving_p (live s')" "ram s' = ram leaving_s"
    "used_ram (mm leaving_p) \<inter> (set (free_fp_list (ram s')) \<union> pool_ram (live s')) = {}"
    by (auto simp: leaving_s_def demo_fields boot_timer_state)
  moreover have "frames (ram leaving_s) = {0, 1}" using sample_sets(4) by (simp add: leaving_s_def sample_ctx_def)
  ultimately show ?thesis using l leaving_pool(2) by (intro exI [of _ s']) auto
qed

end
