(* ===== verification/Os_Log.thy ===== *)
theory Os_Log
  imports Simulator
begin

text \<open>
  The output of the simulator as an abstract schedule. What the threads print (\<open>Loaded\<close>,
  \<open>Dispatched\<close>, \<open>Put_back\<close>, \<open>Finished\<close>, \<open>Stopped\<close>) is read by a small automaton that knows
  the life of a process and what a processor may say; every run of \<open>src/os.c\<close> is accepted.
\<close>

section \<open>The automaton\<close>

datatype pstat = Absent | Ready | Running nat | Gone

record schedule =
  stat :: "u32 \<Rightarrow> pstat"
  holds :: "nat \<Rightarrow> u32 option"
  up :: "nat \<Rightarrow> bool"

definition schedule0 :: schedule where
  "schedule0 = \<lparr>stat = (\<lambda>_. Absent), holds = (\<lambda>_. None), up = (\<lambda>_. True)\<rparr>"

text \<open>
  A process is loaded once, dispatched by a processor that is up and has none, put back or
  finished by the processor that runs it, and not heard of again after it has finished.
\<close>

fun sched_line :: "os_line \<Rightarrow> schedule \<Rightarrow> schedule option" where
  "sched_line (Loaded path k pr) w =
     (if stat w k = Absent then Some (w\<lparr>stat := (stat w)(k := Ready)\<rparr>) else None)"
| "sched_line (Dispatched i k) w =
     (if stat w k = Ready \<and> holds w i = None \<and> up w i
      then Some (w\<lparr>stat := (stat w)(k := Running i), holds := (holds w)(i := Some k)\<rparr>) else None)"
| "sched_line (Put_back i k) w =
     (if stat w k = Running i \<and> holds w i = Some k
      then Some (w\<lparr>stat := (stat w)(k := Ready), holds := (holds w)(i := None)\<rparr>) else None)"
| "sched_line (Finished i k) w =
     (if stat w k = Running i \<and> holds w i = Some k
      then Some (w\<lparr>stat := (stat w)(k := Gone), holds := (holds w)(i := None)\<rparr>) else None)"
| "sched_line (Stopped i) w =
     (if holds w i = None \<and> up w i then Some (w\<lparr>up := (up w)(i := False)\<rparr>) else None)"
| "sched_line Ld_routine w = Some w"
| "sched_line (Console l) w = Some w"
| "sched_line (Load_failed e) w = Some w"

fun replay :: "os_line list \<Rightarrow> schedule \<Rightarrow> schedule option" where
  "replay [] w = Some w"
| "replay (l # ls) w = do { w' \<leftarrow> sched_line l w; replay ls w' }"

lemma replay_append: "replay (xs @ ys) w = do { w' \<leftarrow> replay xs w; replay ys w' }"
  by (induction xs w rule: replay.induct) (auto split: Option.bind_splits)

lemma replay_snoc: "replay xs w = Some w' \<Longrightarrow> replay (xs @ ls) w = replay ls w'"
  by (simp add: replay_append)

lemma replay_console [simp]: "replay (map Console ls) w = Some w"
  by (induction ls) simp_all

section \<open>The simulation\<close>

text \<open>What the automaton knows of a processor: a process just taken from the queue is not yet dispatched.\<close>

definition cpu_sim :: "schedule \<Rightarrow> nat \<Rightarrow> cpu_t \<Rightarrow> bool" where
  "cpu_sim w i c \<longleftrightarrow>
     (case cproc c of
        None \<Rightarrow> holds w i = None
      | Some p \<Rightarrow>
          if cpc c = CCheck \<and> time_left c = 0 then stat w (pid p) = Ready \<and> holds w i = None
          else stat w (pid p) = Running i \<and> holds w i = Some (pid p))
     \<and> (up w i \<longleftrightarrow> cpc c \<notin> {CStop, CDone})"

definition log_sim :: "schedule \<Rightarrow> os_t \<Rightarrow> bool" where
  "log_sim w s \<longleftrightarrow> (\<forall>i<length (cpus s). cpu_sim w i (cpus s ! i))
     \<and> (\<forall>p\<in>#mlq_ready (sched s). stat w (pid p) = Ready)
     \<and> (\<forall>k. avail_pid s \<le> k \<longrightarrow> stat w k = Absent)
     \<and> (\<forall>p. ld_proc s = Some p \<longrightarrow> stat w (pid p) = Absent)"

text \<open>A process on processor \<open>i\<close> has a number that no other live process has.\<close>

lemma own_pid:
  assumes "ld_ok s" "i < length (cpus s)" "cproc (cpus s ! i) = Some p"
  shows "\<lbrakk>j < length (cpus s); j \<noteq> i; cproc (cpus s ! j) = Some q\<rbrakk> \<Longrightarrow> pid q \<noteq> pid p"
    and "q \<in># mlq_ready (sched s) \<Longrightarrow> pid q \<noteq> pid p"
    and "ld_proc s = Some q \<Longrightarrow> pid q \<noteq> pid p"
    and "pid p < avail_pid s"
proof -
  let ?cs = "(cpus s)[i := (cpus s ! i)\<lparr>cproc := None\<rparr>]"
  define M where "M = on_cpus ?cs + mlq_ready (sched s) + opt_mset (ld_proc s)"
  have "on_cpus ?cs + {#p#} = on_cpus (cpus s)"
    using on_cpus_update [OF assms(2), of "(cpus s ! i)\<lparr>cproc := None\<rparr>"] assms(3) by simp
  then have "live s + opt_mset (ld_proc s) = add_mset p M" by (simp add: live_def M_def flip: union_mset_add_mset_right)
  then have all: "pids s = add_mset (pid p) (image_mset pid M)" by (simp add: pids_def)
  then show "pid p < avail_pid s" using assms(1) by (simp add: ld_ok_def)
  have "count (pids s) (pid p) \<le> 1" using assms(1) by (simp add: ld_ok_def)
  then have "count (image_mset pid M) (pid p) = 0" using all by simp
  then have "pid p \<notin># image_mset pid M" by (simp only: not_in_iff)
  then have apart: "pid q \<noteq> pid p" if "q \<in># M" for q using that by (metis image_eqI set_image_mset)
  show "pid q \<noteq> pid p" if "j < length (cpus s)" "j \<noteq> i" "cproc (cpus s ! j) = Some q"
  proof -
    have "?cs ! j \<in> set ?cs" using that(1) by (intro nth_mem) simp
    then have "q \<in># on_cpus ?cs" using that by (intro on_cpus_member [of "?cs ! j"]) simp_all
    then show ?thesis by (intro apart) (simp add: M_def)
  qed
  show "pid q \<noteq> pid p" if "q \<in># mlq_ready (sched s)" using that by (intro apart) (simp add: M_def)
  show "pid q \<noteq> pid p" if "ld_proc s = Some q" using that by (intro apart) (simp add: M_def)
qed

text \<open>A line about the process of processor \<open>i\<close> leaves the knowledge of everything else alone.\<close>

lemma log_sim_cpu:
  assumes sim: "log_sim w s" and ld: "ld_ok s" and i: "i < length (cpus s)" and p: "cproc (cpus s ! i) = Some p"
    and w': "w' = w\<lparr>stat := (stat w)(pid p := x), holds := (holds w)(i := h)\<rparr>"
    and s': "cpus s' = (cpus s)[i := c']" "ld_proc s' = ld_proc s" "avail_pid s' = avail_pid s"
    and c': "cpu_sim w' i c'" and ready: "\<forall>q\<in>#mlq_ready (sched s'). q \<in># mlq_ready (sched s) \<or> q = p \<and> x = Ready"
  shows "log_sim w' s'"
proof -
  note own = own_pid [OF ld i p]
  have "cpu_sim w' j (cpus s' ! j)" if "j < length (cpus s')" for j
  proof (cases "j = i")
    case False
    then have j: "cpus s' ! j = cpus s ! j" "j < length (cpus s)" using that s'(1) by simp_all
    then have "cpu_sim w j (cpus s ! j)" using sim by (simp add: log_sim_def)
    moreover have "pid q \<noteq> pid p" if "cproc (cpus s ! j) = Some q" for q by (rule own(1) [OF j(2) False that])
    ultimately show ?thesis using j(1) False by (auto simp: cpu_sim_def w' split: option.splits)
  qed (use c' s'(1) i in simp)
  moreover have "stat w' (pid q) = Ready" if "q \<in># mlq_ready (sched s')" for q
    using ready that sim own(2) by (auto simp: log_sim_def w')
  moreover have "stat w' k = Absent" if "avail_pid s' \<le> k" for k
    using that sim own(4) s'(3) by (auto simp: log_sim_def w')
  moreover have "stat w' (pid q) = Absent" if "ld_proc s' = Some q" for q
    using that sim own(3) s'(2) by (auto simp: log_sim_def w')
  ultimately show ?thesis by (simp add: log_sim_def)
qed

text \<open>A step without a line about a process.\<close>

lemma log_sim_quiet:
  assumes sim: "log_sim w s" and i: "i < length (cpus s)"
    and s': "cpus s' = (cpus s)[i := c']" "ld_proc s' = ld_proc s" "avail_pid s' = avail_pid s"
    and c': "cpu_sim w i c'" and ready: "\<forall>q\<in>#mlq_ready (sched s'). q \<in># mlq_ready (sched s)"
  shows "log_sim w s'"
  using assms by (auto simp: log_sim_def nth_list_update)

section \<open>The threads simulate the automaton\<close>

definition log_step :: "schedule \<Rightarrow> os_t \<Rightarrow> os_t \<Rightarrow> bool" where
  "log_step w s s' \<longleftrightarrow> (\<exists>ls w'. out s' = out s @ ls \<and> replay ls w = Some w' \<and> log_sim w' s')"

lemma log_stepI: "out s' = out s @ ls \<Longrightarrow> replay ls w = Some w' \<Longrightarrow> log_sim w' s' \<Longrightarrow> log_step w s s'"
  by (auto simp: log_step_def)

lemma say_out [simp]: "out (say ls s) = out s @ ls" "out (set_cpu i c s) = out s"
  by (simp_all add: say_def set_cpu_def)

lemma cpu_log:
  assumes inv: "os_shape env tr s" and step: "cpu_routine i s = Some s'" and sim: "log_sim w s"
  shows "log_step w s s'"
proof -
  have core: "shape_ok s" and ld: "ld_ok s" using inv by (simp_all add: os_shape_def)
  define c where "c = cpus s ! i"
  then have c: "cpus s ! i = c" by simp
  note i = cpu_routineD(1) [OF step]
  have cin: "c \<in> set (cpus s)" using i c by auto
  then have cok: "cpu_ok (time_slot (cfg s)) c" and q: "mlq_ok (sched s)" and ts: "0 < time_slot (cfg s)"
    using core by (simp_all add: shape_ok_def)
  have cs: "cpu_sim w i c" using sim i c by (auto simp: log_sim_def)
  have ready: "stat w (pid p) = Ready" if "p \<in># mlq_ready (sched s)" for p using sim that by (simp add: log_sim_def)
  note own = log_sim_cpu [OF sim ld i, unfolded c, of _ _ _ _ s']
  have quiet: ?thesis if "out s' = out s @ map Console ls" "cpus s' = (cpus s)[i := cpus s' ! i]" "ld_proc s' = ld_proc s" "avail_pid s' = avail_pid s"
      "cpu_sim w i (cpus s' ! i)" "\<forall>q\<in>#mlq_ready (sched s'). q \<in># mlq_ready (sched s)" for ls
    using log_stepI [OF that(1) replay_console log_sim_quiet [OF sim i that(2-6)]] .
  show ?thesis
    using step c
  proof (cases rule: cpu_cases)
    case (fetch p q')
    note g = get_live [OF q fetch(3)]
    have "p = Some x \<Longrightarrow> stat w (pid x) = Ready" for x using ready g(2) by simp
    then show ?thesis using fetch g(2) cs cok
      by (intro quiet [of "[]"]) (auto simp: i cpu_sim_def cpu_ok_def split: option.splits)
  next
    case (finish p)
    have run: "stat w (pid p) = Running i" "holds w i = Some (pid p)" "up w i" using cs finish by (simp_all add: cpu_sim_def)
    show ?thesis
    proof (rule log_stepI)
      show "out s' = out s @ [Finished i (pid p)]" by (simp add: finish)
      show "log_sim (w\<lparr>stat := (stat w)(pid p := Gone), holds := (holds w)(i := None)\<rparr>) s'"
        using run(3) by (intro own [OF finish(2) refl, where c' = "cpus s' ! i"]) (simp_all add: i finish(4) cpu_sim_def)
    qed (simp add: run)
  next
    case (put p q')
    have run: "stat w (pid p) = Running i" "holds w i = Some (pid p)" "up w i" using cs put by (simp_all add: cpu_sim_def)
    have "legal_prio p" using core on_cpus_member [OF cin put(2)] by (simp add: shape_ok_def live_def proc_ok_def)
    note r = put_live(2) [OF q this put(4)]
    show ?thesis
    proof (rule log_stepI)
      show "out s' = out s @ [Put_back i (pid p)]" by (simp add: put)
      show "log_sim (w\<lparr>stat := (stat w)(pid p := Ready), holds := (holds w)(i := None)\<rparr>) s'"
        using run(3) r by (intro own [OF put(2) refl, where c' = "cpus s' ! i"]) (simp_all add: i put(5) cpu_sim_def)
    qed (simp add: run)
  next
    case (get p q')
    note g = get_live [OF q get(2)]
    have "p = Some x \<Longrightarrow> stat w (pid x) = Ready" for x using ready g(2) by simp
    moreover have "cproc c = None" "time_left c = 0" using cok get by (simp_all add: cpu_ok_def)
    ultimately show ?thesis using get g(2) cs
      by (intro quiet [of "[]"]) (auto simp: i cpu_sim_def split: option.splits)
  next
    case stop
    have w: "holds w i = None" "up w i" using cs stop by (simp_all add: cpu_sim_def)
    show ?thesis
    proof (rule log_stepI)
      show "out s' = out s @ [Stopped i]" by (simp add: stop)
      show "log_sim (w\<lparr>up := (up w)(i := False)\<rparr>) s'"
        using sim w(1) stop i unfolding log_sim_def cpu_sim_def by (auto simp: nth_list_update split: option.splits if_splits)
    qed (simp add: w)
  next
    case (dispatch p)
    have w: "stat w (pid p) = Ready" "holds w i = None" "up w i" using cs dispatch by (simp_all add: cpu_sim_def)
    show ?thesis
    proof (rule log_stepI)
      show "out s' = out s @ [Dispatched i (pid p)]" by (simp add: dispatch)
      show "log_sim (w\<lparr>stat := (stat w)(pid p := Running i), holds := (holds w)(i := Some (pid p))\<rparr>) s'"
        using w(3) by (intro own [OF dispatch(2) refl, where c' = "cpus s' ! i"]) (simp_all add: i dispatch(2,4) cpu_sim_def)
    qed (simp add: w)
  next
    case (exec p r ls p' m w')
    have "pid p' = pid p" using run_pcb [OF exec(3)] by simp
    then show ?thesis using exec cs by (intro quiet [of ls]) (simp_all add: i cpu_sim_def)
  qed (rule quiet [of "[]"]; use cs in \<open>auto simp: i cpu_sim_def split: option.splits\<close>)+
qed

lemma log_sim_cong:
  "\<lbrakk>log_sim w s; cpus s' = cpus s; sched s' = sched s; avail_pid s' = avail_pid s; ld_proc s' = ld_proc s\<rbrakk> \<Longrightarrow> log_sim w s'"
  by (simp add: log_sim_def)

lemma log_same:
  "\<lbrakk>log_sim w s; cpus s' = cpus s; sched s' = sched s; avail_pid s' = avail_pid s; ld_proc s' = ld_proc s; out s' = out s\<rbrakk> \<Longrightarrow> log_step w s s'"
  using log_sim_cong [of w s s'] by (intro log_stepI [of _ _ "[]"]) simp_all

lemma ld_log:
  assumes inv: "os_shape env tr s" and step: "ld_routine env s = Some s'" and sim: "log_sim w s"
  shows "log_step w s s'"
proof -
  have core: "shape_ok s" and ld: "ld_ok s" and cf: "config_ok env (cfg s)" using inv by (simp_all add: os_shape_def)
  from ld cf step show ?thesis
  proof (cases rule: ld_cases)
    case (load p)
    have "avail_pid s < avail_pid s + 1" by (rule ld_ok_load(2) [OF ld cf load(1-3)])
    then have "avail_pid s \<le> k" if "avail_pid s + 1 \<le> k" for k using that by simp
    then have "log_sim w s'" using sim load_fields [OF load(3)] by (simp add: log_sim_def load(4))
    then show ?thesis by (intro log_stepI [of _ _ "if ld_i s = 0 then [Ld_routine] else []"]) (simp_all add: load(4))
  next
    case all
    have "log_sim w s'" using sim by (simp add: log_sim_def all)
    then show ?thesis by (intro log_stepI [of _ _ "if ld_i s = 0 then [Ld_routine] else []"]) (simp_all add: all)
  next
    case (add p p' q)
    have prio: "unat (prio p) < MAX_PRIO" using ld add(4) by (simp add: ld_ok_def)
    let ?l = "Loaded (ld_path (cfg s) ! ld_i s) (pid p) (ld_prio (cfg s) ! ld_i s)" and ?w = "w\<lparr>stat := (stat w)(pid p := Ready)\<rparr>"
    have ok: "mlq_ok (sched s)" "legal_prio p'" using core prio by (simp_all add: shape_ok_def legal_prio_def add(5))
    have "put_proc (sched s) p' = Some q" using add(6) by (simp add: add_proc_def put_proc_def add_mlq_proc_eq)
    note r = put_live(2) [OF ok this]
    have absent: "stat w (pid p) = Absent" using sim add(4) by (simp add: log_sim_def)
    have "pid p \<in># pids s" using add(4) by (simp add: pids_def)
    then have "pid p < avail_pid s" using ld by (simp add: ld_ok_def)
    moreover have "pid x \<noteq> pid p" if "j < length (cpus s)" "cproc (cpus s ! j) = Some x" for j x
      using own_pid(3) [OF ld that add(4)] by simp
    ultimately have "log_sim ?w s'" using sim r unfolding log_sim_def cpu_sim_def
      by (auto simp: add(5,7) split: option.splits if_splits)
    then show ?thesis using absent by (intro log_stepI [of _ _ "[?l]"]) (simp_all add: add(7))
  qed (rule log_same [OF sim]; simp)+
qed

lemma os_log:
  assumes inv: "os_shape env tr s" and step: "os_step env a s = Some s'" and sim: "log_sim w s"
  shows "log_step w s s'"
proof (cases "timer_act a")
  case (Some ta)
  then obtain t where "s' = s\<lparr>timer := t\<rparr>" using step by (auto simp: os_step_def bind_Some_iff split: if_splits)
  then show ?thesis by (intro log_same [OF sim]) simp_all
next
  case None
  show ?thesis
  proof (cases a)
    case (Cpu i)
    then have "cpu_routine i s = Some s'" using step by (simp add: os_step_def split: if_splits)
    with cpu_log [OF inv _ sim] show ?thesis by blast
  next
    case Ld
    then have "ld_routine env s = Some s'" using step by (simp add: os_step_def split: if_splits)
    with ld_log [OF inv _ sim] show ?thesis by blast
  next
    case Join
    then have "s' = s\<lparr>timer := stop_timer (timer s)\<rparr>" using step by (auto simp: os_step_def main_join_def bind_Some_iff split: if_splits)
    then show ?thesis by (intro log_same [OF sim]) simp_all
  next
    case Return
    then obtain t where "s' = s\<lparr>timer := t, exited := Some 0\<rparr>" using step by (auto simp: os_step_def main_return_def bind_Some_iff split: if_splits)
    then show ?thesis by (intro log_same [OF sim]) simp_all
  qed (use None in simp_all)
qed

lemma boot_log: "booted env s0 \<Longrightarrow> log_sim schedule0 s0 \<and> out s0 = []"
proof -
  assume b: "booted env s0"
  then have "core_ok s0" using booted_inv by (auto simp: os_inv_def os_shape_def core_ok_def)
  from b obtain c mp node q where "boot c mp node q = Some s0"
    and q: "\<forall>i<MAX_PRIO. length (proc (queues q ! i)) = MAX_QUEUE_SIZE" by (auto simp: booted_def)
  then obtain mram mswp0 where s0: "s0 = \<lparr>cfg = c, timer = boot_timer (nat (num_cpus c) + 1),
            cpus = replicate (nat (num_cpus c)) \<lparr>cpc = CTop, time_left = 0, cproc = None\<rparr>,
            sched = init_scheduler q, ram = mram, swp = mswp0, ld_i = 0, ldpc = LTop, ld_proc = None,
            avail_pid = 1, os_done = 0, exited = None, out = []\<rparr>"
    by (auto simp: boot_def bind_Some_iff)
  have "mlq_ready (init_scheduler q) = {#}" using init_scheduler_ok [OF q] by (simp add: mlq_ready_def a_ready_empty_iff)
  then show ?thesis by (simp add: s0 log_sim_def schedule0_def cpu_sim_def)
qed

section \<open>The property\<close>

text \<open>
  What the simulator prints is a schedule. In every run each process is loaded once,
  dispatched only when it waits, by a processor that has no other, put back or finished only
  by the processor that runs it, and never dispatched after it has finished; no processor
  takes a process after it has stopped.
\<close>

theorem output_is_schedule:
  assumes "booted env s0" and "os_reach env s0 s"
  shows "\<exists>w. replay (out s) schedule0 = Some w \<and> (exited s = None \<longrightarrow> (\<forall>i<length (cpus s). cpu_sim w i (cpus s ! i)))"
proof -
  have "\<exists>w. replay (out s) schedule0 = Some w \<and> log_sim w s" using assms(2)
  proof (induction rule: os_reach.induct)
    case start
    then show ?case using boot_log [OF assms(1)] by (intro exI [of _ schedule0]) simp
  next
    case (move s a s')
    then obtain w where w: "replay (out s) schedule0 = Some w" "log_sim w s" by blast
    have "exited s = None" using move.hyps(3) by (auto simp: os_step_def split: if_splits)
    then obtain tr where "os_inv env tr s" using reach_inv [OF move.hyps(1) assms(1)] by blast
    from os_log [OF os_invD(1) [OF this] move.hyps(3) w(2)] show ?case
      by (auto simp: log_step_def replay_snoc [OF w(1)])
  qed
  then show ?thesis by (auto simp: log_sim_def)
qed

theorem output_is_schedule_witness:
  "\<exists>s w. os_reach demo_env demo_s0 s \<and> out s = [Ld_routine, Loaded ''input/proc/c'' 1 0] \<and> replay (out s) schedule0 = Some w \<and> stat w 1 = Ready"
proof -
  obtain s2 where s: "os_reach demo_env demo_s0 s2" "out s2 = [Ld_routine, Loaded ''input/proc/c'' 1 0]" by (rule demo_added)
  from output_is_schedule [OF demo_booted s(1)] obtain w where "replay (out s2) schedule0 = Some w" by blast
  with s show ?thesis by (auto simp: schedule0_def)
qed

section \<open>The shape of the data\<close>

text \<open>A page table entry is empty, names a frame of RAM, or names a frame of swap.\<close>

definition entry_ok :: "memphy_struct \<Rightarrow> memphy_struct \<Rightarrow> u32 \<Rightarrow> bool" where
  "entry_ok mram mswp e \<longleftrightarrow> e = 0 \<or> (if PAGING_PAGE_PRESENT e then uint (PAGING_FPN e) \<in> frames mram
     else uint (PAGING_SWAPFPN e) \<in> frames mswp)"

definition pcb_ok :: "memphy_struct \<Rightarrow> memphy_struct \<Rightarrow> pcb_t \<Rightarrow> bool" where
  "pcb_ok mram mswp p \<longleftrightarrow> (\<forall>n<nat PAGING_MAX_PGN. entry_ok mram mswp (pgd (mm p) n))
     \<and> int (length (symrgtbl (mm p))) = PAGING_MAX_SYMTBL_SZ \<and> length (mmap (mm p)) = 1
     \<and> current_max_pgn (mm p) < PAGING_MAX_PGN
     \<and> (\<forall>n\<in>set (fifo_using_pgn (mm p)). 0 \<le> n \<and> n \<le> current_max_pgn (mm p) \<and> PAGING_PAGE_PRESENT (pgd (mm p) (nat n)))
     \<and> num_of_fifo_using_pgn (mm p) = int (length (fifo_using_pgn (mm p)))
     \<and> unat (prio p) < MAX_PRIO \<and> pc p \<le> code_size (code p)"

lemma vm_entry:
  assumes vm: "vm_ok R S (ctx_of p mr ms)" and n: "n < nat PAGING_MAX_PGN"
  shows "entry_ok mr ms (pgd (mm p) n)"
proof -
  let ?c = "ctx_of p mr ms"
  have f: "vmm ?c = mm p" "vram ?c = mr" "vswp ?c = ms" by (simp_all add: ctx_of_def)
  have e: "pte_at ?c (int n) = pgd (mm p) n" by (simp add: pte_at_def f)
  have "int n \<notin> mapped ?c \<Longrightarrow> pgd (mm p) n = 0" using vm_ok_pte [OF vm, of "int n"] n e by (simp add: PAGING_MAX_PGN_def)
  moreover have "int n \<in> resident ?c \<Longrightarrow> uint (PAGING_FPN (pgd (mm p) n)) \<in> frames mr"
    using vm_ok_ram_used(1) [OF vm] by (force simp: ram_frame_def e f)
  moreover have "int n \<in> swapped ?c \<Longrightarrow> uint (PAGING_SWAPFPN (pgd (mm p) n)) \<in> frames ms"
    using vm_ok_swp_used(1) [OF vm] by (force simp: swp_frame_def e f)
  ultimately show ?thesis by (auto simp: entry_ok_def resident_def swapped_def e)
qed

lemma vm_ok_shape:
  assumes vm: "vm_ok R S (ctx_of p mram mswp)" and "proc_ok p"
    and len: "length (mmap (mm p)) = 1" "int (length (symrgtbl (mm p))) = PAGING_MAX_SYMTBL_SZ"
  shows "pcb_ok mram mswp p"
proof -
  let ?c = "ctx_of p mram mswp"
  have f: "vmm ?c = mm p" "vram ?c = mram" "vswp ?c = mswp" by (simp_all add: ctx_of_def)
  have "entry_ok mram mswp (pgd (mm p) n)" if "n < nat PAGING_MAX_PGN" for n by (rule vm_entry [OF vm that])
  moreover have "0 \<le> n \<and> n \<le> current_max_pgn (mm p) \<and> PAGING_PAGE_PRESENT (pgd (mm p) (nat n))"
    if "n \<in> set (fifo_using_pgn (mm p))" for n
    using vm_ok_fifo(2) [OF vm] that by (auto simp: resident_def mapped_def pte_at_def f)
  ultimately show ?thesis using vm_ok_max(2) [OF vm] vm_ok_fifo(3) [OF vm] assms(2) len
    by (simp add: pcb_ok_def f proc_ok_def legal_prio_def)
qed

lemma mm_ok_shape: "mm_ok R S (ctx_of p mram mswp) \<Longrightarrow> proc_ok p \<Longrightarrow> pcb_ok mram mswp p"
  by (rule vm_ok_shape) (auto simp: mm_ok_def regions_ok_def ctx_of_def)

text \<open>
  Data keep their C types. In every reachable state every page table entry of every
  process is empty or names an existing frame, page directory, symbol table and page list
  stay within their arrays, priorities are queue numbers, no program counter has passed the
  end of its code, and no queue holds more than its ten slots.
\<close>

theorem os_well_typed:
  assumes "booted env s0" and "os_reach env s0 s" and "exited s = None"
  shows "(\<forall>p\<in>#live s. pcb_ok (ram s) (swp s) p)
    \<and> length (queues (sched s)) = MAX_PRIO
    \<and> (\<forall>q\<in>set (queues (sched s)). length (proc q) = MAX_QUEUE_SIZE \<and> 0 \<le> qsize q \<and> qsize q \<le> int MAX_QUEUE_SIZE)"
proof -
  obtain tr where inv: "os_inv env tr s" by (rule reach_inv [OF assms(2,1,3)])
  then have pool: "procs_ok (live s) (ram s) (swp s)" and pr: "\<forall>p\<in>#live s. proc_ok p" and q: "mlq_ok (sched s)"
    by (simp_all add: os_inv_def os_shape_def shape_ok_def pool_ok_def)
  have "pcb_ok (ram s) (swp s) p" if "p \<in># live s" for p
    using pool pr that by (intro mm_ok_shape) (auto simp: procs_ok_def)
  moreover have "length (proc x) = MAX_QUEUE_SIZE \<and> 0 \<le> qsize x \<and> qsize x \<le> int MAX_QUEUE_SIZE" if "x \<in> set (queues (sched s))" for x
    using that mlq_ok_queue [OF q] mlq_ok_length [OF q] by (auto simp: in_set_conv_nth queue_ok_def)
  ultimately show ?thesis using mlq_ok_length [OF q] by blast
qed

theorem os_well_typed_witness:
  "\<exists>s p. os_reach demo_env demo_s0 s \<and> live s = {#p#} \<and> pcb_ok (ram s) (swp s) p"
proof -
  obtain s1 s2 p where s: "os_reach demo_env demo_s0 s2" "exited s2 = None" "live s2 = {#p#}" by (rule demo_added)
  from os_well_typed [OF demo_booted s(1,2)] s show ?thesis by auto
qed

end
