(* ===== verification/Os_Exit.thy ===== *)
theory Os_Exit
  imports Simulator
begin

text \<open>
  The end of the simulator: once every processor and the loader have left, the timer thread
  and \<open>main\<close> of \<open>src/os.c\<close> bring the program to its exit, whatever the order of their steps.
\<close>

section \<open>The timer without devices\<close>

text \<open>The steps the timer thread has left when every device is gone: the rest of a slot, and one more if it has not seen that.\<close>

definition ticks_left :: "timer_t \<Rightarrow> nat" where
  "ticks_left t =
     (let n = length (dev_list t) in
      case tpc t of
        TTop \<Rightarrow> 2 * n + 3
      | TScan ds f e \<Rightarrow> length ds + n + 2 + (if f = e then 0 else 2 * n + 3)
      | TSignal ds f e \<Rightarrow> length ds + 1 + (if f = e then 0 else 2 * n + 3)
      | _ \<Rightarrow> 0)"

definition all_gone :: "timer_t \<Rightarrow> bool" where
  "all_gone t \<longleftrightarrow> (\<forall>d\<in>set (dev_list t). d < length (ids t) \<and> fsh (ids t ! d) = 1)
     \<and> (\<forall>ds f e. tpc t = TScan ds f e \<or> tpc t = TSignal ds f e \<longrightarrow> (\<exists>pre. dev_list t = pre @ ds))
     \<and> (\<forall>ds f e. tpc t \<noteq> TSleep ds f e)"

lemma tick_left:
  assumes "all_gone t" and "timer_routine t = Some t'"
  shows "ticks_left t' < ticks_left t"
proof (cases "tpc t")
  case (TScan ds f e)
  then obtain pre where "dev_list t = pre @ ds" using assms(1) by (auto simp: all_gone_def)
  then have "\<forall>d\<in>set ds. d < length (ids t) \<and> fsh (ids t ! d) = 1" using assms(1) by (auto simp: all_gone_def)
  with assms(2) TScan show ?thesis
    by (cases ds) (auto simp: timer_routine_def ticks_left_def list_get_def Let_def)
next
  case (TSignal ds f e)
  with assms(2) show ?thesis
    by (cases ds) (auto simp: timer_routine_def ticks_left_def bind_Some_iff Let_def)
qed (use assms(2) in \<open>auto simp: timer_routine_def ticks_left_def Let_def\<close>)

lemma ticks_bound:
  assumes "all_gone t"
  shows "ticks_left t \<le> 4 * length (dev_list t) + 5"
proof (cases "tpc t")
  case (TScan ds f e)
  then obtain pre where "dev_list t = pre @ ds" using assms by (auto simp: all_gone_def)
  then have "length ds \<le> length (dev_list t)" by simp
  with TScan show ?thesis by (simp add: ticks_left_def Let_def)
next
  case (TSignal ds f e)
  then obtain pre where "dev_list t = pre @ ds" using assms by (auto simp: all_gone_def)
  then have "length ds \<le> length (dev_list t)" by simp
  with TSignal show ?thesis by (simp add: ticks_left_def Let_def)
qed (simp_all add: ticks_left_def Let_def)

section \<open>The program without threads\<close>

definition all_left :: "os_t \<Rightarrow> bool" where
  "all_left s \<longleftrightarrow> (\<forall>c\<in>set (cpus s). cpc c = CDone) \<and> ldpc s = LDone"

definition steps_left :: "os_t \<Rightarrow> nat" where
  "steps_left s = ticks_left (timer s) + (if timer_stop (timer s) = 0 then 2 else if exited s = None then 1 else 0)"

lemma left_gone:
  assumes inv: "os_shape env tr s" and left: "all_left s"
  shows "all_gone (timer s)" "length (dev_list (timer s)) = Suc (length (cpus s))"
    "\<forall>d<Suc (length (cpus s)). dpcs (timer s) ! d = DExit"
proof -
  let ?t = "timer s" and ?n = "Suc (length (cpus s))"
  have tr: "trun tr (boot_timer ?n) = Some ?t" and dl: "dev_link s" using inv by (simp_all add: os_shape_def)
  obtain T where T: "timer_inv T (finished tr) ?t" using run_inv [OF tr] by blast
  have n: "length (ids ?t) = ?n" using run_devices [OF tr] .
  have L: "set (dev_list ?t) = {..<?n}" "distinct (dev_list ?t)" using T n by (simp_all add: timer_inv_def)
  then show "length (dev_list ?t) = ?n" by (metis card_lessThan distinct_card)
  show pc: "\<forall>d<?n. dpcs ?t ! d = DExit" using dl left by (auto simp: dev_link_def all_left_def less_Suc_eq)
  have gone: "fsh (ids ?t ! d) = 1" if "d < ?n" for d
    using T pc that n by (auto simp: timer_inv_def dev_inv_def)
  moreover have "tpc ?t \<noteq> TSleep ds f e" for ds f e
  proof
    assume s: "tpc ?t = TSleep ds f e"
    then have "ds \<noteq> []" "\<not> reached ?t (hd ds)" "set ds \<subseteq> set (dev_list ?t)"
      using T by (auto simp: timer_inv_def tpc_inv_def scanned_def)
    then show False using gone [of "hd ds"] L by (cases ds) (auto simp: reached_def)
  qed
  moreover have "\<exists>pre. dev_list ?t = pre @ ds" if "tpc ?t = TScan ds f e \<or> tpc ?t = TSignal ds f e" for ds f e
    using T that by (auto simp: timer_inv_def tpc_inv_def scanned_def)
  ultimately show "all_gone ?t" using L n by (auto simp: all_gone_def)
qed

lemma left_step:
  assumes inv: "os_shape env tr s" and left: "all_left s" and step: "os_step env a s = Some s'"
  shows "steps_left s' < steps_left s \<and> all_left s' \<and> (exited s' = None \<or> exited s' = Some 0) \<and> length (cpus s') = length (cpus s)"
proof -
  note g = left_gone [OF inv left]
  have run: "exited s = None" using step by (auto simp: os_step_def split: if_splits)
  have tr: "trun tr (boot_timer (Suc (length (cpus s)))) = Some (timer s)" using inv by (simp add: os_shape_def)
  have n: "length (ids (timer s)) = Suc (length (cpus s))" using run_devices [OF tr] .
  have dev: "dpcs (timer s) ! d = DExit" if "d < length (ids (timer s))" for d using g(3) that n by simp
  show ?thesis
  proof (cases a)
    case (Cpu i)
    then have "cpu_routine i s = Some s'" using step by (simp add: os_step_def split: if_splits)
    from cpu_routineD [OF this] left show ?thesis by (auto simp: all_left_def)
  next
    case Ld
    then have "ld_routine env s = Some s'" using step by (simp add: os_step_def split: if_splits)
    with left show ?thesis by (simp add: ld_routine_def all_left_def bind_Some_iff)
  next
    case Join
    then have "timer_stop (timer s) = 0" "s' = s\<lparr>timer := stop_timer (timer s)\<rparr>"
      using step by (auto simp: os_step_def main_join_def bind_Some_iff split: if_splits)
    then show ?thesis using left run by (simp add: steps_left_def ticks_left_def stop_timer_def all_left_def)
  next
    case Return
    then obtain t where "timer_stop (timer s) \<noteq> 0" "tpc (timer s) = TExit" "s' = s\<lparr>timer := (timer s)\<lparr>dev_list := []\<rparr>, exited := Some 0\<rparr>"
      using step by (auto simp: os_step_def main_return_def free_devices_def bind_Some_iff split: if_splits)
    then show ?thesis using left run by (simp add: steps_left_def ticks_left_def all_left_def)
  next
    case Clock
    then obtain t where t: "timer_routine (timer s) = Some t" "s' = s\<lparr>timer := t\<rparr>"
      using step by (auto simp: os_step_def bind_Some_iff split: if_splits)
    have "timer_stop t = timer_stop (timer s)" using timer_stop_kept(1) [of Clock Tick] t(1) by simp
    then show ?thesis using tick_left [OF g(1) t(1)] left run by (simp add: steps_left_def t(2) all_left_def)
  next
    case Wake_clock
    then show ?thesis using step g(1) by (auto simp: os_step_def bind_Some_iff all_gone_def split: if_splits timer_pc.splits)
  next
    case (Resume d)
    then show ?thesis using step dev [of d] by (auto simp: os_step_def wait_slot_def bind_Some_iff split: if_splits)
  next
    case (Rouse d)
    then show ?thesis using step dev [of d] by (auto simp: os_step_def bind_Some_iff split: if_splits)
  qed
qed

fun os_run :: "os_env \<Rightarrow> os_act list \<Rightarrow> os_t \<Rightarrow> os_t option" where
  "os_run env [] s = Some s"
| "os_run env (a # as) s = do { s' \<leftarrow> os_step env a s; os_run env as s' }"

lemma left_run:
  assumes "os_run env as s = Some s'" and "exited s = None \<longrightarrow> (\<exists>tr. os_shape env tr s)" and "all_left s"
    and "exited s = None \<or> exited s = Some 0"
  shows "length as + steps_left s' \<le> steps_left s \<and> all_left s' \<and> (exited s' = None \<or> exited s' = Some 0)
    \<and> (exited s' = None \<longrightarrow> (\<exists>tr. os_shape env tr s'))"
  using assms
proof (induction env "as" s rule: os_run.induct)
  case (2 env a "as" s)
  then obtain s1 where s1: "os_step env a s = Some s1" "os_run env as s1 = Some s'" by (auto simp: bind_Some_iff)
  then have "exited s = None" by (auto simp: os_step_def split: if_splits)
  with "2.prems" obtain tr where inv: "os_shape env tr s" by blast
  have "os_legal a s" using "2.prems"(3) by (auto simp: os_legal_def all_left_def)
  then have "exited s1 = None \<longrightarrow> (\<exists>tr. os_shape env tr s1)" using os_step_shape [OF inv _ s1(1)] by blast
  with "2.IH" [OF s1] left_step [OF inv "2.prems"(3) s1(1)] show ?case by fastforce
qed simp

lemma left_can_move:
  assumes inv: "os_shape env tr s" and left: "all_left s" and run: "exited s = None"
  shows "\<exists>a s'. os_step env a s = Some s'"
proof -
  note gone = left_gone(3) [OF inv left]
  from inv run show ?thesis by (cases rule: someone_moves) (use gone in \<open>auto simp: ld_dev_def less_SucI\<close>)
qed

text \<open>The last steps of the program: how many, and where they end.\<close>

lemma left_exits:
  assumes inv: "os_shape env tr s" and left: "all_left s" and run: "exited s = None" and "os_run env as s = Some s'"
  shows "length as \<le> 4 * length (cpus s) + 11 \<and> (exited s' = Some 0 \<or> (\<exists>a s''. os_step env a s' = Some s''))"
proof -
  have r: "length as + steps_left s' \<le> steps_left s" "all_left s'" "exited s' = None \<or> exited s' = Some 0"
    "exited s' = None \<longrightarrow> (\<exists>tr. os_shape env tr s')"
    using left_run [OF assms(4) _ left] inv run by auto
  have "steps_left s \<le> 4 * length (cpus s) + 11"
    using ticks_bound [OF left_gone(1) [OF inv left]] left_gone(2) [OF inv left] by (simp add: steps_left_def)
  then show ?thesis using r left_can_move by fastforce
qed

section \<open>A complete run\<close>

text \<open>What a state of the demonstration consists of.\<close>

definition demo_at :: "cpu_t \<Rightarrow> ld_pc \<Rightarrow> timer_t \<Rightarrow> int \<Rightarrow> pcb_t multiset \<Rightarrow> os_t \<Rightarrow> bool" where
  "demo_at c l t d M s \<longleftrightarrow> os_reach demo_env demo_s0 s \<and> exited s = None \<and> cfg s = demo_cfg \<and> ld_i s = 1 \<and> ld_proc s = None
     \<and> cpus s = [c] \<and> ldpc s = l \<and> timer s = t \<and> os_done s = d \<and> mlq_ready (sched s) = M"

lemma demo_cpu:
  assumes at: "demo_at c l t d M s" and legal: "\<forall>p. cpc c = CRun \<longrightarrow> cproc c = Some p \<longrightarrow> legal_step p"
    and step: "cpu_routine 0 s = Some s'"
  shows "demo_at (cpus s' ! 0) l (timer s') d (mlq_ready (sched s')) s'"
proof -
  note F = cpu_step_frame [OF step]
  have "os_legal (Cpu 0) s" using at legal by (simp add: os_legal_def demo_at_def)
  moreover have "os_step demo_env (Cpu 0) s = Some s'" using at step by (simp add: os_step_def demo_at_def)
  ultimately have "os_reach demo_env demo_s0 s'" using at by (auto simp: demo_at_def intro: os_reach.move)
  moreover have "length (cpus s') = 1" using F at by (simp add: demo_at_def)
  then have "cpus s' = [cpus s' ! 0]" by (cases "cpus s'") simp_all
  ultimately show ?thesis using at F by (simp add: demo_at_def)
qed

lemma demo_ld:
  assumes "demo_at c l t d M s" and "ld_routine demo_env s = Some s'"
  shows "os_reach demo_env demo_s0 s'"
  using assms os_reach.move [of demo_env demo_s0 s Ld s'] by (simp add: demo_at_def os_legal_def os_step_def)

lemma demo_timer:
  assumes "demo_at c l t d M s" and "trun (map (the \<circ> timer_act) as) t = Some t'" and "\<forall>a\<in>set as. timer_act a \<noteq> None"
  shows "demo_at c l t' d M (s\<lparr>timer := t'\<rparr>)"
  using assms
proof (induction "as" arbitrary: s t)
  case Nil
  then have "timer s = t'" by (simp add: demo_at_def)
  then have "s\<lparr>timer := t'\<rparr> = s" by auto
  with Nil show ?case by simp
next
  case (Cons a "as")
  obtain ta where ta: "timer_act a = Some ta" using Cons.prems(3) by auto
  with Cons.prems(2) obtain t1 where a: "timer_act a = Some ta" "tstep ta t = Some t1" "trun (map (the \<circ> timer_act) as) t1 = Some t'"
    by (auto simp: bind_Some_iff comp_def)
  have "os_step demo_env a s = Some (s\<lparr>timer := t1\<rparr>)" using a Cons.prems(1) by (simp add: os_step_def demo_at_def)
  moreover have "os_legal a s" using a(1) by (auto simp: os_legal_def)
  ultimately have "os_reach demo_env demo_s0 (s\<lparr>timer := t1\<rparr>)" using Cons.prems(1) by (auto simp: demo_at_def intro: os_reach.move)
  then have "demo_at c l t1 d M (s\<lparr>timer := t1\<rparr>)" using Cons.prems(1) by (simp add: demo_at_def)
  from Cons.IH [OF this a(3)] Cons.prems(3) show ?case by simp
qed

text \<open>The timer in the run: after both devices have finished the slot, in the next slot, and after they have left.\<close>

definition demo_timer_at :: "int \<Rightarrow> int \<Rightarrow> int \<Rightarrow> int \<Rightarrow> ulong \<Rightarrow> dev_pc list \<Rightarrow> timer_t" where
  "demo_timer_at e0 f0 e1 f1 n ds = \<lparr>dev_list = [1, 0], ids = [\<lparr>ev_done = e0, fsh = f0\<rparr>, \<lparr>ev_done = e1, fsh = f1\<rparr>], time = n,
     timer_started = 1, timer_stop = 0, tpc = TTop, dpcs = ds, slot_lines = map of_nat [0..<unat n]\<rparr>"

lemma demo_slots:
  "next_slot 0 (boot_timer 2) = Some (demo_timer_at 1 0 0 0 0 [DCheck, DRun])"
  "next_slot 1 (demo_timer_at 1 0 0 0 0 [DCheck, DRun]) = Some (demo_timer_at 1 0 1 0 0 [DCheck, DCheck])"
  "trun (replicate 7 Tick @ [Wait 0, Wait 1]) (demo_timer_at 1 0 1 0 0 [DCheck, DCheck]) = Some (demo_timer_at 0 0 0 0 1 [DRun, DRun])"
  "detach_event 1 (demo_timer_at 0 0 0 0 1 [DRun, DRun]) = Some (demo_timer_at 0 0 0 1 1 [DRun, DExit])"
  "detach_event 0 (demo_timer_at 0 0 0 1 1 [DRun, DExit]) = Some (demo_timer_at 0 1 0 1 1 [DExit, DExit])"
  by code_simp+

lemma demo_timer_dpcs [simp]: "dpcs (demo_timer_at e0 f0 e1 f1 n ds) = ds" by (simp add: demo_timer_at_def)

text \<open>The processor takes the process, runs its instruction and ends the slot; so does the loader.\<close>

lemma demo_slot:
  obtains s p where "demo_at \<lparr>cpc = CTop, time_left = 1, cproc = Some p\<rparr> LTop (demo_timer_at 0 0 0 0 1 [DRun, DRun]) 0 {#} s"
    "pc p = 1" "code_size (code p) = 1"
proof -
  obtain s2 p where at2: "demo_at \<lparr>cpc = CTop, time_left = 0, cproc = None\<rparr> (LSlot False) (boot_timer 2) 0 {#p#} s2"
    and p: "pc p = 0" "code_size (code p) = 1" "legal_step p"
  proof -
    obtain s2 p where s: "os_reach demo_env demo_s0 s2" "exited s2 = None" "ld_i s2 = 1" "cpus s2 = cpus demo_s0" "timer s2 = boot_timer 2"
      "cfg s2 = demo_cfg" "ldpc s2 = LSlot False" "ld_proc s2 = None" "os_done s2 = 0"
      "mlq_ready (sched s2) = {#p#}" "pc p = 0" "code_size (code p) = 1" "legal_step p" by (rule demo_added)
    from that [of p s2] s show ?thesis by (simp add: demo_at_def demo_fields)
  qed
  have run: "dpcs (boot_timer 2) = [DRun, DRun]" by (simp add: boot_timer_state numeral_2_eq_2)
  note d = cpu_routine_def list_get_def run
  have "mlq_ok (sched s2)" using at2 reach_inv [OF _ demo_booted, of s2] by (auto simp: demo_at_def os_inv_def os_shape_def shape_ok_def)
  then obtain x q where g: "get_proc (sched s2) = Some (x, q)" using mlq.get_total by (metis get_proc_def)
  have x: "x = Some p" "mlq_ready q = {#}"
    using get_live [OF \<open>mlq_ok (sched s2)\<close> g] at2 by (cases x; auto simp: demo_at_def)+
  define s3 where "s3 = set_cpu 0 \<lparr>cpc = CCheck, time_left = 0, cproc = Some p\<rparr> (s2\<lparr>sched := q\<rparr>)"
  have "cpu_routine 0 s2 = Some s3" using at2 g by (simp add: d demo_at_def s3_def x)
  from demo_cpu [OF at2 _ this] at2 have at3: "demo_at \<lparr>cpc = CCheck, time_left = 0, cproc = Some p\<rparr> (LSlot False) (boot_timer 2) 0 {#} s3"
    by (simp add: s3_def x demo_at_def)
  define s4 where "s4 = say [Dispatched 0 (pid p)] (set_cpu 0 \<lparr>cpc = CRun, time_left = 2, cproc = Some p\<rparr> s3)"
  have "cpu_routine 0 s3 = Some s4" using at3 by (simp add: d demo_at_def s4_def demo_cfg_def)
  from demo_cpu [OF at3 _ this] at3 have at4: "demo_at \<lparr>cpc = CRun, time_left = 2, cproc = Some p\<rparr> (LSlot False) (boot_timer 2) 0 {#} s4"
    by (simp add: s4_def demo_at_def)
  obtain tr where "os_inv demo_env tr s4" using at4 reach_inv [OF _ demo_booted, of s4] by (auto simp: demo_at_def)
  moreover have "live s4 = add_mset p {#}" using at4 by (simp add: live_def on_cpus_def demo_at_def)
  ultimately have "pool_ok (add_mset p {#}) (ram s4) (swp s4)" by (simp add: os_inv_def os_shape_def shape_ok_def)
  from pool_run_total [OF this p(3)] obtain r ls p' ram' swp' where r: "run p (ram s4) (swp s4) = Some (r, ls, p', ram', swp')"
    "code p' = code p" "pc p' = (if pc p < code_size (code p) then pc p + 1 else pc p)" by metis
  define s5 where "s5 = say (map Console ls) (set_cpu 0 \<lparr>cpc = CSlot, time_left = 1, cproc = Some p'\<rparr> (s4\<lparr>ram := ram', swp := swp'\<rparr>))"
  have "cpu_routine 0 s4 = Some s5" using at4 r by (simp add: d demo_at_def s5_def chk_int_def)
  from demo_cpu [OF at4 _ this] at4 p(3) have at5: "demo_at \<lparr>cpc = CSlot, time_left = 1, cproc = Some p'\<rparr> (LSlot False) (boot_timer 2) 0 {#} s5"
    by (simp add: s5_def demo_at_def)
  define s6 where "s6 = set_cpu 0 \<lparr>cpc = CTop, time_left = 1, cproc = Some p'\<rparr> (s5\<lparr>timer := demo_timer_at 1 0 0 0 0 [DCheck, DRun]\<rparr>)"
  have "cpu_routine 0 s5 = Some s6" using at5 demo_slots(1) by (simp add: d demo_at_def s6_def)
  from demo_cpu [OF at5 _ this] at5 have at6: "demo_at \<lparr>cpc = CTop, time_left = 1, cproc = Some p'\<rparr> (LSlot False) (demo_timer_at 1 0 0 0 0 [DCheck, DRun]) 0 {#} s6"
    by (simp add: s6_def demo_at_def)
  define s7 where "s7 = s6\<lparr>timer := demo_timer_at 1 0 1 0 0 [DCheck, DCheck], ldpc := LTop\<rparr>"
  have "ld_routine demo_env s6 = Some s7" using at6 demo_slots(2) by (simp add: ld_routine_def ld_dev_def demo_at_def s7_def)
  from demo_ld [OF at6 this] at6 have at7: "demo_at \<lparr>cpc = CTop, time_left = 1, cproc = Some p'\<rparr> LTop (demo_timer_at 1 0 1 0 0 [DCheck, DCheck]) 0 {#} s7"
    by (simp add: s7_def demo_at_def)
  have "trun (map (the \<circ> timer_act) (replicate 7 Clock @ [Resume 0, Resume 1])) (demo_timer_at 1 0 1 0 0 [DCheck, DCheck])
      = Some (demo_timer_at 0 0 0 0 1 [DRun, DRun])" using demo_slots(3) by (simp add: map_replicate)
  from demo_timer [OF at7 this] have "demo_at \<lparr>cpc = CTop, time_left = 1, cproc = Some p'\<rparr> LTop (demo_timer_at 0 0 0 0 1 [DRun, DRun]) 0 {#}
      (s7\<lparr>timer := demo_timer_at 0 0 0 0 1 [DRun, DRun]\<rparr>)" by simp
  from that [OF this] r p show ?thesis by simp
qed

text \<open>The loader leaves, the processor finishes the process, finds no other and leaves.\<close>

lemma demo_left:
  obtains s where "demo_at \<lparr>cpc = CDone, time_left = 0, cproc = None\<rparr> LDone (demo_timer_at 0 1 0 1 1 [DExit, DExit]) 1 {#} s"
proof -
  obtain s p where at: "demo_at \<lparr>cpc = CTop, time_left = 1, cproc = Some p\<rparr> LTop (demo_timer_at 0 0 0 0 1 [DRun, DRun]) 0 {#} s"
    and p: "pc p = 1" "code_size (code p) = 1" by (rule demo_slot)
  note d = cpu_routine_def list_get_def
  define s1 where "s1 = s\<lparr>os_done := 1, ldpc := LStop\<rparr>"
  have "ld_routine demo_env s = Some s1" using at by (simp add: ld_routine_def ld_dev_def demo_at_def s1_def demo_cfg_def)
  from demo_ld [OF at this] at have at1: "demo_at \<lparr>cpc = CTop, time_left = 1, cproc = Some p\<rparr> LStop (demo_timer_at 0 0 0 0 1 [DRun, DRun]) 1 {#} s1"
    by (simp add: s1_def demo_at_def)
  define s2 where "s2 = s1\<lparr>timer := demo_timer_at 0 0 0 1 1 [DRun, DExit], ldpc := LDone\<rparr>"
  have "ld_routine demo_env s1 = Some s2" using at1 demo_slots(4) by (simp add: ld_routine_def ld_dev_def demo_at_def s2_def)
  from demo_ld [OF at1 this] at1 have at2: "demo_at \<lparr>cpc = CTop, time_left = 1, cproc = Some p\<rparr> LDone (demo_timer_at 0 0 0 1 1 [DRun, DExit]) 1 {#} s2"
    by (simp add: s2_def demo_at_def)
  define s3 where "s3 = say [Finished 0 (pid p)] (set_cpu 0 \<lparr>cpc = CGet, time_left = 0, cproc = None\<rparr> s2)"
  have "cpu_routine 0 s2 = Some s3" using at2 p by (simp add: d demo_at_def s3_def)
  from demo_cpu [OF at2 _ this] at2 have at3: "demo_at \<lparr>cpc = CGet, time_left = 0, cproc = None\<rparr> LDone (demo_timer_at 0 0 0 1 1 [DRun, DExit]) 1 {#} s3"
    by (simp add: s3_def demo_at_def)
  have "mlq_ok (sched s3)" using at3 reach_inv [OF _ demo_booted, of s3] by (auto simp: demo_at_def os_inv_def os_shape_def shape_ok_def)
  then obtain x q where g: "get_proc (sched s3) = Some (x, q)" using mlq.get_total by (metis get_proc_def)
  have x: "x = None" "mlq_ready q = {#}" using get_live [OF \<open>mlq_ok (sched s3)\<close> g] at3 by (auto simp: demo_at_def)
  define s4 where "s4 = set_cpu 0 \<lparr>cpc = CCheck, time_left = 0, cproc = None\<rparr> (s3\<lparr>sched := q\<rparr>)"
  have "cpu_routine 0 s3 = Some s4" using at3 g by (simp add: d demo_at_def s4_def x)
  from demo_cpu [OF at3 _ this] at3 have at4: "demo_at \<lparr>cpc = CCheck, time_left = 0, cproc = None\<rparr> LDone (demo_timer_at 0 0 0 1 1 [DRun, DExit]) 1 {#} s4"
    by (simp add: s4_def x demo_at_def)
  define s5 where "s5 = say [Stopped 0] (set_cpu 0 \<lparr>cpc = CStop, time_left = 0, cproc = None\<rparr> s4)"
  have "cpu_routine 0 s4 = Some s5" using at4 by (simp add: d demo_at_def s5_def)
  from demo_cpu [OF at4 _ this] at4 have at5: "demo_at \<lparr>cpc = CStop, time_left = 0, cproc = None\<rparr> LDone (demo_timer_at 0 0 0 1 1 [DRun, DExit]) 1 {#} s5"
    by (simp add: s5_def demo_at_def)
  define s6 where "s6 = set_cpu 0 \<lparr>cpc = CDone, time_left = 0, cproc = None\<rparr> (s5\<lparr>timer := demo_timer_at 0 1 0 1 1 [DExit, DExit]\<rparr>)"
  have "cpu_routine 0 s5 = Some s6" using at5 demo_slots(5) by (simp add: d demo_at_def s6_def)
  from demo_cpu [OF at5 _ this] at5 have "demo_at \<lparr>cpc = CDone, time_left = 0, cproc = None\<rparr> LDone (demo_timer_at 0 1 0 1 1 [DExit, DExit]) 1 {#} s6"
    by (simp add: s6_def demo_at_def)
  then show ?thesis by (rule that)
qed

lemma demo_end:
  "trun (replicate 7 Tick @ [Stop]) (demo_timer_at 0 1 0 1 1 [DExit, DExit])
    = Some ((demo_timer_at 0 1 0 1 2 [DExit, DExit])\<lparr>tpc := TExit, timer_stop := 1\<rparr>)"
  by code_simp

lemma demo_exit:
  obtains s s' where "os_reach demo_env demo_s0 s" "exited s = None" "all_left s" "length (cpus s) = 1"
    "os_run demo_env (replicate 7 Clock @ [Join, Return]) s = Some s'" "exited s' = Some 0"
proof -
  obtain s where at: "demo_at \<lparr>cpc = CDone, time_left = 0, cproc = None\<rparr> LDone (demo_timer_at 0 1 0 1 1 [DExit, DExit]) 1 {#} s" by (rule demo_left)
  let ?as = "replicate 7 Clock @ [Join, Return]"
  have ticks: "os_run demo_env (replicate n Clock @ as) s = do { t \<leftarrow> trun (replicate n Tick) (timer s); os_run demo_env as (s\<lparr>timer := t\<rparr>) }"
    if "exited s = None" for n "as" s
    using that by (induction n arbitrary: s) (simp_all add: os_step_def split: Option.bind_splits)
  obtain t where t: "trun (replicate 7 Tick) (timer s) = Some t" "stop_timer t = (demo_timer_at 0 1 0 1 2 [DExit, DExit])\<lparr>tpc := TExit, timer_stop := 1\<rparr>"
    using demo_end at unfolding trun_append by (auto simp: bind_Some_iff demo_at_def)
  have "timer_stop t = 0"
    using t(1) at by (simp add: demo_at_def) (auto simp: demo_timer_at_def timer_routine_def list_get_def numeral_eq_Suc)
  then have "\<exists>s'. os_run demo_env ?as s = Some s' \<and> exited s' = Some 0"
    using at t by (simp add: ticks demo_at_def os_step_def main_join_def main_return_def free_devices_def)
  then obtain s' where s': "os_run demo_env ?as s = Some s'" "exited s' = Some 0" by blast
  have "os_reach demo_env demo_s0 s" "exited s = None" "all_left s" "length (cpus s) = 1" using at by (simp_all add: demo_at_def all_left_def)
  from that [OF this s'] show ?thesis .
qed

section \<open>The property\<close>

text \<open>
  The program ends. When every processor and the loader have left, every continuation
  has at most \<open>4 n + 11\<close> steps for \<open>n\<close> processors, and one that can go no further has exited
  with the value 0.
\<close>

theorem program_exits:
  assumes "booted env s0" and "os_reach env s0 s" and "exited s = None"
    and "\<forall>c\<in>set (cpus s). cpc c = CDone" and "ldpc s = LDone" and "os_run env as s = Some s'"
  shows "length as \<le> 4 * length (cpus s) + 11 \<and> (exited s' = Some 0 \<or> (\<exists>a s''. os_step env a s' = Some s''))"
proof -
  obtain tr where inv: "os_inv env tr s" by (rule reach_inv [OF assms(2,1,3)])
  have "all_left s" using assms(4,5) by (simp add: all_left_def)
  from left_exits [OF os_invD(1) [OF inv] this assms(3,6)] show ?thesis .
qed

theorem program_exits_witness:
  "\<exists>s as s'. os_reach demo_env demo_s0 s \<and> all_left s \<and> os_run demo_env as s = Some s' \<and> exited s' = Some 0
    \<and> length as = 9 \<and> length as \<le> 4 * 1 + 11"
proof -
  obtain s s' where s: "os_reach demo_env demo_s0 s" "exited s = None" "all_left s" "length (cpus s) = 1"
    "os_run demo_env (replicate 7 Clock @ [Join, Return]) s = Some s'" "exited s' = Some 0" by (rule demo_exit)
  from s(3) have "\<forall>c\<in>set (cpus s). cpc c = CDone" "ldpc s = LDone" by (simp_all add: all_left_def)
  from program_exits [OF demo_booted s(1,2) this s(5)] s show ?thesis
    by (intro exI [of _ s] exI [of _ "replicate 7 Clock @ [Join, Return]"] exI [of _ s']) simp
qed

end
