(* ===== verification/Lock_Steps.thy ===== *)
theory Lock_Steps
  imports Isolation "HOL-Library.Multiset"
begin

text \<open>
  Several processors at once, each inside a call of the memory system. Elsewhere an
  instruction is one step; here the steps are the pieces between two accesses to what the
  processors share (the free lists of RAM and swap, each behind its lock in
  \<open>src/mm-memphy.c\<close>). A call is an action: it has returned, or it makes a step on the memory of
  its process and the devices and goes on.

  An action is safe when, whatever the others do between its steps, it never faults, takes
  only frames nobody has, and leaves the frames of the others alone. Safe actions of any
  number of processors can be interleaved in any way.
\<close>

section \<open>Actions\<close>

datatype 'a act = Ret 'a | Step "vmctx \<Rightarrow> ('a act \<times> vmctx) option"

primrec act_bind :: "'a act \<Rightarrow> ('a \<Rightarrow> 'b act) \<Rightarrow> 'b act" where
  "act_bind (Ret x) k = k x"
| "act_bind (Step f) k = Step (map_option (map_prod (\<lambda>a. act_bind a k) id) \<circ> f)"

text \<open>An action that nobody disturbs.\<close>

primrec exec :: "'a act \<Rightarrow> vmctx \<Rightarrow> ('a \<times> vmctx) option" where
  "exec (Ret x) = (\<lambda>c. Some (x, c))"
| "exec (Step f) = (\<lambda>c. Option.bind ((map_option (map_prod exec id) \<circ> f) c) (\<lambda>(h, c'). h c'))"

definition once :: "(vmctx \<Rightarrow> ('a \<times> vmctx) option) \<Rightarrow> 'a act" where
  "once f = Step (map_option (map_prod Ret id) \<circ> f)"

lemma exec_bind [simp]: "exec (act_bind a k) c = do { (x, c') \<leftarrow> exec a c; exec (k x) c' }"
proof (induction a arbitrary: c)
  case (Step f)
  show ?case
  proof (cases "f c")
    case (Some y)
    then obtain a' c' where y: "f c = Some (a', c')" by (cases y) auto
    have "exec (act_bind a' k) c' = do { (x, c'') \<leftarrow> exec a' c'; exec (k x) c'' }"
      by (rule Step.IH [OF rangeI [of f c], of "(a', c')"]) (simp_all add: y)
    with y show ?thesis by simp
  qed simp
qed simp

lemma exec_once [simp]: "exec (once f) = f"
  by (rule ext) (simp add: once_def Option.bind_map_option comp_def split: Option.bind_split)

section \<open>Frames in hand\<close>

definition zero_frames :: "memphy_struct \<Rightarrow> int list \<Rightarrow> bool" where
  "zero_frames mp frm \<longleftrightarrow> (\<forall>f\<in>set frm. \<forall>i\<in>{0..<256}. frame_byte mp f i = 0)"

text \<open>
  A processor in the middle of a call, relative to the frames \<open>R\<close> and \<open>S\<close> of the others: it
  has taken frames \<open>hr\<close> of RAM (all zero) and \<open>hs\<close> of swap that are not yet in its page table.
\<close>

definition hands_ok :: "int set \<Rightarrow> int set \<Rightarrow> int list \<Rightarrow> int list \<Rightarrow> vmctx \<Rightarrow> bool" where
  "hands_ok R S hr hs c \<longleftrightarrow> vm_ok (R \<union> set hr) (S \<union> set hs) c \<and> zero_frames (vram c) hr
     \<and> distinct hr \<and> set hr \<subseteq> frames (vram c) - R \<and> distinct hs \<and> set hs \<subseteq> frames (vswp c) - S"

lemma hands_vm: "hands_ok R S hr hs c \<Longrightarrow> vm_ok (R \<union> set hr) (S \<union> set hs) c"
  by (simp add: hands_ok_def)

lemma hands_apart:
  assumes "hands_ok R S hr hs c"
  shows "(used_ram (vmm c) \<union> set hr) \<inter> R = {}" "(used_ram (vmm c) \<union> set hr) \<inter> set (free_fp_list (vram c)) = {}"
    "(used_swp (vmm c) \<union> set hs) \<inter> S = {}" "(used_swp (vmm c) \<union> set hs) \<inter> set (free_fp_list (vswp c)) = {}"
    "R \<inter> set (free_fp_list (vram c)) = {}" "S \<inter> set (free_fp_list (vswp c)) = {}"
    "used_ram (vmm c) \<inter> set hr = {}" "used_swp (vmm c) \<inter> set hs = {}"
proof -
  have vm: "vm_ok (R \<union> set hr) (S \<union> set hs) c" and h: "set hr \<inter> R = {}" "set hs \<inter> S = {}" using assms by (auto simp: hands_ok_def)
  show "(used_ram (vmm c) \<union> set hr) \<inter> R = {}" "(used_ram (vmm c) \<union> set hr) \<inter> set (free_fp_list (vram c)) = {}"
    "used_ram (vmm c) \<inter> set hr = {}" "R \<inter> set (free_fp_list (vram c)) = {}"
    using vm_ok_ram_used(2) [OF vm] vm_ok_free(1) [OF vm] h(1) unfolding used_ram_eq by blast+
  show "(used_swp (vmm c) \<union> set hs) \<inter> S = {}" "(used_swp (vmm c) \<union> set hs) \<inter> set (free_fp_list (vswp c)) = {}"
    "used_swp (vmm c) \<inter> set hs = {}" "S \<inter> set (free_fp_list (vswp c)) = {}"
    using vm_ok_swp_used(2) [OF vm] vm_ok_free(2) [OF vm] h(2) unfolding used_swp_eq by blast+
qed

text \<open>A step of another processor, seen by processor \<open>d\<close>.\<close>

lemma hands_bystander:
  assumes i: "hands_ok Ri Si hri hsi c'" and kept: "others_kept Ri Si c c'"
    and j: "hands_ok Rj Sj hr hs d" and dev: "vram d = vram c" "vswp d = vswp c"
    and mine: "used_ram (vmm d) \<union> set hr \<subseteq> Ri" "used_swp (vmm d) \<union> set hs \<subseteq> Si"
    and Rj': "Rj' \<subseteq> (used_ram (vmm c') \<union> set hri) \<union> (Rj \<inter> Ri)" and Sj': "Sj' \<subseteq> (used_swp (vmm c') \<union> set hsi) \<union> (Sj \<inter> Si)"
  defines "d' \<equiv> d\<lparr>vram := vram c', vswp := vswp c'\<rparr>"
  shows "hands_ok Rj' Sj' hr hs d'" and "vdom d' = vdom d" and "\<forall>a\<in>vdom d. vread d' a = vread d a"
proof -
  note oi = hands_apart [OF i] and oj = hands_apart [OF j]
  note vi = hands_vm [OF i] and vj = hands_vm [OF j]
  have hj: "distinct hr" "set hr \<subseteq> frames (vram d)" "zero_frames (vram d) hr" "distinct hs" "set hs \<subseteq> frames (vswp d)"
    using j by (auto simp: hands_ok_def)
  have fr: "frames (vram c') = frames (vram d)" "frames (vswp c') = frames (vswp d)"
    using kept dev by (simp_all add: others_kept_def)
  have m: "used_ram (vmm d) \<subseteq> Ri \<union> set hri" "used_swp (vmm d) \<subseteq> Si \<union> set hsi" using mine by blast+
  have a1: "used_ram (vmm d) \<inter> (Rj' \<union> set hr) = {}" using Rj' oi(1) oj(1,7) mine(1) by blast
  have a2: "used_swp (vmm d) \<inter> (Sj' \<union> set hs) = {}" using Sj' oi(3) oj(3,8) mine(2) by blast
  have a3: "set (free_fp_list (vram c')) \<inter> (Rj' \<union> set hr) = {}" using Rj' oi(2,5) mine(1) by blast
  have a4: "set (free_fp_list (vswp c')) \<inter> (Sj' \<union> set hs) = {}" using Sj' oi(4,6) mine(2) by blast
  have keep: "\<forall>g\<in>Ri. g \<in> frames (vram c) \<longrightarrow> (\<forall>i\<in>{0..<256}. frame_byte (vram c') g i = frame_byte (vram c) g i)"
    "\<forall>g\<in>Si. g \<in> frames (vswp c) \<longrightarrow> (\<forall>i\<in>{0..<256}. frame_byte (vswp c') g i = frame_byte (vswp c) g i)"
    using kept by (simp_all add: others_kept_def PAGING_PAGESZ_def)
  have k1: "\<forall>g\<in>used_ram (vmm d). \<forall>i\<in>{0..<256}. frame_byte (vram c') g i = frame_byte (vram d) g i"
    using keep(1) mine(1) used_in_frames(1) [OF vj] dev by auto
  have k2: "\<forall>g\<in>used_swp (vmm d). \<forall>i\<in>{0..<256}. frame_byte (vswp c') g i = frame_byte (vswp d) g i"
    using keep(2) mine(2) used_in_frames(2) [OF vj] dev by auto
  note B = vm_bystander [OF vj vi fr m a1 a2 a3 a4 k1 k2, folded d'_def]
  have "set hr \<inter> Rj' = {}" "set hs \<inter> Sj' = {}" using Rj' Sj' oi(1,3) oj(1,3) mine by blast+
  moreover have "zero_frames (vram c') hr" using keep(1) hj(2,3) mine(1) dev by (auto simp: zero_frames_def)
  ultimately show "hands_ok Rj' Sj' hr hs d'" using B(1) hj fr by (auto simp: hands_ok_def d'_def)
  show "vdom d' = vdom d" "\<forall>a\<in>vdom d. vread d' a = vread d a" using B(2,3) by blast+
qed

section \<open>Safe actions\<close>

text \<open>
  \<open>g\<close> is what the process reads at its addresses. A step is safe for the frames of any others
  and any state of the devices that agrees with what the process knows.
\<close>

definition knows :: "vmctx \<Rightarrow> (int \<Rightarrow> u8) \<Rightarrow> bool" where
  "knows c g \<longleftrightarrow> (\<forall>a\<in>vdom c. vread c a = g a)"

inductive safe :: "('a \<Rightarrow> int list \<Rightarrow> int list \<Rightarrow> mm_struct \<Rightarrow> (int \<Rightarrow> u8) \<Rightarrow> bool)
    \<Rightarrow> 'a act \<Rightarrow> int list \<Rightarrow> int list \<Rightarrow> mm_struct \<Rightarrow> (int \<Rightarrow> u8) \<Rightarrow> bool" for Q where
  safe_Ret: "Q x hr hs m g \<Longrightarrow> safe Q (Ret x) hr hs m g"
| safe_Step: "(\<forall>R S c. hands_ok R S hr hs c \<and> vmm c = m \<and> knows c g \<longrightarrow>
      (\<exists>a c' hr' hs' g'. f c = Some (a, c') \<and> hands_ok R S hr' hs' c' \<and> others_kept R S c c' \<and> knows c' g'
         \<and> safe Q a hr' hs' (vmm c') g')) \<Longrightarrow> safe Q (Step f) hr hs m g"

inductive_cases safe_RetE: "safe Q (Ret x) hr hs m g"
inductive_cases safe_StepE: "safe Q (Step f) hr hs m g"

lemma safe_StepD:
  assumes "safe Q (Step f) hr hs m g" and "hands_ok R S hr hs c" "vmm c = m" "knows c g"
  shows "\<exists>a c' hr' hs' g'. f c = Some (a, c') \<and> hands_ok R S hr' hs' c' \<and> others_kept R S c c' \<and> knows c' g'
    \<and> safe Q a hr' hs' (vmm c') g'"
  using assms(1) by (rule safe_StepE) (use assms(2-4) in blast)

lemma safe_conseq:
  assumes "safe Q a hr hs m g" and "\<And>x hr hs m g. Q x hr hs m g \<Longrightarrow> Q' x hr hs m g"
  shows "safe Q' a hr hs m g"
  using assms(1)
proof induction
  case (safe_Ret x hr hs m g)
  then show ?case by (intro safe.safe_Ret assms(2))
next
  case (safe_Step hr hs m g f)
  then show ?case by (intro safe.safe_Step) fast
qed

lemma safe_bind:
  assumes "safe Q a hr hs m g" and "\<And>x hr hs m g. Q x hr hs m g \<Longrightarrow> safe Q' (k x) hr hs m g"
  shows "safe Q' (act_bind a k) hr hs m g"
  using assms(1)
proof induction
  case (safe_Ret x hr hs m g)
  then show ?case using assms(2) by simp
next
  case (safe_Step hr hs m g f)
  show ?case unfolding act_bind.simps
  proof (rule safe.safe_Step, intro allI impI)
    fix R S c assume "hands_ok R S hr hs c \<and> vmm c = m \<and> knows c g"
    from safe_Step [rule_format, OF this] obtain a c' hr' hs' g' where "f c = Some (a, c')" "hands_ok R S hr' hs' c'"
      "others_kept R S c c'" "knows c' g'" "safe Q' (act_bind a k) hr' hs' (vmm c') g'" by blast
    then show "\<exists>a' c' hr' hs' g'. (map_option (map_prod (\<lambda>a. act_bind a k) id) \<circ> f) c = Some (a', c') \<and> hands_ok R S hr' hs' c'
        \<and> others_kept R S c c' \<and> knows c' g' \<and> safe Q' a' hr' hs' (vmm c') g'"
      by (intro exI [of _ "act_bind a k"] exI [of _ c'] exI [of _ hr'] exI [of _ hs'] exI [of _ g']) simp
  qed
qed

lemma safe_once:
  assumes "\<And>R S c. \<lbrakk>hands_ok R S hr hs c; vmm c = m; knows c g\<rbrakk> \<Longrightarrow>
    \<exists>x c' hr' hs' g'. f c = Some (x, c') \<and> hands_ok R S hr' hs' c' \<and> others_kept R S c c' \<and> knows c' g' \<and> Q x hr' hs' (vmm c') g'"
  shows "safe Q (once f) hr hs m g"
  unfolding once_def
proof (rule safe_Step, intro allI impI)
  fix R S c assume "hands_ok R S hr hs c \<and> vmm c = m \<and> knows c g"
  then obtain x c' hr' hs' g' where x: "f c = Some (x, c')" "hands_ok R S hr' hs' c'" "others_kept R S c c'" "knows c' g'"
    "Q x hr' hs' (vmm c') g'" using assms by blast
  from x(5) have "safe Q (Ret x) hr' hs' (vmm c') g'" by (rule safe_Ret)
  with x show "\<exists>a c' hr' hs' g'. (map_option (map_prod Ret id) \<circ> f) c = Some (a, c') \<and> hands_ok R S hr' hs' c'
      \<and> others_kept R S c c' \<and> knows c' g' \<and> safe Q a hr' hs' (vmm c') g'"
    by (intro exI [of _ "Ret x"] exI [of _ c'] exI [of _ hr'] exI [of _ hs'] exI [of _ g']) simp
qed

text \<open>A step that looks at the devices and changes nothing.\<close>

lemma others_kept_refl [simp]: "others_kept R S c c"
  by (simp add: others_kept_def)

lemma safe_look:
  assumes "\<And>R S c. \<lbrakk>hands_ok R S hr hs c; vmm c = m; knows c g\<rbrakk> \<Longrightarrow> \<exists>x. f c = Some (x, c) \<and> Q x hr hs m g"
  shows "safe Q (once f) hr hs m g"
proof (rule safe_once)
  fix R S c assume c: "hands_ok R S hr hs c" "vmm c = m" "knows c g"
  with assms obtain x where "f c = Some (x, c)" "Q x hr hs m g" by blast
  with c show "\<exists>x c' hr' hs' g'. f c = Some (x, c') \<and> hands_ok R S hr' hs' c' \<and> others_kept R S c c' \<and> knows c' g' \<and> Q x hr' hs' (vmm c') g'"
    by (intro exI [of _ x] exI [of _ c] exI [of _ hr] exI [of _ hs] exI [of _ g]) simp
qed

section \<open>Processors\<close>

record 'a processor =
  cp_act :: "'a act"
  cp_mm :: mm_struct

record 'a system =
  cps :: "'a processor list"
  s_ram :: memphy_struct
  s_swp :: memphy_struct

definition ctx_at :: "'a system \<Rightarrow> nat \<Rightarrow> vmctx" where
  "ctx_at s i = \<lparr>vmm = cp_mm (cps s ! i), vram = s_ram s, vswp = s_swp s\<rparr>"

text \<open>One step of processor \<open>i\<close>; a processor whose call has returned has none.\<close>

definition move :: "nat \<Rightarrow> 'a system \<Rightarrow> 'a system option" where
  "move i s =
     do { t \<leftarrow> list_get (cps s) (int i);
          (case cp_act t of
             Ret x \<Rightarrow> None
           | Step f \<Rightarrow>
               do { (a, c) \<leftarrow> f (ctx_at s i);
                    Some (s\<lparr>cps := (cps s)[i := \<lparr>cp_act = a, cp_mm = vmm c\<rparr>], s_ram := vram c, s_swp := vswp c\<rparr>) }) }"

fun moves :: "nat list \<Rightarrow> 'a system \<Rightarrow> 'a system option" where
  "moves [] s = Some s"
| "moves (i # is) s = do { s' \<leftarrow> move i s; moves is s' }"

text \<open>What is known of each processor: the frames in its hands and the bytes its process reads.\<close>

record known =
  k_ram :: "int list"
  k_swp :: "int list"
  k_view :: "int \<Rightarrow> u8"

definition held_ram :: "known list \<Rightarrow> 'a system \<Rightarrow> nat \<Rightarrow> int set" where
  "held_ram ks s i = used_ram (cp_mm (cps s ! i)) \<union> set (k_ram (ks ! i))"

definition held_swp :: "known list \<Rightarrow> 'a system \<Rightarrow> nat \<Rightarrow> int set" where
  "held_swp ks s i = used_swp (cp_mm (cps s ! i)) \<union> set (k_swp (ks ! i))"

definition rest_ram :: "known list \<Rightarrow> 'a system \<Rightarrow> nat \<Rightarrow> int set" where
  "rest_ram ks s i = (\<Union>j\<in>{0..<length (cps s)} - {i}. held_ram ks s j)"

definition rest_swp :: "known list \<Rightarrow> 'a system \<Rightarrow> nat \<Rightarrow> int set" where
  "rest_swp ks s i = (\<Union>j\<in>{0..<length (cps s)} - {i}. held_swp ks s j)"

definition cp_safe :: "(nat \<Rightarrow> 'a \<Rightarrow> int list \<Rightarrow> int list \<Rightarrow> mm_struct \<Rightarrow> (int \<Rightarrow> u8) \<Rightarrow> bool) \<Rightarrow> known list \<Rightarrow> 'a system \<Rightarrow> nat \<Rightarrow> bool" where
  "cp_safe Q ks s i \<longleftrightarrow> hands_ok (rest_ram ks s i) (rest_swp ks s i) (k_ram (ks ! i)) (k_swp (ks ! i)) (ctx_at s i)
     \<and> knows (ctx_at s i) (k_view (ks ! i))
     \<and> safe (Q i) (cp_act (cps s ! i)) (k_ram (ks ! i)) (k_swp (ks ! i)) (cp_mm (cps s ! i)) (k_view (ks ! i))"

definition sys_safe :: "(nat \<Rightarrow> 'a \<Rightarrow> int list \<Rightarrow> int list \<Rightarrow> mm_struct \<Rightarrow> (int \<Rightarrow> u8) \<Rightarrow> bool) \<Rightarrow> known list \<Rightarrow> 'a system \<Rightarrow> bool" where
  "sys_safe Q ks s \<longleftrightarrow> length ks = length (cps s) \<and> (\<forall>i<length (cps s). cp_safe Q ks s i)"

lemma union_update:
  fixes n :: nat
  assumes "i < n" "j < n" "i \<noteq> j" "\<And>k. k \<noteq> i \<Longrightarrow> F' k = F k"
  shows "(\<Union>k\<in>{0..<n} - {j}. F' k) \<subseteq> F' i \<union> ((\<Union>k\<in>{0..<n} - {j}. F k) \<inter> (\<Union>k\<in>{0..<n} - {i}. F k))"
    and "F j \<subseteq> (\<Union>k\<in>{0..<n} - {i}. F k)" and "(\<Union>k\<in>{0..<n} - {i}. F' k) = (\<Union>k\<in>{0..<n} - {i}. F k)"
proof -
  show "F j \<subseteq> (\<Union>k\<in>{0..<n} - {i}. F k)" using assms(2,3) by (intro UN_upper) auto
  show "(\<Union>k\<in>{0..<n} - {i}. F' k) = (\<Union>k\<in>{0..<n} - {i}. F k)" using assms(4) by simp
  show "(\<Union>k\<in>{0..<n} - {j}. F' k) \<subseteq> F' i \<union> ((\<Union>k\<in>{0..<n} - {j}. F k) \<inter> (\<Union>k\<in>{0..<n} - {i}. F k))"
  proof
    fix x assume "x \<in> (\<Union>k\<in>{0..<n} - {j}. F' k)"
    then obtain k where "k \<in> {0..<n} - {j}" and x: "x \<in> F' k" by (rule UN_E)
    then have k: "k < n" "k \<noteq> j" by simp_all
    show "x \<in> F' i \<union> ((\<Union>k\<in>{0..<n} - {j}. F k) \<inter> (\<Union>k\<in>{0..<n} - {i}. F k))"
    proof (cases "k = i")
      case False
      then have "x \<in> F k" using x assms(4) by simp
      then show ?thesis using k(1,2) False by auto
    qed (use x in simp)
  qed
qed

text \<open>Any processor that has not returned can move, and everything said of the others stays true.\<close>

lemma move_safe:
  assumes ok: "sys_safe Q ks s" and i: "i < length (cps s)" and f: "cp_act (cps s ! i) = Step f"
  shows "\<exists>s' ks'. move i s = Some s' \<and> sys_safe Q ks' s' \<and> length (cps s') = length (cps s)
    \<and> (\<forall>j. j \<noteq> i \<longrightarrow> ks' ! j = ks ! j \<and> cps s' ! j = cps s ! j)
    \<and> (\<exists>c. f (ctx_at s i) = Some (cp_act (cps s' ! i), c))"
proof -
  let ?n = "length (cps s)" and ?R = "rest_ram ks s i" and ?S = "rest_swp ks s i"
  let ?k = "ks ! i" and ?c = "ctx_at s i"
  have len: "length ks = ?n" and oki: "cp_safe Q ks s i" using ok i by (simp_all add: sys_safe_def)
  then have here: "hands_ok ?R ?S (k_ram ?k) (k_swp ?k) ?c" "knows ?c (k_view ?k)" "vmm ?c = cp_mm (cps s ! i)"
    and sf: "safe (Q i) (Step f) (k_ram ?k) (k_swp ?k) (cp_mm (cps s ! i)) (k_view ?k)"
    by (simp_all add: cp_safe_def f ctx_at_def)
  obtain a c' hr hs g where step: "f ?c = Some (a, c')" "hands_ok ?R ?S hr hs c'" "others_kept ?R ?S ?c c'" "knows c' g"
    "safe (Q i) a hr hs (vmm c') g"
    using safe_StepD [OF sf here(1,3,2)] by blast
  define s' where "s' = s\<lparr>cps := (cps s)[i := \<lparr>cp_act = a, cp_mm = vmm c'\<rparr>], s_ram := vram c', s_swp := vswp c'\<rparr>"
  define ks' where "ks' = ks[i := \<lparr>k_ram = hr, k_swp = hs, k_view = g\<rparr>]"
  have run: "move i s = Some s'" using i f step(1) by (simp add: move_def list_get_def s'_def)
  have n: "length (cps s') = ?n" "length ks' = ?n" using len by (simp_all add: s'_def ks'_def)
  have at: "cps s' ! i = \<lparr>cp_act = a, cp_mm = vmm c'\<rparr>" "ks' ! i = \<lparr>k_ram = hr, k_swp = hs, k_view = g\<rparr>" "ctx_at s' i = c'"
    using i len by (simp_all add: s'_def ks'_def ctx_at_def)
  have other: "ks' ! j = ks ! j" "cps s' ! j = cps s ! j" "ctx_at s' j = (ctx_at s j)\<lparr>vram := vram c', vswp := vswp c'\<rparr>" if "j \<noteq> i" for j
    using that by (simp_all add: s'_def ks'_def ctx_at_def)
  have same: "held_ram ks' s' j = held_ram ks s j" "held_swp ks' s' j = held_swp ks s j" if "j \<noteq> i" for j
    using other [OF that] by (simp_all add: held_ram_def held_swp_def)
  have held: "held_ram ks' s' i = used_ram (vmm c') \<union> set hr" "held_swp ks' s' i = used_swp (vmm c') \<union> set hs"
    by (simp_all add: held_ram_def held_swp_def at)
  have "cp_safe Q ks' s' j" if j: "j < ?n" for j
  proof (cases "j = i")
    case True
    have "rest_ram ks' s' i = ?R" "rest_swp ks' s' i = ?S" using same by (simp_all add: rest_ram_def rest_swp_def n)
    then show ?thesis using True at step by (simp add: cp_safe_def)
  next
    case False
    then have ij: "i \<noteq> j" by simp
    let ?d = "ctx_at s j"
    have okj: "hands_ok (rest_ram ks s j) (rest_swp ks s j) (k_ram (ks ! j)) (k_swp (ks ! j)) ?d" "knows ?d (k_view (ks ! j))"
      "safe (Q j) (cp_act (cps s ! j)) (k_ram (ks ! j)) (k_swp (ks ! j)) (cp_mm (cps s ! j)) (k_view (ks ! j))"
      using ok j by (simp_all add: sys_safe_def cp_safe_def)
    have dev: "vram ?d = vram ?c" "vswp ?d = vswp ?c" "vmm ?d = cp_mm (cps s ! j)" by (simp_all add: ctx_at_def)
    note ur = union_update [where F = "held_ram ks s" and F' = "held_ram ks' s'", OF i j ij same(1)]
    note us = union_update [where F = "held_swp ks s" and F' = "held_swp ks' s'", OF i j ij same(2)]
    have m: "used_ram (vmm ?d) \<union> set (k_ram (ks ! j)) \<subseteq> ?R" "used_swp (vmm ?d) \<union> set (k_swp (ks ! j)) \<subseteq> ?S"
      using ur(2) us(2) unfolding dev(3) held_ram_def [symmetric] held_swp_def [symmetric] rest_ram_def rest_swp_def by simp_all
    have r: "rest_ram ks' s' j \<subseteq> (used_ram (vmm c') \<union> set hr) \<union> (rest_ram ks s j \<inter> ?R)"
      "rest_swp ks' s' j \<subseteq> (used_swp (vmm c') \<union> set hs) \<union> (rest_swp ks s j \<inter> ?S)"
      using ur(1) us(1) unfolding rest_ram_def rest_swp_def n held by simp_all
    note B = hands_bystander [OF step(2,3) okj(1) dev(1,2) m r, folded other(3) [OF False]]
    have "knows (ctx_at s' j) (k_view (ks ! j))" using B(2,3) okj(2) by (simp add: knows_def)
    then show ?thesis using B(1) okj(3) other [OF False] by (simp add: cp_safe_def)
  qed
  then have "sys_safe Q ks' s'" by (simp add: sys_safe_def n)
  with run n(1) other(1,2) step(1) at(1) show ?thesis by auto
qed

lemma move_Some: "move i s = Some s' \<Longrightarrow> i < length (cps s) \<and> (\<exists>f. cp_act (cps s ! i) = Step f)"
  by (auto simp: move_def bind_Some_iff list_get_eq_Some split: act.splits)

lemma moves_safe:
  "\<lbrakk>moves is s = Some s'; sys_safe Q ks s\<rbrakk> \<Longrightarrow> \<exists>ks'. sys_safe Q ks' s' \<and> length (cps s') = length (cps s)
    \<and> (\<forall>j. j \<notin> set is \<longrightarrow> ks' ! j = ks ! j \<and> cps s' ! j = cps s ! j)"
proof (induction "is" s arbitrary: ks rule: moves.induct)
  case (2 i "is" s)
  then obtain s1 where s1: "move i s = Some s1" "moves is s1 = Some s'" by (auto simp: bind_Some_iff)
  from move_Some [OF s1(1)] obtain f where f: "i < length (cps s)" "cp_act (cps s ! i) = Step f" by blast
  from move_safe [OF "2.prems"(2) f] s1(1) obtain ks1 where k1: "sys_safe Q ks1 s1" "length (cps s1) = length (cps s)"
    "\<forall>j. j \<noteq> i \<longrightarrow> ks1 ! j = ks ! j \<and> cps s1 ! j = cps s ! j" by auto
  from "2.IH" [OF s1 k1(1)] k1(2,3) show ?case by auto
qed auto

section \<open>Every run ends\<close>

definition later :: "('a act \<times> 'a act) set" where
  "later = {(a, Step f) | a f c c'. f c = Some (a, c')}"

lemma wf_later: "wf later"
proof (rule wfUNIVI)
  fix P :: "'a act \<Rightarrow> bool" and a
  assume step: "\<forall>x. (\<forall>y. (y, x) \<in> later \<longrightarrow> P y) \<longrightarrow> P x"
  show "P a"
  proof (induction a)
    case (Ret x)
    have "\<forall>y. (y, Ret x) \<in> later \<longrightarrow> P y" by (simp add: later_def)
    then show ?case using step by blast
  next
    case (Step f)
    have "P y" if y: "(y, Step f) \<in> later" for y
    proof -
      obtain c c' where "f c = Some (y, c')" using y unfolding later_def by blast
      then show ?thesis using Step.IH [OF rangeI [of f c], of "(y, c')"] by simp
    qed
    then show ?case using step by blast
  qed
qed

lemma move_later:
  assumes "move i s = Some s'"
  shows "(mset (map cp_act (cps s')), mset (map cp_act (cps s))) \<in> mult later"
proof -
  from assms obtain f a c where i: "i < length (cps s)" and f: "cp_act (cps s ! i) = Step f" "f (ctx_at s i) = Some (a, c)"
    and s': "cps s' = (cps s)[i := \<lparr>cp_act = a, cp_mm = vmm c\<rparr>]"
    by (auto simp: move_def bind_Some_iff list_get_eq_Some split: act.splits)
  let ?as = "map cp_act (cps s)"
  have i': "i < length ?as" using i by simp
  have "mset ?as = mset ?as - {#Step f#} + {#Step f#}"
    using i f(1) by (metis i' insert_DiffM2 nth_map nth_mem_mset)
  moreover have "mset (map cp_act (cps s')) = mset ?as - {#Step f#} + {#a#}"
    using i f(1) by (simp add: s' map_update mset_update [OF i'])
  moreover have "(a, Step f) \<in> later" using f(2) by (auto simp: later_def)
  ultimately show ?thesis
    using one_step_implies_mult [of "{#Step f#}" "{#a#}" later "mset ?as - {#Step f#}"] by simp
qed

lemma no_endless_run: "\<nexists>r. \<forall>n. \<exists>i. move i (r n) = Some (r (Suc n))"
proof
  assume "\<exists>r. \<forall>n. \<exists>i. move i (r n :: 'a system) = Some (r (Suc n))"
  then obtain r :: "nat \<Rightarrow> 'a system" where "\<forall>n. \<exists>i. move i (r n) = Some (r (Suc n))" by blast
  then have "\<forall>n. (mset (map cp_act (cps (r (Suc n)))), mset (map cp_act (cps (r n)))) \<in> mult later" using move_later by blast
  then have "\<exists>h. \<forall>n. (h (Suc n), h n) \<in> mult (later :: ('a act \<times> 'a act) set)"
    by (intro exI [of _ "\<lambda>n. mset (map cp_act (cps (r n)))"])
  then show False using wf_mult [OF wf_later] unfolding wf_iff_no_infinite_down_chain by blast
qed

end
