(* ===== verification/Lock_Calls.thy ===== *)
theory Lock_Calls
  imports Lock_Steps
begin

text \<open>
  The memory calls of \<open>src/mm.c\<close>, \<open>src/mm-vm.c\<close> and \<open>run\<close> of \<open>src/cpu.c\<close> as actions. A step
  has at most one access to a free list; what a processor does with frames it owns and with
  the memory of its own process belongs to the step before or after. Undisturbed, each
  action is the function of the same name.
\<close>

section \<open>Collecting frames\<close>

definition fault :: "'a act" where
  "fault = Step (\<lambda>_. None)"

definition get_ram :: "(int \<times> int option) act" where
  "get_ram = once (\<lambda>c. case MEMPHY_get_freefp (vram c) of (r, f, ram1) \<Rightarrow> Some ((r, f), c\<lparr>vram := ram1\<rparr>))"

text \<open>The branch of the loop without a free frame: a return code, or the frame of a victim.\<close>

definition evict_one :: "vmctx \<Rightarrow> int \<Rightarrow> ((int \<times> int option) \<times> vmctx) option" where
  "evict_one c exception_page =
     (case find_victim_page (vmm c) exception_page of (r1, vic, mm1) \<Rightarrow>
        if r1 \<noteq> 0 then Some ((ERR_LACK_MEM_RAM, None), c\<lparr>vmm := mm1\<rparr>)
        else
          do { vicpgn \<leftarrow> vic;
               victim_pte \<leftarrow> arr_get PAGING_MAX_PGN (pgd mm1) vicpgn;
               let victim_fpn = uint (PAGING_FPN victim_pte);
               (case MEMPHY_get_freefp (vswp c) of (r2, sf, swp1) \<Rightarrow>
                  if r2 \<noteq> 0 then Some ((ERR_LACK_MEM_SWP, None), c\<lparr>vmm := mm1, vswp := swp1\<rparr>)
                  else
                    do { swp_fpn \<leftarrow> sf;
                         (_, ram2, swp2) \<leftarrow> swap_cp_page (vram c) victim_fpn swp1 swp_fpn;
                         (_, ram3) \<leftarrow> MEMPHY_clean_frame ram2 victim_fpn;
                         old \<leftarrow> arr_get PAGING_MAX_PGN (pgd mm1) vicpgn;
                         pgd1 \<leftarrow> arr_set PAGING_MAX_PGN (pgd mm1) vicpgn (pte_set_swap old SWPTYP swp_fpn);
                         Some ((0, Some victim_fpn), c\<lparr>vmm := mm1\<lparr>pgd := pgd1\<rparr>, vram := ram3, vswp := swp2\<rparr>) }) })"

fun alloc_loop_act :: "nat \<Rightarrow> int list \<Rightarrow> int \<Rightarrow> (int \<times> int list) act" where
  "alloc_loop_act 0 frm_lst exception_page = Ret (0, frm_lst)"
| "alloc_loop_act (Suc n) frm_lst exception_page =
     act_bind get_ram (\<lambda>(r, mram_fpn).
       if r = 0 then (case mram_fpn of None \<Rightarrow> fault | Some fpn \<Rightarrow> alloc_loop_act n (fpn # frm_lst) exception_page)
       else act_bind (once (\<lambda>c. evict_one c exception_page)) (\<lambda>(r, f).
         if r \<noteq> 0 then Ret (r, frm_lst)
         else (case f of None \<Rightarrow> fault | Some fpn \<Rightarrow> alloc_loop_act n (fpn # frm_lst) exception_page)))"

definition alloc_pages_act :: "int \<Rightarrow> int \<Rightarrow> (int \<times> int list) act" where
  "alloc_pages_act req_pgnum exception_page =
     act_bind (once (\<lambda>c. Some (MEMPHY_count_free_frame (vram c), c))) (\<lambda>ram_free_fpn_count.
     act_bind (once (\<lambda>c. Some ((count_available_victim (vmm c) exception_page, MEMPHY_count_free_frame (vswp c)), c)))
       (\<lambda>(victim_count, swp_free_fpn_count).
          let swap_frame_count = req_pgnum - ram_free_fpn_count in
          if req_pgnum > ram_free_fpn_count \<and> swap_frame_count > victim_count then Ret (ERR_LACK_MEM_RAM, [])
          else if req_pgnum > ram_free_fpn_count \<and> swap_frame_count > swp_free_fpn_count then Ret (ERR_LACK_MEM_SWP, [])
          else act_bind (alloc_loop_act (nat req_pgnum) [] exception_page)
            (\<lambda>(r, frm_lst). Ret (if r < 0 then r else req_pgnum, frm_lst))))"

section \<open>Page faults\<close>

text \<open>The victim and the frame of swap it goes to, or the reason why there is none.\<close>

definition pick_victim :: "vmctx \<Rightarrow> ((int + int \<times> int \<times> int) \<times> vmctx) option" where
  "pick_victim c =
     (case find_victim_page (vmm c) (-1) of (r1, vic, mm1) \<Rightarrow>
        if r1 \<noteq> 0 then Some (Inl 1, c\<lparr>vmm := mm1\<rparr>)
        else
          do { vicpgn \<leftarrow> vic;
               victim_pte \<leftarrow> arr_get PAGING_MAX_PGN (pgd mm1) vicpgn;
               let victim_fpn = uint (PAGING_FPN victim_pte);
               (case MEMPHY_get_freefp (vswp c) of (r2, sf, swp1) \<Rightarrow>
                 if r2 \<noteq> 0 then Some (Inl 2, c\<lparr>vmm := mm1, vswp := swp1\<rparr>)
                 else do { swpfpn \<leftarrow> sf; Some (Inr (vicpgn, victim_fpn, swpfpn), c\<lparr>vmm := mm1, vswp := swp1\<rparr>) }) })"

definition exchange :: "int \<Rightarrow> u32 \<Rightarrow> int \<times> int \<times> int \<Rightarrow> vmctx \<Rightarrow> (int \<times> vmctx) option" where
  "exchange pgn pte = (\<lambda>(vicpgn, victim_fpn, swpfpn) c.
     let tgtfpn = uint (PAGING_SWAPFPN pte) in
     do { (_, ram1, swp2) \<leftarrow> swap_cp_page (vram c) victim_fpn (vswp c) swpfpn;
          (_, swp3, ram2) \<leftarrow> swap_cp_page swp2 tgtfpn ram1 victim_fpn;
          let swp4 = snd (MEMPHY_put_freefp swp3 tgtfpn);
          old1 \<leftarrow> arr_get PAGING_MAX_PGN (pgd (vmm c)) vicpgn;
          pgd1 \<leftarrow> arr_set PAGING_MAX_PGN (pgd (vmm c)) vicpgn (pte_set_swap old1 SWPTYP swpfpn);
          old2 \<leftarrow> arr_get PAGING_MAX_PGN pgd1 pgn;
          pgd2 \<leftarrow> arr_set PAGING_MAX_PGN pgd1 pgn (pte_set_fpn old2 victim_fpn);
          Some (0, c\<lparr>vmm := enlist_tail_pgn_node ((vmm c)\<lparr>pgd := pgd2\<rparr>) pgn, vram := ram2, vswp := swp4\<rparr>) })"

definition swap_in_act :: "int \<Rightarrow> u32 \<Rightarrow> int act" where
  "swap_in_act pgn pte = act_bind (once pick_victim) (\<lambda>r. case r of Inl e \<Rightarrow> Ret e | Inr v \<Rightarrow> once (exchange pgn pte v))"

definition get_pte :: "int \<Rightarrow> u32 act" where
  "get_pte pgn = once (\<lambda>c. do { pte \<leftarrow> arr_get PAGING_MAX_PGN (pgd (vmm c)) pgn; Some (pte, c) })"

definition bring_to_ram_act :: "int \<Rightarrow> int act" where
  "bring_to_ram_act page_num =
     act_bind (get_pte page_num) (\<lambda>pte.
       if pte = 0 \<or> PAGING_PAGE_PRESENT pte then Ret 0
       else act_bind (swap_in_act page_num pte) (\<lambda>r.
         Ret (if r = 1 then ERR_LACK_MEM_RAM else if r = 2 then ERR_LACK_MEM_SWP else 0)))"

definition pg_getpage_act :: "int \<Rightarrow> (int \<times> int option) act" where
  "pg_getpage_act pgn =
     act_bind (get_pte pgn) (\<lambda>pte.
       if pte = 0 then Ret (ERR_INVALID_ACCESS, None)
       else if \<not> PAGING_PAGE_PRESENT pte then
         act_bind (swap_in_act pgn pte) (\<lambda>r.
           if r \<noteq> 0 then Ret (ERR_SWAPPING, None)
           else act_bind (get_pte pgn) (\<lambda>pte'. Ret (0, Some (uint (PAGING_FPN pte')))))
       else Ret (0, Some (uint (PAGING_FPN pte))))"

definition pg_getval_act :: "int \<Rightarrow> (int \<times> u8 option) act" where
  "pg_getval_act addr =
     (let pgn = uint (PAGING_PGN (u32_of_int addr));
          off = uint (PAGING_OFFST (u32_of_int addr))
      in act_bind (pg_getpage_act pgn) (\<lambda>(getpage_status, fpn).
           if getpage_status \<noteq> 0 then Ret (getpage_status, None)
           else once (\<lambda>c. do { f \<leftarrow> fpn;
                     let phyaddr = f * PAGING_PAGESZ + off;
                     (_, data, ram) \<leftarrow> MEMPHY_read (Some (vram c)) phyaddr;
                     ram1 \<leftarrow> ram;
                     Some ((0, data), c\<lparr>vram := ram1\<rparr>) })))"

definition pg_setval_act :: "int \<Rightarrow> u8 \<Rightarrow> int act" where
  "pg_setval_act addr v =
     (let pgn = uint (PAGING_PGN (u32_of_int addr));
          off = uint (PAGING_OFFST (u32_of_int addr))
      in act_bind (pg_getpage_act pgn) (\<lambda>(getpage_status, fpn).
           if getpage_status \<noteq> 0 then Ret getpage_status
           else once (\<lambda>c. do { f \<leftarrow> fpn;
                     let phyaddr = f * PAGING_PAGESZ + off;
                     (_, ram) \<leftarrow> MEMPHY_write (Some (vram c)) phyaddr v;
                     ram1 \<leftarrow> ram;
                     Some (0, c\<lparr>vram := ram1\<rparr>) })))"

section \<open>Growing and allocating\<close>

definition map_frames :: "int \<Rightarrow> int \<Rightarrow> int list \<Rightarrow> vmctx \<Rightarrow> (int \<times> vmctx) option" where
  "map_frames mapstart num frm_lst c =
     do { (_, _, mm') \<leftarrow> vmap_page_range (vmm c) mapstart num frm_lst;
          let ram' = snd (MEMPHY_concat_usedfp (vram c) frm_lst);
          Some (0, c\<lparr>vmm := mm', vram := ram'\<rparr>) }"

definition vm_map_ram_act :: "int \<Rightarrow> int \<Rightarrow> int \<Rightarrow> int act" where
  "vm_map_ram_act astart mapstart increase_page_number =
     (let pgn = uint (PAGING_PGN (u32_of_int astart)) in
      act_bind (bring_to_ram_act pgn) (\<lambda>bring_to_ram_status.
        if bring_to_ram_status \<noteq> 0 then Ret bring_to_ram_status
        else act_bind (alloc_pages_act increase_page_number pgn) (\<lambda>(num, frm_lst).
          if num < 0 then Ret num else once (map_frames mapstart num frm_lst))))"

definition grow_args :: "int \<Rightarrow> int \<Rightarrow> int \<Rightarrow> vmctx \<Rightarrow> ((int \<times> int \<times> int) \<times> vmctx) option" where
  "grow_args vmaid demand_size true_inc_size c =
     do { byte_increase_amt \<leftarrow> PAGING_PAGE_ALIGNSZ demand_size;
          (next_start, next_end) \<leftarrow> create_vm_rg_of_pcb_at_brk (vmm c) vmaid true_inc_size;
          i \<leftarrow> get_vma_by_index (vmm c) vmaid;
          Some ((int_of_ulong next_start, int_of_ulong (vm_end (mmap (vmm c) ! i)), c_div byte_increase_amt PAGING_PAGESZ), c) }"

definition increase_vma_limit_act :: "int \<Rightarrow> int \<Rightarrow> int \<Rightarrow> int act" where
  "increase_vma_limit_act vmaid demand_size true_inc_size =
     act_bind (once (grow_args vmaid demand_size true_inc_size)) (\<lambda>(astart, old_end, num_of_pages_increased).
       act_bind (vm_map_ram_act astart old_end num_of_pages_increased) (\<lambda>map_ram_status.
         Ret (if map_ram_status < 0 then map_ram_status else 0)))"

text \<open>\<open>__alloc\<close> up to the growth of the area: it is done, or the size to grow and the old \<open>sbrk\<close>.\<close>

definition alloc_start :: "int \<Rightarrow> int \<Rightarrow> int \<Rightarrow> vmctx \<Rightarrow> ((int + int \<times> int \<times> nat) \<times> vmctx) option" where
  "alloc_start vmaid rgid sz c =
     do { (r, rgnode, m1) \<leftarrow> get_free_vmrg_area (vmm c) vmaid sz;
          if r = 0 then
            do { (st, en) \<leftarrow> rgnode;
                 m2 \<leftarrow> set_symbol m1 rgid st en;
                 Some (Inl 0, c\<lparr>vmm := m2\<rparr>) }
          else
            do { i \<leftarrow> get_vma_by_index m1 vmaid;
                 let cur_vma = mmap m1 ! i;
                 let usz = ulong_of_int sz;
                 if sbrk cur_vma + usz \<le> vm_end cur_vma then
                   do { m2 \<leftarrow> set_symbol m1 rgid (sbrk cur_vma) (sbrk cur_vma + usz);
                        Some (Inl 0, c\<lparr>vmm := set_vma m2 i (cur_vma\<lparr>sbrk := sbrk cur_vma + usz\<rparr>)\<rparr>) }
                 else Some (Inr (int_of_ulong (sbrk cur_vma), int_of_ulong (sbrk cur_vma + usz - vm_end cur_vma), i), c\<lparr>vmm := m1\<rparr>) } }"

definition alloc_end :: "int \<Rightarrow> int \<Rightarrow> int \<times> int \<times> nat \<Rightarrow> vmctx \<Rightarrow> (int \<times> vmctx) option" where
  "alloc_end rgid sz = (\<lambda>(old_sbrk, demand_size, i) c.
     do { new_end \<leftarrow> chk_int (old_sbrk + sz);
          m3 \<leftarrow> set_symbol (vmm c) rgid (ulong_of_int old_sbrk) (ulong_of_int new_end);
          _ \<leftarrow> require (mmap m3 \<noteq> []);
          let m4 = set_vma m3 0 ((mmap m3 ! 0)\<lparr>sbrk := sbrk (mmap m3 ! 0) + ulong_of_int sz\<rparr>);
          amt \<leftarrow> PAGING_PAGE_ALIGNSZ demand_size;
          let m5 = set_vma m4 i ((mmap m4 ! i)\<lparr>vm_end := vm_end (mmap m4 ! i) + ulong_of_int amt\<rparr>);
          Some (0, c\<lparr>vmm := m5\<rparr>) })"

definition mm_alloc_act :: "int \<Rightarrow> int \<Rightarrow> int \<Rightarrow> int act" where
  "mm_alloc_act vmaid rgid sz =
     act_bind (once (alloc_start vmaid rgid sz)) (\<lambda>r. case r of
         Inl status \<Rightarrow> Ret status
       | Inr v \<Rightarrow> act_bind (increase_vma_limit_act vmaid (fst (snd v)) sz) (\<lambda>increase_status.
           if increase_status < 0 then Ret increase_status else once (alloc_end rgid sz v)))"

section \<open>Access and the calls of the CPU\<close>

definition check_act :: "int \<Rightarrow> int \<Rightarrow> int \<Rightarrow> (int + int) act" where
  "check_act vmaid rgid offset = once (\<lambda>c. do { r \<leftarrow> check_access (vmm c) vmaid rgid offset; Some (r, c) })"

definition mm_read_act :: "int \<Rightarrow> int \<Rightarrow> int \<Rightarrow> (int \<times> u8 option) act" where
  "mm_read_act vmaid rgid offset =
     act_bind (check_act vmaid rgid offset) (\<lambda>r. case r of Inl e \<Rightarrow> Ret (e, None) | Inr addr \<Rightarrow> pg_getval_act addr)"

definition mm_write_act :: "int \<Rightarrow> int \<Rightarrow> int \<Rightarrow> u8 \<Rightarrow> int act" where
  "mm_write_act vmaid rgid offset v =
     act_bind (check_act vmaid rgid offset) (\<lambda>r. case r of Inl e \<Rightarrow> Ret e | Inr addr \<Rightarrow> pg_setval_act addr v)"

text \<open>The end of a call: the process takes its memory back.\<close>

type_synonym call_act = "(int \<times> console_line list \<times> pcb_t) act"

definition give_back :: "int \<Rightarrow> console_line list \<Rightarrow> pcb_t \<Rightarrow> call_act" where
  "give_back r ls p = once (\<lambda>c. Some ((r, ls, p\<lparr>mm := vmm c\<rparr>), c))"

definition pgalloc_act :: "pcb_t \<Rightarrow> u32 \<Rightarrow> u32 \<Rightarrow> call_act" where
  "pgalloc_act p sz reg_index =
     act_bind (mm_alloc_act 0 (int_of_u32 reg_index) (int_of_u32 sz)) (\<lambda>alloc_status.
       give_back alloc_status
         (if alloc_status = ERR_AREA_OVERLAP then [err_line p ''VMAs overlapped, cannot allocate!'']
          else if alloc_status = ERR_LACK_MEM_RAM then [err_line p ''new region is too large to fit all in RAM, cannot allocate!'']
          else if alloc_status = ERR_LACK_MEM_SWP then [err_line p ''ran out of SWAP memory, cannot allocate!'']
          else if alloc_status \<noteq> 0 then [err_line p ''undefined error, cannot allocate!'']
          else []) p)"

definition pgfree_act :: "pcb_t \<Rightarrow> u32 \<Rightarrow> call_act" where
  "pgfree_act p reg_index =
     act_bind (once (\<lambda>c. mm_free c 0 (int_of_u32 reg_index))) (\<lambda>status. give_back status [] p)"

definition dump_act :: "(console_line list \<times> console_line list) act" where
  "dump_act = act_bind (once (\<lambda>c. do { (_, tbl) \<leftarrow> print_pgtbl (vmm c) 0 (-1); Some (tbl, c) }))
     (\<lambda>tbl. once (\<lambda>c. Some ((tbl, map MemLine (MEMPHY_dump (vram c))), c)))"

definition pgread_act :: "pcb_t \<Rightarrow> u32 \<Rightarrow> u32 \<Rightarrow> u32 \<Rightarrow> call_act" where
  "pgread_act p source offset destination =
     act_bind (mm_read_act 0 (int_of_u32 source) (int_of_u32 offset)) (\<lambda>(read_status, data).
       case (if read_status = 0 then map_option (\<lambda>d. Some (sint d)) data else Some None) of
         None \<Rightarrow> fault
       | Some v \<Rightarrow> act_bind dump_act (\<lambda>(tbl, dump).
           give_back read_status ([ReadLine (int_of_u32 source) (int_of_u32 offset) v] @ tbl @ dump @ access_errors p read_status ''read'') p))"

definition pgwrite_act :: "pcb_t \<Rightarrow> u8 \<Rightarrow> u32 \<Rightarrow> u32 \<Rightarrow> call_act" where
  "pgwrite_act p data destination offset =
     act_bind dump_act (\<lambda>(tbl, dump).
       act_bind (mm_write_act 0 (int_of_u32 destination) (int_of_u32 offset) data) (\<lambda>write_status.
         give_back write_status ([WriteLine (int_of_u32 destination) (int_of_u32 offset) (sint data)] @ tbl
           @ dump @ access_errors p write_status ''write'') p))"

definition run_act :: "pcb_t \<Rightarrow> call_act" where
  "run_act p =
     (if pc p \<ge> code_size (code p) then give_back 1 [] p
      else
        (case list_get (code_text (code p)) (uint (pc p)) of
           None \<Rightarrow> fault
         | Some ins \<Rightarrow>
             let p1 = p\<lparr>pc := pc p + 1\<rparr> in
             (case opcode ins of
                CALC \<Rightarrow> give_back (calc p1) [] p1
              | ALLOC \<Rightarrow> pgalloc_act p1 (arg_0 ins) (arg_1 ins)
              | FREE \<Rightarrow> pgfree_act p1 (arg_0 ins)
              | READ \<Rightarrow> pgread_act p1 (arg_0 ins) (arg_1 ins) (arg_2 ins)
              | WRITE \<Rightarrow> pgwrite_act p1 (char_of_u32 (arg_0 ins)) (arg_1 ins) (arg_2 ins))))"

section \<open>Undisturbed, they are the functions\<close>

lemma exec_fault [simp]: "exec fault c = None"
  by (simp add: fault_def)

lemma alloc_loop_Suc:
  "alloc_loop (Suc n) c frm e =
     (case MEMPHY_get_freefp (vram c) of (r, f, ram1) \<Rightarrow>
        if r = 0 then do { fpn \<leftarrow> f; alloc_loop n (c\<lparr>vram := ram1\<rparr>) (fpn # frm) e }
        else do { ((r, f), c') \<leftarrow> evict_one (c\<lparr>vram := ram1\<rparr>) e;
                  if r \<noteq> 0 then Some (r, frm, c') else do { fpn \<leftarrow> f; alloc_loop n c' (fpn # frm) e } })"
  by (simp add: evict_one_def Let_def ERR_LACK_MEM_RAM_def ERR_LACK_MEM_SWP_def split: prod.split Option.bind_split)

definition out2 :: "('a \<times> 'b \<times> vmctx) \<Rightarrow> ('a \<times> 'b) \<times> vmctx" where
  "out2 = (\<lambda>(x, y, c). ((x, y), c))"

lemma out2_simp [simp]: "out2 (x, y, c) = ((x, y), c)"
  by (simp add: out2_def)

lemma exec_alloc_loop: "exec (alloc_loop_act n frm e) c = map_option out2 (alloc_loop n c frm e)"
proof (induction n arbitrary: frm c)
  case (Suc n)
  show ?case unfolding alloc_loop_Suc alloc_loop_act.simps get_ram_def
    using Suc.IH by (auto split: prod.split option.split Option.bind_split)
qed simp

lemma exec_alloc_pages: "exec (alloc_pages_act req e) c = map_option out2 (alloc_pages_range c req e)"
  by (auto simp: alloc_pages_act_def alloc_pages_range_def Let_def exec_alloc_loop split: Option.bind_split prod.split)

lemma exec_swap_in: "exec (swap_in_act pgn pte) c = swap_in c pgn pte"
  by (auto simp: swap_in_act_def pick_victim_def exchange_def swap_in_def Let_def split: prod.split Option.bind_split)

lemma exec_get_pte [simp]: "exec (get_pte pgn) c = do { pte \<leftarrow> arr_get PAGING_MAX_PGN (pgd (vmm c)) pgn; Some (pte, c) }"
  by (simp add: get_pte_def)

lemma exec_bring_to_ram: "exec (bring_to_ram_act pgn) c = bring_to_ram c pgn"
  by (auto simp: bring_to_ram_act_def bring_to_ram_def exec_swap_in split: Option.bind_split)

lemma exec_pg_getpage: "exec (pg_getpage_act pgn) c = map_option out2 (pg_getpage c pgn)"
  by (auto simp: pg_getpage_act_def pg_getpage_def exec_swap_in split: Option.bind_split)

lemma exec_pg_getval: "exec (pg_getval_act addr) c = map_option out2 (pg_getval c addr)"
  by (auto simp: pg_getval_act_def pg_getval_def Let_def exec_pg_getpage split: Option.bind_split prod.split)

lemma exec_pg_setval: "exec (pg_setval_act addr v) c = pg_setval c addr v"
  by (auto simp: pg_setval_act_def pg_setval_def Let_def exec_pg_getpage split: Option.bind_split prod.split)

lemma exec_vm_map_ram:
  "exec (vm_map_ram_act astart mapstart inc) c = map_option (\<lambda>(r, _, c'). (r, c')) (vm_map_ram c astart aend mapstart inc)"
  by (auto simp: vm_map_ram_act_def vm_map_ram_def map_frames_def Let_def exec_bring_to_ram exec_alloc_pages split: Option.bind_split prod.split)

lemma exec_increase_vma_limit: "exec (increase_vma_limit_act vmaid d sz) c = increase_vma_limit c vmaid d sz"
proof (cases "grow_args vmaid d sz c")
  case None
  then show ?thesis
    by (auto simp: increase_vma_limit_act_def increase_vma_limit_def grow_args_def Let_def split: Option.bind_splits)
next
  case (Some x)
  then obtain amt s e i where args: "PAGING_PAGE_ALIGNSZ d = Some amt" "create_vm_rg_of_pcb_at_brk (vmm c) vmaid sz = Some (s, e)"
      "get_vma_by_index (vmm c) vmaid = Some i"
    and x: "x = ((int_of_ulong s, int_of_ulong (vm_end (mmap (vmm c) ! i)), c_div amt PAGING_PAGESZ), c)"
    by (auto simp: grow_args_def bind_Some_iff)
  show ?thesis
    using Some args x exec_vm_map_ram [of "int_of_ulong s" "int_of_ulong (vm_end (mmap (vmm c) ! i))" "c_div amt PAGING_PAGESZ" c "int_of_ulong e"]
    by (simp add: increase_vma_limit_act_def increase_vma_limit_def validate_overlap_vm_area_def Let_def map_option_case split: option.splits)
qed

lemma exec_mm_alloc: "exec (mm_alloc_act vmaid rgid sz) c = map_option (\<lambda>(r, _, c'). (r, c')) (mm_alloc c vmaid rgid sz)"
  by (auto simp: mm_alloc_act_def mm_alloc_def alloc_start_def alloc_end_def Let_def exec_increase_vma_limit split: Option.bind_split prod.split)

lemma exec_mm_read: "exec (mm_read_act vmaid rgid off) c = map_option out2 (mm_read c vmaid rgid off)"
  by (auto simp: mm_read_act_def mm_read_def check_act_def exec_pg_getval split: Option.bind_split sum.split)

lemma exec_mm_write: "exec (mm_write_act vmaid rgid off v) c = mm_write c vmaid rgid off v"
  by (auto simp: mm_write_act_def mm_write_def check_act_def exec_pg_setval split: Option.bind_split sum.split)

definition call_out :: "pcb_t \<Rightarrow> (int \<times> console_line list \<times> pcb_t \<times> memphy_struct \<times> memphy_struct)
    \<Rightarrow> (int \<times> console_line list \<times> pcb_t) \<times> vmctx" where
  "call_out p = (\<lambda>(r, ls, p', ram, swp). ((r, ls, p'), ctx_of p' ram swp))"

lemma exec_give_back [simp]: "exec (give_back r ls p) c = Some ((r, ls, p\<lparr>mm := vmm c\<rparr>), c)"
  by (simp add: give_back_def)

lemma exec_pgalloc: "exec (pgalloc_act p sz rg) (ctx_of p ram swp) = map_option (call_out p) (pgalloc p ram swp sz rg)"
  by (auto simp: pgalloc_act_def pgalloc_def exec_mm_alloc call_out_def Let_def split: Option.bind_split)

lemma exec_pgfree: "exec (pgfree_act p rg) (ctx_of p ram swp) = map_option (call_out p) (pgfree_data p ram swp rg)"
  by (auto simp: pgfree_act_def pgfree_data_def call_out_def split: Option.bind_split)

lemma exec_dump [simp]:
  "exec dump_act c = do { (_, tbl) \<leftarrow> print_pgtbl (vmm c) 0 (-1); Some ((tbl, map MemLine (MEMPHY_dump (vram c))), c) }"
  by (auto simp: dump_act_def split: Option.bind_split)

lemma exec_pgread: "exec (pgread_act p a b d) (ctx_of p ram swp) = map_option (call_out p) (pgread p ram swp a b d)"
  by (auto simp: pgread_act_def pgread_def exec_mm_read call_out_def split: Option.bind_split option.split)

lemma exec_pgwrite: "exec (pgwrite_act p x a b) (ctx_of p ram swp) = map_option (call_out p) (pgwrite p ram swp x a b)"
  by (auto simp: pgwrite_act_def pgwrite_def exec_mm_write call_out_def split: Option.bind_split)

lemma exec_run: "exec (run_act p) (ctx_of p ram swp) = map_option (call_out p) (run p ram swp)"
proof -
  have "ctx_of (p\<lparr>pc := n\<rparr>) ram swp = ctx_of p ram swp" for n by simp
  then show ?thesis
    using exec_pgalloc [of "p\<lparr>pc := pc p + 1\<rparr>"] exec_pgfree [of "p\<lparr>pc := pc p + 1\<rparr>"] exec_pgread [of "p\<lparr>pc := pc p + 1\<rparr>"] exec_pgwrite [of "p\<lparr>pc := pc p + 1\<rparr>"]
    by (auto simp: run_act_def run_def Let_def call_out_def split: option.split ins_opcode_t.split)
qed

end
