(* ===== verification/Lock_Safe.thy ===== *)
theory Lock_Safe
  imports Lock_Calls
begin

text \<open>
  The collection of frames and the page fault are safe actions: their steps may be
  interleaved with those of other processors, and each process still finds in its memory
  what it would find alone.
\<close>

section \<open>What a step leaves alone\<close>

definition same_meta :: "mm_struct \<Rightarrow> mm_struct \<Rightarrow> bool" where
  "same_meta m m' \<longleftrightarrow> mmap m' = mmap m \<and> symrgtbl m' = symrgtbl m \<and> current_max_pgn m' = current_max_pgn m"

lemma same_meta_refl [simp]: "same_meta m m"
  and same_meta_trans: "same_meta m m1 \<Longrightarrow> same_meta m1 m2 \<Longrightarrow> same_meta m m2"
  by (simp_all add: same_meta_def)

definition pg_resident :: "mm_struct \<Rightarrow> int \<Rightarrow> bool" where
  "pg_resident m pgn \<longleftrightarrow> 0 \<le> pgn \<and> pgn \<le> current_max_pgn m \<and> PAGING_PAGE_PRESENT (pgd m (nat pgn))"

definition pg_swapped :: "mm_struct \<Rightarrow> int \<Rightarrow> bool" where
  "pg_swapped m pgn \<longleftrightarrow> 0 \<le> pgn \<and> pgn \<le> current_max_pgn m \<and> \<not> PAGING_PAGE_PRESENT (pgd m (nat pgn))"

lemma pages_of: "pgn \<in> resident c \<longleftrightarrow> pg_resident (vmm c) pgn" "pgn \<in> swapped c \<longleftrightarrow> pg_swapped (vmm c) pgn"
  by (auto simp: resident_def swapped_def mapped_def pg_resident_def pg_swapped_def pte_at_def)

text \<open>What \<open>same_view\<close> gives for the frames in hand and for the others.\<close>

lemma view_step:
  assumes "same_view (R \<union> A) (S \<union> B) c c'" and "knows c g"
  shows "others_kept R S c c'" "knows c' g" "same_meta (vmm c) (vmm c')"
    "frames (vram c') = frames (vram c)" "frames (vswp c') = frames (vswp c)"
    "f \<in> A \<Longrightarrow> f \<in> frames (vram c) \<Longrightarrow> 0 \<le> i \<Longrightarrow> i < 256 \<Longrightarrow> frame_byte (vram c') f i = frame_byte (vram c) f i"
proof -
  show "others_kept R S c c'" "same_meta (vmm c) (vmm c')" "frames (vram c') = frames (vram c)" "frames (vswp c') = frames (vswp c)"
    using assms(1) by (simp_all add: same_view_def others_kept_def same_meta_def)
  have "vdom c' = vdom c" "\<forall>a\<in>vdom c. vread c' a = vread c a"
    using assms(1) unfolding same_view_becomes view_becomes_def by (simp_all add: vdom_def)
  then show "knows c' g" using assms(2) by (simp add: knows_def)
  show "f \<in> A \<Longrightarrow> f \<in> frames (vram c) \<Longrightarrow> 0 \<le> i \<Longrightarrow> i < 256 \<Longrightarrow> frame_byte (vram c') f i = frame_byte (vram c) f i"
    using assms(1) by (simp add: same_view_def PAGING_PAGESZ_def)
qed

lemma hands_view:
  assumes "hands_ok R S hr hs c" and "vm_ok (R \<union> set hr) (S \<union> set hs) c'" and "same_view (R \<union> set hr) (S \<union> set hs) c c'"
  shows "hands_ok R S hr hs c'"
  using assms by (auto simp: hands_ok_def same_view_def zero_frames_def PAGING_PAGESZ_def)

lemma hands_more:
  assumes "hands_ok R S hr hs c" and "vm_ok (insert f (R \<union> set hr)) (S \<union> set hs) c'" and "same_view (R \<union> set hr) (S \<union> set hs) c c'"
    and "f \<in> frames (vram c)" "f \<notin> R \<union> set hr" and "\<And>i. 0 \<le> i \<Longrightarrow> i < 256 \<Longrightarrow> frame_byte (vram c') f i = 0"
  shows "hands_ok R S (f # hr) hs c'"
  using assms by (auto simp: hands_ok_def same_view_def zero_frames_def PAGING_PAGESZ_def)

section \<open>Collecting frames\<close>

definition short :: "int \<Rightarrow> bool" where
  "short r \<longleftrightarrow> r = ERR_LACK_MEM_RAM \<or> r = ERR_LACK_MEM_SWP"

lemma short_simps [simp]: "short ERR_LACK_MEM_RAM" "short ERR_LACK_MEM_SWP" "\<not> short 0"
  and short_neg: "short r \<Longrightarrow> r < 0"
  by (auto simp: short_def err_defs)

lemma safe_get_ram:
  "safe (\<lambda>(r, f) hr' hs' m' g'. m' = m \<and> g' = g \<and> hs' = hs
      \<and> (r = 0 \<and> (\<exists>x. f = Some x \<and> hr' = x # hr) \<or> r \<noteq> 0 \<and> hr' = hr)) get_ram hr hs m g"
  unfolding get_ram_def
proof (rule safe_once)
  fix R S c assume c: "hands_ok R S hr hs c" "vmm c = m" "knows c g"
  note vm = hands_vm [OF c(1)]
  show "\<exists>x c' hr' hs' g'. (case MEMPHY_get_freefp (vram c) of (r, f, ram1) \<Rightarrow> Some ((r, f), c\<lparr>vram := ram1\<rparr>)) = Some (x, c')
      \<and> hands_ok R S hr' hs' c' \<and> others_kept R S c c' \<and> knows c' g'
      \<and> (case x of (r, f) \<Rightarrow> \<lambda>hr' hs' m' g'. m' = m \<and> g' = g \<and> hs' = hs
        \<and> (r = 0 \<and> (\<exists>x. f = Some x \<and> hr' = x # hr) \<or> r \<noteq> 0 \<and> hr' = hr)) hr' hs' (vmm c') g'"
  proof (cases "free_fp_list (vram c)")
    case Nil
    with c show ?thesis by (intro exI [of _ "(-1, None)"] exI [of _ c] exI [of _ hr] exI [of _ hs] exI [of _ g]) (simp add: MEMPHY_get_freefp_def)
  next
    case (Cons f fl)
    let ?c = "c\<lparr>vram := (vram c)\<lparr>free_fp_list := fl, num_of_free_frame := num_of_free_frame (vram c) - 1\<rparr>\<rparr>"
    note t = take_free_frame [OF vm Cons]
    have "hands_ok R S (f # hr) hs ?c" by (rule hands_more [OF c(1) t(1,2,4,5,6)])
    with view_step [OF t(2) c(3)] Cons c(2) show ?thesis
      by (intro exI [of _ "(0, Some f)"] exI [of _ ?c] exI [of _ "f # hr"] exI [of _ hs] exI [of _ g]) (simp add: MEMPHY_get_freefp_def)
  qed
qed

lemma find_victim_fails:
  assumes "distinct (fifo_using_pgn m)" and "filter (\<lambda>p. p \<noteq> e) (fifo_using_pgn m) = []"
  shows "\<exists>v. find_victim_page m e = (-1, v, m)"
proof -
  have "fifo_using_pgn m = [] \<or> fifo_using_pgn m = [e]"
    using assms by (cases "fifo_using_pgn m"; cases "tl (fifo_using_pgn m)") (auto split: if_splits)
  then show ?thesis by (auto simp: find_victim_page_def)
qed

definition without :: "int \<Rightarrow> vmctx \<Rightarrow> vmctx" where
  "without v c = c\<lparr>vmm := (vmm c)\<lparr>fifo_using_pgn := remove1 v (fifo_using_pgn (vmm c)),
     num_of_fifo_using_pgn := num_of_fifo_using_pgn (vmm c) - 1\<rparr>\<rparr>"

lemma without_ok:
  assumes ok: "vm_ok R S c" and v: "v \<in> set (fifo_using_pgn (vmm c))"
  shows "vm_ok R S (without v c)" and "same_view R S c (without v c)"
proof -
  let ?c = "without v c"
  have sets: "mapped ?c = mapped c" "pte_at ?c = pte_at c" "vram ?c = vram c" "vswp ?c = vswp c"
    by (simp_all add: mapped_def pte_at_def fun_eq_iff without_def)
  then have sets2: "resident ?c = resident c" "swapped ?c = swapped c" "ram_frame ?c = ram_frame c" "swp_frame ?c = swp_frame c"
    by (simp_all add: resident_def swapped_def ram_frame_def swp_frame_def fun_eq_iff)
  have "0 < length (fifo_using_pgn (vmm c))" using v by (rule length_pos_if_in_set)
  then have n: "int (length (remove1 v (fifo_using_pgn (vmm c)))) = int (length (fifo_using_pgn (vmm c))) - 1"
    using v by (subst length_remove1) (simp add: of_nat_diff Suc_leI)
  have "set (remove1 v (fifo_using_pgn (vmm c))) \<subseteq> set (fifo_using_pgn (vmm c))" by (rule set_remove1_subset)
  with ok n show "vm_ok R S ?c" unfolding vm_ok_def sets sets2 by (auto simp: without_def)
  show "same_view R S c ?c" by (simp add: same_view_def sets vbyte_def sets2) (simp add: without_def)
qed

lemma evict_one_cases:
  assumes ok: "hands_ok R S hr hs c"
  obtains (frame) f c' where "evict_one c e = Some ((0, Some f), c')" "hands_ok R S (f # hr) hs c'" "same_view (R \<union> set hr) (S \<union> set hs) c c'"
  | (fails) r c' where "evict_one c e = Some ((r, None), c')" "short r" "hands_ok R S hr hs c'" "same_view (R \<union> set hr) (S \<union> set hs) c c'"
proof -
  let ?R = "R \<union> set hr" and ?S = "S \<union> set hs"
  note vm = hands_vm [OF ok]
  show ?thesis
  proof (cases "filter (\<lambda>p. p \<noteq> e) (fifo_using_pgn (vmm c)) = []")
    case True
    then obtain v where "find_victim_page (vmm c) e = (-1, v, vmm c)" using find_victim_fails vm_ok_fifo(1) [OF vm] by blast
    then have "evict_one c e = Some ((ERR_LACK_MEM_RAM, None), c)" by (simp add: evict_one_def)
    with fails ok show ?thesis by simp
  next
    case False
    obtain v where v: "v \<in> set (fifo_using_pgn (vmm c))" "v \<noteq> e"
      "find_victim_page (vmm c) e = (0, Some v, (vmm c)\<lparr>fifo_using_pgn := remove1 v (fifo_using_pgn (vmm c)),
       num_of_fifo_using_pgn := num_of_fifo_using_pgn (vmm c) - 1\<rparr>)"
      using find_victim_except [OF vm_ok_fifo(1) [OF vm] False] .
    have res: "v \<in> resident c" "0 \<le> v" "v < PAGING_MAX_PGN" using vm_ok_fifo_page [OF vm v(1)] by auto
    show ?thesis
    proof (cases "free_fp_list (vswp c)")
      case Nil
      then have "evict_one c e = Some ((ERR_LACK_MEM_SWP, None), without v c)"
        using v(3) res by (simp add: evict_one_def MEMPHY_get_freefp_def arr_simps without_def)
      with fails without_ok [OF vm v(1)] hands_view [OF ok] show ?thesis by simp
    next
      case (Cons sf fl)
      obtain ram3 swp2 c' where
        parts: "swap_cp_page (vram c) (ram_frame c v) ((vswp c)\<lparr>free_fp_list := fl, num_of_free_frame := num_of_free_frame (vswp c) - 1\<rparr>) sf
          = Some (0, vram c, swp2)" "MEMPHY_clean_frame (vram c) (ram_frame c v) = Some (0, ram3)"
        and c': "c' = c\<lparr>vmm := (vmm c)\<lparr>fifo_using_pgn := remove1 v (fifo_using_pgn (vmm c)),
            num_of_fifo_using_pgn := num_of_fifo_using_pgn (vmm c) - 1,
            pgd := (pgd (vmm c))(nat v := pte_set_swap (pte_at c v) SWPTYP sf)\<rparr>, vram := ram3, vswp := swp2\<rparr>"
        and ev: "vm_ok (insert (ram_frame c v) ?R) ?S c'" "same_view ?R ?S c c'" "ram_frame c v \<in> frames (vram c)" "ram_frame c v \<notin> ?R"
          "\<And>i. 0 \<le> i \<Longrightarrow> i < 256 \<Longrightarrow> frame_byte (vram c') (ram_frame c v) i = 0"
        by (rule evict_parts [OF vm v(1) Cons]) (rule that)
      have vf: "uint (PAGING_FPN (pgd (vmm c) (nat v))) = ram_frame c v" by (simp add: ram_frame_def pte_at_def)
      have "evict_one c e = Some ((0, Some (ram_frame c v)), c')"
        using v(3) res Cons parts by (simp add: evict_one_def Let_def MEMPHY_get_freefp_def arr_simps vf pte_at_def c')
      with frame hands_more [OF ok ev] ev(2) show ?thesis by blast
    qed
  qed
qed

lemma safe_evict:
  "safe (\<lambda>(r, f) hr' hs' m' g'. same_meta m m' \<and> g' = g \<and> hs' = hs
      \<and> (r = 0 \<and> (\<exists>x. f = Some x \<and> hr' = x # hr) \<or> short r \<and> hr' = hr)) (once (\<lambda>c. evict_one c e)) hr hs m g"
proof (rule safe_once)
  fix R S c assume c: "hands_ok R S hr hs c" "vmm c = m" "knows c g"
  from c(1) show "\<exists>x c' hr' hs' g'. evict_one c e = Some (x, c') \<and> hands_ok R S hr' hs' c' \<and> others_kept R S c c' \<and> knows c' g'
      \<and> (case x of (r, f) \<Rightarrow> \<lambda>hr' hs' m' g'. same_meta m m' \<and> g' = g \<and> hs' = hs
        \<and> (r = 0 \<and> (\<exists>x. f = Some x \<and> hr' = x # hr) \<or> short r \<and> hr' = hr)) hr' hs' (vmm c') g'"
  proof (cases rule: evict_one_cases [where e = e])
    case (frame f c')
    with view_step [OF frame(3) c(3)] c(2) show ?thesis
      by (intro exI [of _ "(0, Some f)"] exI [of _ c'] exI [of _ "f # hr"] exI [of _ hs] exI [of _ g]) simp
  next
    case (fails r c')
    with view_step [OF fails(4) c(3)] c(2) show ?thesis
      by (intro exI [of _ "(r, None)"] exI [of _ c'] exI [of _ hr] exI [of _ hs] exI [of _ g]) simp
  qed
qed

lemma safe_alloc_loop:
  "hr = frm @ lost \<Longrightarrow> same_meta m0 m \<Longrightarrow>
   safe (\<lambda>(r, frm') hr' hs' m' g'. same_meta m0 m' \<and> g' = g \<and> hs' = hs
      \<and> (r = 0 \<and> hr' = frm' @ lost \<and> length frm' = n + length frm \<or> short r)) (alloc_loop_act n frm e) hr hs m g"
proof (induction n arbitrary: hr frm m)
  case 0
  then show ?case by (simp add: safe_Ret)
next
  case (Suc n)
  let ?Q = "\<lambda>(r, frm') hr' hs' m' g'. same_meta m0 m' \<and> g' = g \<and> hs' = hs
      \<and> (r = 0 \<and> hr' = frm' @ lost \<and> length frm' = Suc n + length frm \<or> short r)"
  have go: "safe ?Q (alloc_loop_act n (x # frm) e) (x # hr) hs m' g" if "same_meta m0 m'" for x m'
    by (rule safe_conseq [OF Suc.IH [of "x # hr" "x # frm" m']]) (use Suc.prems that in auto)
  show ?case unfolding alloc_loop_act.simps
  proof (rule safe_bind [OF safe_get_ram], goal_cases)
    case (1 y hr1 hs1 m1 g1)
    obtain r f where y: "y = (r, f)" by (cases y)
    show ?case
    proof (cases "r = 0")
      case True
      with 1 y go [OF Suc.prems(2)] show ?thesis by auto
    next
      case False
      then have same: "hr1 = hr" "hs1 = hs" "m1 = m" "g1 = g" using 1 y by auto
      have "safe ?Q (act_bind (once (\<lambda>c. evict_one c e)) (\<lambda>(r, f). if r \<noteq> 0 then Ret (r, frm)
         else (case f of None \<Rightarrow> fault | Some fpn \<Rightarrow> alloc_loop_act n (fpn # frm) e))) hr hs m g"
      proof (rule safe_bind [OF safe_evict], goal_cases)
        case (1 y hr1 hs1 m1 g1)
        obtain r f where y: "y = (r, f)" by (cases y)
        have m1: "same_meta m0 m1" using 1 y same_meta_trans [OF Suc.prems(2)] by auto
        show ?case
        proof (cases "r = 0")
          case True
          with 1 y go [OF m1] show ?thesis by auto
        next
          case False
          with 1 y m1 show ?thesis by (auto intro!: safe_Ret)
        qed
      qed
      with False y same show ?thesis by simp
    qed
  qed
qed

lemma safe_alloc_pages:
  assumes "0 \<le> req"
  shows "safe (\<lambda>(num, frm) hr' hs' m' g'. same_meta m m' \<and> g' = g \<and> hs' = hs
      \<and> (num = req \<and> hr' = frm @ hr \<and> int (length frm) = req \<or> short num)) (alloc_pages_act req e) hr hs m g"
    (is "safe ?Q _ _ _ _ _")
  unfolding alloc_pages_act_def
proof (rule safe_bind [where Q = "\<lambda>_ hr' hs' m' g'. hr' = hr \<and> hs' = hs \<and> m' = m \<and> g' = g"], goal_cases)
  case 1
  show ?case by (rule safe_look) simp
next
  case (2 ramc hr1 hs1 m1 g1)
  then have same: "hr1 = hr" "hs1 = hs" "m1 = m" "g1 = g" by simp_all
  show ?case unfolding same
  proof (rule safe_bind [where Q = "\<lambda>_ hr' hs' m' g'. hr' = hr \<and> hs' = hs \<and> m' = m \<and> g' = g"], goal_cases)
    case 1
    show ?case by (rule safe_look) simp
  next
    case (2 y hr1 hs1 m1 g1)
    then have same: "hr1 = hr" "hs1 = hs" "m1 = m" "g1 = g" by simp_all
    have loop: "safe ?Q (act_bind (alloc_loop_act (nat req) [] e) (\<lambda>(r, frm). Ret (if r < 0 then r else req, frm))) hr hs m g"
    proof (rule safe_bind [OF safe_alloc_loop [OF append_Nil [symmetric] same_meta_refl]], goal_cases)
      case (1 z hr1 hs1 m1 g1)
      then show ?case using assms by (cases z) (auto intro!: safe_Ret dest: short_neg)
    qed
    have fail: "safe ?Q (Ret (ERR_LACK_MEM_RAM, [])) hr hs m g" "safe ?Q (Ret (ERR_LACK_MEM_SWP, [])) hr hs m g"
      by (auto intro!: safe_Ret)
    show ?case using loop fail by (cases y) (simp add: same Let_def)
  qed
qed

section \<open>Page faults\<close>

text \<open>
  Between the two steps of a page fault the victim is out of the FIFO list and a frame of swap
  is in hand. Put back, they give the state from which the whole fault would have started.
\<close>

definition unpick :: "int \<Rightarrow> int \<Rightarrow> vmctx \<Rightarrow> vmctx" where
  "unpick v sf c = c\<lparr>vmm := (vmm c)\<lparr>fifo_using_pgn := v # fifo_using_pgn (vmm c),
       num_of_fifo_using_pgn := num_of_fifo_using_pgn (vmm c) + 1\<rparr>,
     vswp := (vswp c)\<lparr>free_fp_list := sf # free_fp_list (vswp c), num_of_free_frame := num_of_free_frame (vswp c) + 1\<rparr>\<rparr>"

lemma unpick_ok:
  assumes ok: "hands_ok R S hr (sf # hs) c" and v: "pg_resident (vmm c) v" "v \<notin> set (fifo_using_pgn (vmm c))"
  shows "vm_ok (R \<union> set hr) (S \<union> set hs) (unpick v sf c)"
    and "frame_byte (vswp (unpick v sf c)) = frame_byte (vswp c)" "frames (vswp (unpick v sf c)) = frames (vswp c)"
    and "knows (unpick v sf c) g = knows c g"
proof -
  let ?c = "unpick v sf c"
  have vm: "vm_ok (R \<union> set hr) (S \<union> insert sf (set hs)) c" using hands_vm [OF ok] by simp
  have sf: "sf \<in> frames (vswp c)" "sf \<notin> S" "sf \<notin> set hs" using ok by (auto simp: hands_ok_def)
  have f: "pgd (vmm ?c) = pgd (vmm c)" "current_max_pgn (vmm ?c) = current_max_pgn (vmm c)" "vram ?c = vram c"
    "free_fp_list (vswp ?c) = sf # free_fp_list (vswp c)" "fifo_using_pgn (vmm ?c) = v # fifo_using_pgn (vmm c)"
    by (simp_all add: unpick_def)
  note sets = page_sets_cong [OF f(1,2)]
  show fb: "frame_byte (vswp ?c) = frame_byte (vswp c)" by (simp add: unpick_def frame_byte_def fun_eq_iff)
  show fr: "frames (vswp ?c) = frames (vswp c)" by (simp add: unpick_def frames_def)
  have free: "sf \<notin> set (free_fp_list (vswp c))" "sf \<notin> swp_frame c ` swapped c"
    using vm_ok_free(2) [OF vm] vm_ok_swp_used(2) [OF vm] by auto
  have dev: "dev_ok (vswp ?c)"
    using vm_ok_swp [OF vm] sf(1) free(1) by (auto simp: dev_ok_def unpick_def frames_def)
  have res: "v \<in> resident c" using v(1) by (simp add: pages_of)
  show "vm_ok (R \<union> set hr) (S \<union> set hs) ?c"
    using vm v(2) res dev sf free unfolding vm_ok_def sets f fr by (auto simp: unpick_def)
  have "vbyte ?c = vbyte c" by (simp add: vbyte_def sets f(3) fb fun_eq_iff)
  then show "knows ?c g = knows c g" by (simp add: knows_def vread_def vdom_def f(2))
qed

lemma unpick_over: "(unpick v sf c)\<lparr>vmm := x, vram := y, vswp := z\<rparr> = c\<lparr>vmm := x, vram := y, vswp := z\<rparr>"
  by (simp add: unpick_def)

lemma swap_in_unpick:
  assumes "pg_resident (vmm c) v" and "current_max_pgn (vmm c) < PAGING_MAX_PGN"
  shows "swap_in (unpick v sf c) pgn pte = exchange pgn pte (v, uint (PAGING_FPN (pgd (vmm c) (nat v))), sf) c"
proof -
  have v: "0 \<le> v" "v < PAGING_MAX_PGN" using assms by (auto simp: pg_resident_def)
  then have "find_victim_page (vmm (unpick v sf c)) (-1) = (0, Some v, vmm c)" by (simp add: find_victim_page_def unpick_def)
  moreover have "MEMPHY_get_freefp (vswp (unpick v sf c)) = (0, Some sf, vswp c)" by (simp add: MEMPHY_get_freefp_def unpick_def)
  moreover have "vram (unpick v sf c) = vram c" by (simp add: unpick_def)
  ultimately show ?thesis using v by (simp add: swap_in_def exchange_def Let_def arr_simps unpick_over)
qed

lemma safe_pick:
  "safe (\<lambda>r hr' hs' m' g'. same_meta m m' \<and> pgd m' = pgd m \<and> g' = g \<and> hr' = hr
      \<and> (case r of Inl e \<Rightarrow> (e = 1 \<or> e = 2) \<and> hs' = hs
         | Inr (v, vf, sf) \<Rightarrow> pg_resident m' v \<and> v \<notin> set (fifo_using_pgn m') \<and> vf = uint (PAGING_FPN (pgd m' (nat v))) \<and> hs' = sf # hs))
    (once pick_victim) hr hs m g"
proof (rule safe_once)
  fix R S c assume c: "hands_ok R S hr hs c" "vmm c = m" "knows c g"
  note vm = hands_vm [OF c(1)]
  let ?Q = "\<lambda>r hr' hs' m' g'. same_meta m m' \<and> pgd m' = pgd m \<and> g' = g \<and> hr' = hr
      \<and> (case r of Inl e \<Rightarrow> (e = (1::int) \<or> e = 2) \<and> hs' = hs
         | Inr (v, vf, sf) \<Rightarrow> pg_resident m' v \<and> v \<notin> set (fifo_using_pgn m') \<and> vf = uint (PAGING_FPN (pgd m' (nat v))) \<and> hs' = sf # hs)"
  show "\<exists>x c' hr' hs' g'. pick_victim c = Some (x, c') \<and> hands_ok R S hr' hs' c' \<and> others_kept R S c c' \<and> knows c' g'
      \<and> ?Q x hr' hs' (vmm c') g'"
  proof (cases "fifo_using_pgn (vmm c)")
    case Nil
    then have "pick_victim c = Some (Inl 1, c)" by (simp add: pick_victim_def find_victim_page_def)
    with c show ?thesis by (intro exI [of _ "Inl 1"] exI [of _ c] exI [of _ hr] exI [of _ hs] exI [of _ g]) simp
  next
    case (Cons v rest)
    have v: "v \<in> set (fifo_using_pgn (vmm c))" "remove1 v (fifo_using_pgn (vmm c)) = rest" "v \<notin> set rest"
      using Cons vm_ok_fifo(1) [OF vm] by simp_all
    have res: "v \<in> resident c" "0 \<le> v" "v < PAGING_MAX_PGN" using vm_ok_fifo_page [OF vm v(1)] by auto
    let ?d = "without v c"
    note d = without_ok [OF vm v(1)]
    have fv: "find_victim_page (vmm c) (-1) = (0, Some v, vmm ?d)" using Cons res(2) by (simp add: find_victim_page_def without_def)
    have dm: "pgd (vmm ?d) = pgd m" "fifo_using_pgn (vmm ?d) = rest" "vswp ?d = vswp c" "vram ?d = vram c"
      using c(2) v(2) by (simp_all add: without_def)
    have hd: "hands_ok R S hr hs ?d" by (rule hands_view [OF c(1) d])
    note vs = view_step [OF d(2) c(3)]
    have dd: "c\<lparr>vmm := vmm ?d\<rparr> = ?d" by (simp add: without_def)
    show ?thesis
    proof (cases "free_fp_list (vswp c)")
      case Nil
      have "pick_victim c = Some (Inl 2, c\<lparr>vmm := vmm ?d, vswp := vswp c\<rparr>)"
        using fv Nil res dm by (simp add: pick_victim_def MEMPHY_get_freefp_def arr_simps)
      then have "pick_victim c = Some (Inl 2, ?d)" by (simp add: without_def)
      with hd vs c(2) dm(1) show ?thesis
        by (intro exI [of _ "Inl 2"] exI [of _ ?d] exI [of _ hr] exI [of _ hs] exI [of _ g]) simp
    next
      case (Cons sf fl)
      let ?e = "?d\<lparr>vswp := (vswp c)\<lparr>free_fp_list := fl, num_of_free_frame := num_of_free_frame (vswp c) - 1\<rparr>\<rparr>"
      have run: "pick_victim c = Some (Inr (v, uint (PAGING_FPN (pgd m (nat v))), sf), ?e)"
        using fv Cons res dm c(2) by (simp add: pick_victim_def MEMPHY_get_freefp_def arr_simps)
      have vme: "vm_ok (R \<union> set hr) (S \<union> set (sf # hs)) ?e \<and> frames (vswp ?e) = frames (vswp c) \<and> frame_byte (vswp ?e) = frame_byte (vswp c)
          \<and> sf \<in> frames (vswp c) \<and> sf \<notin> S \<union> set hs \<and> vread ?e = vread ?d \<and> vdom ?e = vdom ?d"
      proof -
        have eq: "pgd (vmm ?e) = pgd (vmm ?d)" "current_max_pgn (vmm ?e) = current_max_pgn (vmm ?d)" by simp_all
        note sets = page_sets_cong [OF eq]
        have fr: "frames (vswp ?e) = frames (vswp c)" "frame_byte (vswp ?e) = frame_byte (vswp c)"
          by (simp_all add: frames_def frame_byte_def fun_eq_iff)
        have sf: "sf \<in> frames (vswp c)" "sf \<notin> S \<union> set hs" "sf \<notin> set fl" "sf \<notin> swp_frame ?d ` swapped ?d"
          using free_frames_in(2) [OF vm] vm_ok_free(2) [OF vm] vm_ok_swp [OF vm] vm_ok_swp_used(2) [OF d(1)] Cons dm(3)
          by (auto simp: dev_ok_def)
        have dev: "dev_ok (vswp ?e)" using vm_ok_swp [OF vm] Cons by (auto simp: dev_ok_def)
        have "vm_ok (R \<union> set hr) (S \<union> set (sf # hs)) ?e"
          using d(1) dev sf Cons unfolding vm_ok_def sets fr by (auto simp: dm)
        moreover have "vbyte ?e = vbyte ?d" by (simp add: vbyte_def sets fr dm fun_eq_iff)
        ultimately show ?thesis using fr sf by (simp add: vread_def vdom_def fun_eq_iff)
      qed
      have "hands_ok R S hr (sf # hs) ?e" using vme c(1) by (auto simp: hands_ok_def dm)
      moreover have "others_kept R S c ?e" using vme by (simp add: others_kept_def dm)
      moreover have "knows ?e g" using vme vs(2) by (simp add: knows_def)
      moreover have "pg_resident (vmm ?e) v" "same_meta m (vmm ?e)" "pgd (vmm ?e) = pgd m" "fifo_using_pgn (vmm ?e) = rest"
        using res(1) vs(3) dm c(2) by (simp_all add: pages_of pg_resident_def same_meta_def)
      ultimately show ?thesis using run v(3)
        by (intro exI [of _ "Inr (v, uint (PAGING_FPN (pgd m (nat v))), sf)"] exI [of _ ?e] exI [of _ hr] exI [of _ "sf # hs"] exI [of _ g]) simp
    qed
  qed
qed

lemma safe_exchange:
  assumes v: "pg_resident m v" "v \<notin> set (fifo_using_pgn m)" "vf = uint (PAGING_FPN (pgd m (nat v)))"
    and pgn: "pg_swapped m pgn" "pte = pgd m (nat pgn)"
  shows "safe (\<lambda>r hr' hs' m' g'. r = 0 \<and> same_meta m m' \<and> g' = g \<and> hr' = hr \<and> hs' = hs \<and> pg_resident m' pgn)
    (once (exchange pgn pte (v, vf, sf))) hr (sf # hs) m g"
proof (rule safe_once)
  fix R S c assume c: "hands_ok R S hr (sf # hs) c" "vmm c = m" "knows c g"
  let ?d = "unpick v sf c"
  note u = unpick_ok [OF c(1) v(1,2) [folded c(2)]]
  have max: "current_max_pgn (vmm c) < PAGING_MAX_PGN" using vm_ok_max [OF u(1)] by (simp add: unpick_def)
  have d: "pgd (vmm ?d) = pgd m" "current_max_pgn (vmm ?d) = current_max_pgn m" "vram ?d = vram c" "mmap (vmm ?d) = mmap m" "symrgtbl (vmm ?d) = symrgtbl m"
    by (simp_all add: unpick_def c(2))
  have sw: "pgn \<in> swapped ?d" using pgn(1) by (simp add: pages_of pg_swapped_def d)
  have run: "swap_in ?d pgn (pte_at ?d pgn) = exchange pgn pte (v, vf, sf) c"
    using swap_in_unpick [OF v(1) [folded c(2)] max] v(3) pgn(2) by (simp add: pte_at_def d c(2))
  from u(1) sw obtain c' where c': "swap_in ?d pgn (pte_at ?d pgn) = Some (0, c')" "vm_ok (R \<union> set hr) (S \<union> set hs) c'"
    "same_view (R \<union> set hr) (S \<union> set hs) ?d c'" "pgn \<in> resident c'"
    by (cases rule: swap_in_cases) (auto simp: unpick_def)
  have kd: "knows ?d g" using u(4) c(3) by simp
  note vs = view_step [OF c'(3) kd]
  have "hands_ok R S hr hs c'"
    using c(1) c'(2) vs(4,5) vs(6) by (auto simp: hands_ok_def zero_frames_def d u(3))
  moreover have "others_kept R S c c'" using vs(1) by (simp add: others_kept_def d u(2,3))
  moreover have "same_meta m (vmm c')" using vs(3) by (simp add: same_meta_def d)
  ultimately show "\<exists>x c' hr' hs' g'. exchange pgn pte (v, vf, sf) c = Some (x, c') \<and> hands_ok R S hr' hs' c' \<and> others_kept R S c c'
      \<and> knows c' g' \<and> (x = 0 \<and> same_meta m (vmm c') \<and> g' = g \<and> hr' = hr \<and> hs' = hs \<and> pg_resident (vmm c') pgn)"
    using run c'(1,4) vs(2)
    by (intro exI [of _ 0] exI [of _ c'] exI [of _ hr] exI [of _ hs] exI [of _ g]) (simp add: pages_of)
qed

lemma safe_swap_in:
  assumes pgn: "pg_swapped m pgn" "pte = pgd m (nat pgn)"
  shows "safe (\<lambda>r hr' hs' m' g'. same_meta m m' \<and> g' = g \<and> hr' = hr \<and> hs' = hs
    \<and> (r = 0 \<and> pg_resident m' pgn \<or> r = 1 \<or> r = 2)) (swap_in_act pgn pte) hr hs m g"
  unfolding swap_in_act_def
proof (rule safe_bind [OF safe_pick], goal_cases)
  case (1 r hr1 hs1 m1 g1)
  show ?case
  proof (cases r)
    case (Inl e)
    with 1 show ?thesis by (auto intro!: safe_Ret)
  next
    case (Inr x)
    obtain v vf sf where x: "x = (v, vf, sf)" by (cases x)
    have p: "pg_swapped m1 pgn" "pte = pgd m1 (nat pgn)" using pgn 1 by (simp_all add: pg_swapped_def same_meta_def)
    have h: "pg_resident m1 v" "v \<notin> set (fifo_using_pgn m1)" "vf = uint (PAGING_FPN (pgd m1 (nat v)))" "hs1 = sf # hs" "hr1 = hr" "g1 = g" "same_meta m m1"
      using 1 Inr x by simp_all
    show ?thesis unfolding Inr x sum.case h(4,5,6)
      by (rule safe_conseq [OF safe_exchange [OF h(1-3) p]]) (use same_meta_trans [OF h(7)] in auto)
  qed
qed

lemma safe_get_pte:
  assumes "0 \<le> pgn" "pgn < PAGING_MAX_PGN"
  shows "safe (\<lambda>pte hr' hs' m' g'. pte = pgd m (nat pgn) \<and> (pte = 0 \<longleftrightarrow> \<not> (pgn \<le> current_max_pgn m)) \<and> m' = m \<and> g' = g \<and> hr' = hr \<and> hs' = hs)
    (get_pte pgn) hr hs m g"
  unfolding get_pte_def
proof (rule safe_once)
  fix R S c assume c: "hands_ok R S hr hs c" "vmm c = m" "knows c g"
  have "pte_at c pgn = 0 \<longleftrightarrow> pgn \<notin> mapped c" by (rule vm_ok_pte [OF hands_vm [OF c(1)] assms])
  then have "pgd m (nat pgn) = 0 \<longleftrightarrow> \<not> (pgn \<le> current_max_pgn m)" using c(2) assms(1) by (simp add: pte_at_def mapped_def)
  with c assms show "\<exists>x c' hr' hs' g'. (do { pte \<leftarrow> arr_get PAGING_MAX_PGN (pgd (vmm c)) pgn; Some (pte, c) }) = Some (x, c')
      \<and> hands_ok R S hr' hs' c' \<and> others_kept R S c c' \<and> knows c' g'
      \<and> (x = pgd m (nat pgn) \<and> (x = 0 \<longleftrightarrow> \<not> (pgn \<le> current_max_pgn m)) \<and> vmm c' = m \<and> g' = g \<and> hr' = hr \<and> hs' = hs)"
    by (intro exI [of _ "pgd m (nat pgn)"] exI [of _ c] exI [of _ hr] exI [of _ hs] exI [of _ g]) (simp add: arr_simps)
qed

lemma safe_bring_to_ram:
  assumes "0 \<le> pgn" "pgn < PAGING_MAX_PGN"
  shows "safe (\<lambda>r hr' hs' m' g'. same_meta m m' \<and> g' = g \<and> hr' = hr \<and> hs' = hs \<and> (r = 0 \<or> short r)) (bring_to_ram_act pgn) hr hs m g"
  unfolding bring_to_ram_act_def
proof (rule safe_bind [OF safe_get_pte [OF assms]], goal_cases)
  case (1 pte hr1 hs1 m1 g1)
  then have e: "hr1 = hr" "hs1 = hs" "m1 = m" "g1 = g" "pte = pgd m (nat pgn)" by simp_all
  have max: "pte = 0 \<longleftrightarrow> \<not> (pgn \<le> current_max_pgn m)" using 1 by blast
  show ?case
  proof (cases "pte = 0 \<or> PAGING_PAGE_PRESENT pte")
    case True
    then show ?thesis by (auto intro!: safe_Ret simp: e)
  next
    case False
    then have sw: "pg_swapped m pgn" using max e(5) assms(1) by (simp add: pg_swapped_def)
    have "safe (\<lambda>r hr' hs' m' g'. same_meta m m' \<and> g' = g \<and> hr' = hr \<and> hs' = hs \<and> (r = 0 \<or> short r))
      (act_bind (swap_in_act pgn pte) (\<lambda>r. Ret (if r = 1 then ERR_LACK_MEM_RAM else if r = 2 then ERR_LACK_MEM_SWP else 0))) hr hs m g"
      by (rule safe_bind [OF safe_swap_in [OF sw e(5)]]) (auto intro!: safe_Ret)
    then show ?thesis using False by (simp add: e)
  qed
qed

lemma safe_getpage:
  assumes pgn: "0 \<le> pgn" "pgn < PAGING_MAX_PGN"
  shows "safe (\<lambda>(st, fpn) hr' hs' m' g'. same_meta m m' \<and> g' = g \<and> hr' = hr \<and> hs' = hs
      \<and> (st = 0 \<and> pg_resident m' pgn \<and> fpn = Some (uint (PAGING_FPN (pgd m' (nat pgn)))) \<or> st = ERR_SWAPPING \<or> st = ERR_INVALID_ACCESS \<and> \<not> pgn \<le> current_max_pgn m)) (pg_getpage_act pgn) hr hs m g"
    (is "safe ?Q _ _ _ _ _")
  unfolding pg_getpage_act_def
proof (rule safe_bind [OF safe_get_pte [OF pgn]], goal_cases)
  case (1 pte hr1 hs1 m1 g1)
  then have e: "hr1 = hr" "hs1 = hs" "m1 = m" "g1 = g" "pte = pgd m (nat pgn)" by simp_all
  have max: "pte = 0 \<longleftrightarrow> \<not> (pgn \<le> current_max_pgn m)" using 1 by blast
  show ?case
  proof (cases "pte = 0 \<or> PAGING_PAGE_PRESENT pte")
    case True
    have "pte \<noteq> 0 \<Longrightarrow> pg_resident m pgn" using True max e(5) pgn(1) by (simp add: pg_resident_def)
    with True show ?thesis by (auto intro!: safe_Ret simp: e max [symmetric])
  next
    case False
    then have sw: "pg_swapped m pgn" using max e(5) pgn(1) by (simp add: pg_swapped_def)
    have "safe ?Q (act_bind (swap_in_act pgn pte) (\<lambda>r. if r \<noteq> 0 then Ret (ERR_SWAPPING, None)
           else act_bind (get_pte pgn) (\<lambda>pte'. Ret (0, Some (uint (PAGING_FPN pte')))))) hr hs m g"
    proof (rule safe_bind [OF safe_swap_in [OF sw e(5)]], goal_cases)
      case (1 r hr2 hs2 m2 g2)
      show ?case
      proof (cases "r = 0")
        case True
        have "safe ?Q (act_bind (get_pte pgn) (\<lambda>pte'. Ret (0, Some (uint (PAGING_FPN pte'))))) hr2 hs2 m2 g2"
          by (rule safe_bind [OF safe_get_pte [OF pgn]]) (use 1 True in \<open>auto intro!: safe_Ret\<close>)
        with True show ?thesis by simp
      next
        case False
        with 1 show ?thesis by (auto intro!: safe_Ret)
      qed
    qed
    with False show ?thesis by (simp add: e)
  qed
qed

end
