(* ===== verification/Lock_Access.thy ===== *)
theory Lock_Access
  imports Lock_Safe
begin

text \<open>
  Access to a byte as a safe action. What an access does is stated over the bytes its own
  process sees: the effect is the one it has alone, whatever the other processors do
  between its steps.
\<close>

section \<open>Access to a byte\<close>

lemma hands_becomes:
  assumes "hands_ok R S hr hs c" and "vm_ok (R \<union> set hr) (S \<union> set hs) c'" and "view_becomes (R \<union> set hr) (S \<union> set hs) c f c'"
    and "\<And>a. a \<in> vdom c \<Longrightarrow> f a = g a"
  shows "hands_ok R S hr hs c'" "others_kept R S c c'" "same_meta (vmm c) (vmm c')" "knows c' g"
proof -
  show "hands_ok R S hr hs c'" using assms(1-3) by (auto simp: hands_ok_def view_becomes_def zero_frames_def PAGING_PAGESZ_def)
  show "others_kept R S c c'" "same_meta (vmm c) (vmm c')" using assms(3) by (auto simp: others_kept_def view_becomes_def same_meta_def)
  have "vdom c' = vdom c" using assms(3) by (simp add: vdom_def view_becomes_def)
  then show "knows c' g" using assms(3,4) by (simp add: knows_def view_becomes_def)
qed

text \<open>The frame and the address of a byte whose page is in RAM.\<close>

lemma resident_byte:
  assumes vm: "vm_ok R S c" and res: "pg_resident (vmm c) (a div 256)" and "knows c g"
  defines "phy \<equiv> uint (PAGING_FPN (pgd (vmm c) (nat (a div 256)))) * 256 + a mod 256"
  shows "MEMPHY_read (Some (vram c)) phy = Some (0, Some (g a), Some (vram c))"
    and "MEMPHY_write (Some (vram c)) phy v = Some (0, Some (vram (poke c a v)))"
    and "a \<in> vdom c" "a div 256 \<in> resident c"
proof -
  show r: "a div 256 \<in> resident c" using res by (simp add: pages_of)
  then show dom: "a \<in> vdom c" using resident_mapped by (simp add: vdom_page)
  have f: "ram_frame c (a div 256) \<in> frames (vram c)" by (rule ram_frame_in [OF vm r])
  have phy: "phy = ram_frame c (a div 256) * 256 + a mod 256" by (simp add: phy_def ram_frame_def pte_at_def)
  have "vread c a = storage (vram c) (nat phy)"
    using resident_present [OF r] by (simp add: vread_def vbyte_def frame_byte_def PAGING_PAGESZ_def phy)
  then have "storage (vram c) (nat phy) = g a" using assms(3) dom by (simp add: knows_def)
  then show "MEMPHY_read (Some (vram c)) phy = Some (0, Some (g a), Some (vram c))"
    using MEMPHY_read_ok [OF vm_ok_ram [OF vm]] frame_address [OF f, of "a mod 256"] by (simp add: phy)
  show "MEMPHY_write (Some (vram c)) phy v = Some (0, Some (vram (poke c a v)))"
    using MEMPHY_write_ok [OF vm_ok_ram [OF vm]] frame_address [OF f, of "a mod 256"] by (simp add: phy poke_def)
qed

lemma page_of_address:
  assumes "0 \<le> a" "a < 2 ^ 22"
  shows "uint (PAGING_PGN (u32_of_int a)) = a div 256" "uint (PAGING_OFFST (u32_of_int a)) = a mod 256"
    "0 \<le> a div 256" "a div 256 < PAGING_MAX_PGN"
  using assms by (auto simp: uint_PGN_of_int uint_OFFST_of_int PAGING_MAX_PGN_def)

lemma safe_getval:
  assumes a: "0 \<le> a" "a < 2 ^ 22" "a div 256 \<le> current_max_pgn m"
  shows "safe (\<lambda>(st, v) hr' hs' m' g'. same_meta m m' \<and> g' = g \<and> hr' = hr \<and> hs' = hs
      \<and> (st = 0 \<and> v = Some (g a) \<or> st = ERR_SWAPPING \<and> v = None)) (pg_getval_act a) hr hs m g"
    (is "safe ?Q _ _ _ _ _")
  unfolding pg_getval_act_def Let_def page_of_address [OF a(1,2)]
proof (rule safe_bind [OF safe_getpage [OF page_of_address(3,4) [OF a(1,2)]]], goal_cases)
  case (1 x hr1 hs1 m1 g1)
  obtain st fpn where x: "x = (st, fpn)" by (cases x)
  have e: "g1 = g" "hr1 = hr" "hs1 = hs" "same_meta m m1" using 1 x by auto
  show ?case
  proof (cases "st = 0")
    case True
    then have p: "pg_resident m1 (a div 256)" "fpn = Some (uint (PAGING_FPN (pgd m1 (nat (a div 256)))))"
      using 1 x by (auto simp: err_defs)
    have "safe ?Q (once (\<lambda>c. do { f \<leftarrow> fpn;
        (_, data, ram) \<leftarrow> MEMPHY_read (Some (vram c)) (f * PAGING_PAGESZ + a mod 256);
        ram1 \<leftarrow> ram; Some ((0, data), c\<lparr>vram := ram1\<rparr>) })) hr hs m1 g"
    proof (rule safe_look)
      fix R S c assume c: "hands_ok R S hr hs c" "vmm c = m1" "knows c g"
      note b = resident_byte [OF hands_vm [OF c(1)] p(1) [folded c(2)] c(3)]
      show "\<exists>x. (do { f \<leftarrow> fpn; (_, data, ram) \<leftarrow> MEMPHY_read (Some (vram c)) (f * PAGING_PAGESZ + a mod 256);
        ram1 \<leftarrow> ram; Some ((0, data), c\<lparr>vram := ram1\<rparr>) }) = Some (x, c) \<and> ?Q x hr hs m1 g"
        using b(1) p(2) e(4) c(2) by (intro exI [of _ "(0, Some (g a))"]) (simp add: PAGING_PAGESZ_def)
    qed
    with True show ?thesis by (simp add: x e)
  next
    case False
    with 1 x a(3) show ?thesis by (auto intro!: safe_Ret simp: same_meta_def)
  qed
qed

lemma safe_setval:
  assumes a: "0 \<le> a" "a < 2 ^ 22" "a div 256 \<le> current_max_pgn m"
  shows "safe (\<lambda>st hr' hs' m' g'. same_meta m m' \<and> hr' = hr \<and> hs' = hs
      \<and> (st = 0 \<and> g' = g(a := v) \<or> st = ERR_SWAPPING \<and> g' = g)) (pg_setval_act a v) hr hs m g"
    (is "safe ?Q _ _ _ _ _")
  unfolding pg_setval_act_def Let_def page_of_address [OF a(1,2)]
proof (rule safe_bind [OF safe_getpage [OF page_of_address(3,4) [OF a(1,2)]]], goal_cases)
  case (1 x hr1 hs1 m1 g1)
  obtain st fpn where x: "x = (st, fpn)" by (cases x)
  have e: "g1 = g" "hr1 = hr" "hs1 = hs" "same_meta m m1" using 1 x by auto
  show ?case
  proof (cases "st = 0")
    case True
    then have p: "pg_resident m1 (a div 256)" "fpn = Some (uint (PAGING_FPN (pgd m1 (nat (a div 256)))))"
      using 1 x by (auto simp: err_defs)
    have "safe ?Q (once (\<lambda>c. do { f \<leftarrow> fpn;
        (_, ram) \<leftarrow> MEMPHY_write (Some (vram c)) (f * PAGING_PAGESZ + a mod 256) v;
        ram1 \<leftarrow> ram; Some (0, c\<lparr>vram := ram1\<rparr>) })) hr hs m1 g"
    proof (rule safe_once)
      fix R S c assume c: "hands_ok R S hr hs c" "vmm c = m1" "knows c g"
      note vm = hands_vm [OF c(1)]
      note b = resident_byte [OF vm p(1) [folded c(2)] c(3)]
      have k: "((vread c)(a := v)) b = (g(a := v)) b" if "b \<in> vdom c" for b using c(3) that by (simp add: knows_def)
      note h = hands_becomes [OF c(1) poke_ok(1,2) [OF vm b(4), of v], of "g(a := v)", OF k]
      have "c\<lparr>vram := vram (poke c a v)\<rparr> = poke c a v" by (simp add: poke_def)
      then show "\<exists>x c' hr' hs' g'. (do { f \<leftarrow> fpn; (_, ram) \<leftarrow> MEMPHY_write (Some (vram c)) (f * PAGING_PAGESZ + a mod 256) v;
        ram1 \<leftarrow> ram; Some (0, c\<lparr>vram := ram1\<rparr>) }) = Some (x, c') \<and> hands_ok R S hr' hs' c' \<and> others_kept R S c c' \<and> knows c' g'
        \<and> ?Q x hr' hs' (vmm c') g'"
        using b(2) [of v] p(2) e(4) c(2) h same_meta_trans [OF e(4)]
        by (intro exI [of _ 0] exI [of _ "poke c a v"] exI [of _ hr] exI [of _ hs] exI [of _ "g(a := v)"]) (simp add: PAGING_PAGESZ_def)
    qed
    with True show ?thesis by (simp add: x e)
  next
    case False
    with 1 x a(3) show ?thesis by (auto intro!: safe_Ret simp: same_meta_def)
  qed
qed

lemma hands_mm:
  assumes "hands_ok R S hr hs c" and "vmm c = m" and "regions_ok m"
  shows "mm_ok (R \<union> set hr) (S \<union> set hs) c"
  using hands_vm [OF assms(1)] assms(2,3) by (simp add: mm_ok_def)

lemma vdom_max: "a \<in> vdom c \<longleftrightarrow> 0 \<le> a \<and> a div 256 \<le> current_max_pgn (vmm c)"
  by (auto simp: vdom_page mapped_def)

lemma safe_check:
  assumes "regions_ok m" and "rgid \<noteq> PAGING_MAX_SYMTBL_SZ" and "- (2 ^ 31) \<le> off" "off < 2 ^ 31"
  shows "safe (\<lambda>x hr' hs' m' g'. m' = m \<and> g' = g \<and> hr' = hr \<and> hs' = hs \<and> check_access m 0 rgid off = Some x
      \<and> (case x of Inl e \<Rightarrow> e \<noteq> 0 | Inr a \<Rightarrow> 0 \<le> a \<and> a < 2 ^ 22 \<and> a div 256 \<le> current_max_pgn m)) (check_act 0 rgid off) hr hs m g"
  unfolding check_act_def
proof (rule safe_look)
  fix R S c assume c: "hands_ok R S hr hs c" "vmm c = m" "knows c g"
  from hands_mm [OF c(1,2) assms(1)] assms(2-4)
  show "\<exists>x. (do { r \<leftarrow> check_access (vmm c) 0 rgid off; Some (r, c) }) = Some (x, c) \<and> (m = m \<and> g = g \<and> hr = hr \<and> hs = hs
      \<and> check_access m 0 rgid off = Some x \<and> (case x of Inl e \<Rightarrow> e \<noteq> 0 | Inr a \<Rightarrow> 0 \<le> a \<and> a < 2 ^ 22 \<and> a div 256 \<le> current_max_pgn m))"
    by (cases rule: check_access_total) (auto simp: c(2) vdom_max)
qed

text \<open>What a read and a write do to the bytes the process sees.\<close>

definition read_effect :: "mm_struct \<Rightarrow> (int \<Rightarrow> u8) \<Rightarrow> int \<Rightarrow> int \<Rightarrow> int \<Rightarrow> u8 option \<Rightarrow> bool" where
  "read_effect m g rgid off st v \<longleftrightarrow>
     (case check_access m 0 rgid off of
        Some (Inl e) \<Rightarrow> st = e \<and> v = None \<and> e \<noteq> 0
      | Some (Inr a) \<Rightarrow> st = 0 \<and> v = Some (g a) \<or> st = ERR_SWAPPING \<and> v = None
      | None \<Rightarrow> False)"

definition write_effect :: "mm_struct \<Rightarrow> (int \<Rightarrow> u8) \<Rightarrow> int \<Rightarrow> int \<Rightarrow> u8 \<Rightarrow> int \<Rightarrow> (int \<Rightarrow> u8) \<Rightarrow> bool" where
  "write_effect m g rgid off v st g' \<longleftrightarrow>
     (case check_access m 0 rgid off of
        Some (Inl e) \<Rightarrow> st = e \<and> g' = g \<and> e \<noteq> 0
      | Some (Inr a) \<Rightarrow> st = 0 \<and> g' = g(a := v) \<or> st = ERR_SWAPPING \<and> g' = g
      | None \<Rightarrow> False)"

lemma safe_mm_read:
  assumes "regions_ok m" and "rgid \<noteq> PAGING_MAX_SYMTBL_SZ" and "- (2 ^ 31) \<le> off" "off < 2 ^ 31"
  shows "safe (\<lambda>(st, v) hr' hs' m' g'. same_meta m m' \<and> g' = g \<and> hr' = hr \<and> hs' = hs \<and> read_effect m g rgid off st v)
    (mm_read_act 0 rgid off) hr hs m g" (is "safe ?Q _ _ _ _ _")
  unfolding mm_read_act_def
proof (rule safe_bind [OF safe_check [OF assms]], goal_cases)
  case (1 x hr1 hs1 m1 g1)
  then have e: "m1 = m" "g1 = g" "hr1 = hr" "hs1 = hs" and chk: "check_access m 0 rgid off = Some x"
    and x: "case x of Inl e \<Rightarrow> e \<noteq> 0 | Inr a \<Rightarrow> 0 \<le> a \<and> a < 2 ^ 22 \<and> a div 256 \<le> current_max_pgn m" by simp_all
  show ?case
  proof (cases x)
    case (Inl r)
    with x chk show ?thesis by (auto intro!: safe_Ret simp: e read_effect_def)
  next
    case (Inr a)
    then have a: "0 \<le> a" "a < 2 ^ 22" "a div 256 \<le> current_max_pgn m" using x by simp_all
    show ?thesis unfolding e Inr sum.case
      by (rule safe_conseq [OF safe_getval [OF a]]) (use chk Inr in \<open>auto simp: read_effect_def\<close>)
  qed
qed

lemma safe_mm_write:
  assumes "regions_ok m" and "rgid \<noteq> PAGING_MAX_SYMTBL_SZ" and "- (2 ^ 31) \<le> off" "off < 2 ^ 31"
  shows "safe (\<lambda>st hr' hs' m' g'. same_meta m m' \<and> hr' = hr \<and> hs' = hs \<and> write_effect m g rgid off v st g')
    (mm_write_act 0 rgid off v) hr hs m g" (is "safe ?Q _ _ _ _ _")
  unfolding mm_write_act_def
proof (rule safe_bind [OF safe_check [OF assms]], goal_cases)
  case (1 x hr1 hs1 m1 g1)
  then have e: "m1 = m" "g1 = g" "hr1 = hr" "hs1 = hs" and chk: "check_access m 0 rgid off = Some x"
    and x: "case x of Inl e \<Rightarrow> e \<noteq> 0 | Inr a \<Rightarrow> 0 \<le> a \<and> a < 2 ^ 22 \<and> a div 256 \<le> current_max_pgn m" by simp_all
  show ?case
  proof (cases x)
    case (Inl r)
    with x chk show ?thesis by (auto intro!: safe_Ret simp: e write_effect_def)
  next
    case (Inr a)
    then have a: "0 \<le> a" "a < 2 ^ 22" "a div 256 \<le> current_max_pgn m" using x by simp_all
    show ?thesis unfolding e Inr sum.case
      by (rule safe_conseq [OF safe_setval [OF a]]) (use chk Inr in \<open>auto simp: write_effect_def\<close>)
  qed
qed

end
