(* ===== verification/Lock_Grow.thy ===== *)
theory Lock_Grow
  imports Lock_Access
begin

text \<open>
  Growing, allocating and releasing as safe actions: the frames collected become pages of
  zeros, the other bytes stay, and regions never overlap, however many processors allocate
  at the same moment.
\<close>

section \<open>Growing the area\<close>

text \<open>The bytes after \<open>n\<close> pages have been added: the new ones are zero.\<close>

definition grown :: "mm_struct \<Rightarrow> (int \<Rightarrow> u8) \<Rightarrow> int \<Rightarrow> u8" where
  "grown m g = (\<lambda>a. if a div 256 \<le> current_max_pgn m then g a else 0)"

lemma safe_map_frames:
  assumes n: "int (length frm) = n" "1 \<le> n" "current_max_pgn m + n < PAGING_MAX_PGN"
    and start: "mapstart = PAGING_PAGESZ * (current_max_pgn m + 1)"
  shows "safe (\<lambda>r hr' hs' m' g'. r = 0 \<and> hr' = lost \<and> hs' = hs \<and> current_max_pgn m' = current_max_pgn m + n
      \<and> mmap m' = mmap m \<and> symrgtbl m' = symrgtbl m \<and> g' = grown m g) (once (map_frames mapstart n frm)) (frm @ lost) hs m g"
proof (rule safe_once)
  fix R S c assume c: "hands_ok R S (frm @ lost) hs c" "vmm c = m" "knows c g"
  note vm = hands_vm [OF c(1)]
  have vm': "vm_ok (set frm \<union> (R \<union> set lost)) (S \<union> set hs) c" using vm by (simp add: Un_ac)
  have h: "distinct frm" "set frm \<subseteq> frames (vram c) - (R \<union> set lost)" "distinct lost" "set lost \<subseteq> frames (vram c) - R"
    "zero_frames (vram c) (frm @ lost)" "distinct hs" "set hs \<subseteq> frames (vswp c) - S"
    using c(1) by (auto simp: hands_ok_def)
  have max: "-1 \<le> current_max_pgn m" using vm_ok_max [OF vm] c(2) by simp
  then have mp: "uint (PAGING_PGN (u32_of_int mapstart)) = current_max_pgn m + 1"
    using n by (simp add: start uint_PGN_of_int PAGING_PAGESZ_def PAGING_MAX_PGN_def)
  obtain m' where m': "vmap_loop m (current_max_pgn m + 1) 0 frm = Some m'" "vm_ok (R \<union> set lost) (S \<union> set hs) (c\<lparr>vmm := m'\<rparr>)"
     "current_max_pgn m' = current_max_pgn m + n" "mmap m' = mmap m" "symrgtbl m' = symrgtbl m"
     "\<forall>q\<in>mapped c. vbyte (c\<lparr>vmm := m'\<rparr>) q = vbyte c q"
     "\<forall>j<length frm. vbyte (c\<lparr>vmm := m'\<rparr>) (current_max_pgn m + 1 + int j) = frame_byte (vram c) (frm ! j)"
    using vmap_loop_ok [OF vm' h(1,2), of "current_max_pgn m + 1" 0] n c(2) by auto
  obtain u where u: "snd (MEMPHY_concat_usedfp (vram c) frm) = (vram c)\<lparr>used_fp_list := u\<rparr>"
    using concat_usedfp_ram by blast
  let ?c = "c\<lparr>vmm := m', vram := (vram c)\<lparr>used_fp_list := u\<rparr>\<rparr>"
  have run: "map_frames mapstart n frm c = Some (0, ?c)"
    using m'(1) c(2) u n(2) by (simp add: map_frames_def vmap_page_range_def mp)
  have ok: "vm_ok (R \<union> set lost) (S \<union> set hs) ?c"
    using m'(2) vm_ok_used [where c = "c\<lparr>vmm := m'\<rparr>" and u = u] by simp
  have fb: "frame_byte (vram ?c) = frame_byte (vram c)" "frames (vram ?c) = frames (vram c)" "vswp ?c = vswp c"
    by (simp_all add: frame_byte_def frames_def fun_eq_iff)
  have v: "vbyte ?c = vbyte (c\<lparr>vmm := m'\<rparr>)"
    by (simp add: vbyte_def fun_eq_iff frame_byte_def pte_at_def ram_frame_def swp_frame_def)
  have "hands_ok R S lost hs ?c" using ok h fb by (auto simp: hands_ok_def zero_frames_def)
  moreover have "others_kept R S c ?c" using fb by (simp add: others_kept_def)
  moreover have "vread ?c a = grown m g a" if a: "a \<in> vdom ?c" for a
  proof (cases "a div 256 \<le> current_max_pgn m")
    case True
    then have dom: "a \<in> vdom c" using a c(2) by (simp add: vdom_max)
    then have "vread ?c a = vread c a" using m'(6) by (simp add: vread_def v vdom_page PAGING_PAGESZ_def)
    then show ?thesis using True dom c(3) by (simp add: grown_def knows_def)
  next
    case False
    let ?j = "nat (a div 256 - (current_max_pgn m + 1))"
    have j: "?j < length frm" "current_max_pgn m + 1 + int ?j = a div 256"
      using a False m'(3) n(1) by (auto simp: vdom_max)
    then have "vbyte ?c (a div 256) = frame_byte (vram c) (frm ! ?j)" using m'(7) v by metis
    moreover have "frm ! ?j \<in> set frm" using j(1) by simp
    ultimately show ?thesis using h(5) False by (simp add: vread_def PAGING_PAGESZ_def zero_frames_def grown_def)
  qed
  then have "knows ?c (grown m g)" by (simp add: knows_def)
  ultimately show "\<exists>x c' hr' hs' g'. map_frames mapstart n frm c = Some (x, c') \<and> hands_ok R S hr' hs' c' \<and> others_kept R S c c' \<and> knows c' g'
      \<and> (x = 0 \<and> hr' = lost \<and> hs' = hs \<and> current_max_pgn (vmm c') = current_max_pgn m + n
      \<and> mmap (vmm c') = mmap m \<and> symrgtbl (vmm c') = symrgtbl m \<and> g' = grown m g)"
    using run m'(3-5)
    by (intro exI [of _ 0] exI [of _ ?c] exI [of _ lost] exI [of _ hs] exI [of _ "grown m g"]) simp
qed

lemma safe_vm_map_ram:
  assumes a: "0 \<le> astart" "astart < 2 ^ 22"
    and n: "1 \<le> n" "current_max_pgn m + n < PAGING_MAX_PGN"
    and start: "mapstart = PAGING_PAGESZ * (current_max_pgn m + 1)"
  shows "safe (\<lambda>r hr' hs' m' g'. hs' = hs \<and> mmap m' = mmap m \<and> symrgtbl m' = symrgtbl m
      \<and> (r = 0 \<and> hr' = hr \<and> current_max_pgn m' = current_max_pgn m + n \<and> g' = grown m g
         \<or> short r \<and> current_max_pgn m' = current_max_pgn m \<and> g' = g)) (vm_map_ram_act astart mapstart n) hr hs m g"
    (is "safe ?Q _ _ _ _ _")
  unfolding vm_map_ram_act_def Let_def page_of_address [OF a]
proof (rule safe_bind [OF safe_bring_to_ram [OF page_of_address(3,4) [OF a]]], goal_cases)
  case (1 r hr1 hs1 m1 g1)
  then have e: "g1 = g" "hr1 = hr" "hs1 = hs" "same_meta m m1" and r: "r = 0 \<or> short r" by auto
  show ?case
  proof (cases "r = 0")
    case False
    with r e show ?thesis by (auto intro!: safe_Ret simp: same_meta_def)
  next
    case True
    have "safe ?Q (act_bind (alloc_pages_act n (astart div 256))
        (\<lambda>(num, frm). if num < 0 then Ret num else once (map_frames mapstart num frm))) hr hs m1 g"
    proof (rule safe_bind [OF safe_alloc_pages], goal_cases)
      case 1
      then show ?case using n(1) by simp
    next
      case (2 x hr2 hs2 m2 g2)
      obtain num frm where x: "x = (num, frm)" by (cases x)
      have e2: "g2 = g" "hs2 = hs" "same_meta m m2" using 2 x same_meta_trans [OF e(4)] by auto
      have num: "num = n \<and> hr2 = frm @ hr \<and> int (length frm) = n \<or> short num" using 2 x by auto
      show ?case
      proof (cases "short num")
        case True
        then show ?thesis using e2 short_neg [OF True] by (auto intro!: safe_Ret simp: x same_meta_def)
      next
        case False
        then have f: "num = n" "hr2 = frm @ hr" "int (length frm) = n" using num by simp_all
        have c2: "current_max_pgn m2 = current_max_pgn m" using e2(3) by (simp add: same_meta_def)
        have s: "mapstart = PAGING_PAGESZ * (current_max_pgn m2 + 1)" "current_max_pgn m2 + n < PAGING_MAX_PGN"
          using start n c2 by simp_all
        have "safe ?Q (once (map_frames mapstart n frm)) (frm @ hr) hs m2 g"
          by (rule safe_conseq [OF safe_map_frames [OF f(3) n(1) s(2,1)]])
            (use e2(3) in \<open>auto simp: same_meta_def grown_def\<close>)
        then show ?thesis using f e2 n(1) by (simp add: x)
      qed
    qed
    with True show ?thesis by (simp add: e)
  qed
qed

section \<open>Allocation\<close>

lemma safe_increase_vma_limit:
  assumes rok: "regions_ok m" and m: "mmap m = [vma]" and sz: "0 \<le> sz" "uint (sbrk vma) + sz \<le> 2 ^ 22"
    and grow: "uint (vm_end vma) < uint (sbrk vma) + sz"
  defines "d \<equiv> uint (sbrk vma) + sz - uint (vm_end vma)"
  defines "n \<equiv> (d + 255) div 256"
  shows "safe (\<lambda>r hr' hs' m' g'. hs' = hs \<and> mmap m' = mmap m \<and> symrgtbl m' = symrgtbl m
      \<and> (r = 0 \<and> hr' = hr \<and> current_max_pgn m' = current_max_pgn m + n \<and> g' = grown m g
         \<or> short r \<and> current_max_pgn m' = current_max_pgn m \<and> g' = g)) (increase_vma_limit_act 0 d sz) hr hs m g"
    and "PAGING_PAGE_ALIGNSZ d = Some (n * 256)" "1 \<le> n" "current_max_pgn m + n < PAGING_MAX_PGN"
    and "uint (sbrk vma) + sz \<le> 256 * (current_max_pgn m + 1 + n)"
proof -
  note new = new_pages [OF rok m sz grow, folded d_def, folded n_def]
  show "PAGING_PAGE_ALIGNSZ d = Some (n * 256)" "1 \<le> n" "current_max_pgn m + n < PAGING_MAX_PGN"
    "uint (sbrk vma) + sz \<le> 256 * (current_max_pgn m + 1 + n)" by (rule new)+
  show "safe (\<lambda>r hr' hs' m' g'. hs' = hs \<and> mmap m' = mmap m \<and> symrgtbl m' = symrgtbl m
      \<and> (r = 0 \<and> hr' = hr \<and> current_max_pgn m' = current_max_pgn m + n \<and> g' = grown m g
         \<or> short r \<and> current_max_pgn m' = current_max_pgn m \<and> g' = g)) (increase_vma_limit_act 0 d sz) hr hs m g"
    (is "safe ?Q _ _ _ _ _")
    unfolding increase_vma_limit_act_def
  proof (rule safe_bind [where Q = "\<lambda>x hr' hs' m' g'. x = (uint (sbrk vma), PAGING_PAGESZ * (current_max_pgn m + 1), n)
      \<and> hr' = hr \<and> hs' = hs \<and> m' = m \<and> g' = g"], goal_cases)
    case 1
    show ?case
    proof (rule safe_look)
      fix R S :: "int set" and c :: vmctx assume c: "vmm c = m"
      have "grow_args 0 d sz c = Some ((uint (sbrk vma), PAGING_PAGESZ * (current_max_pgn m + 1), n), c)"
        using m new(1,3,7) new_brk(2) [OF sz]
        by (simp add: grow_args_def create_vm_rg_of_pcb_at_brk_def Let_def c)
      then show "\<exists>x. grow_args 0 d sz c = Some (x, c) \<and> (x = (uint (sbrk vma), PAGING_PAGESZ * (current_max_pgn m + 1), n)
          \<and> hr = hr \<and> hs = hs \<and> m = m \<and> g = g)" by blast
    qed
  next
    case (2 x hr1 hs1 m1 g1)
    then have x: "x = (uint (sbrk vma), PAGING_PAGESZ * (current_max_pgn m + 1), n)" and e: "hr1 = hr" "hs1 = hs" "m1 = m" "g1 = g" by simp_all
    show ?case unfolding x e prod.case
      by (rule safe_bind [OF safe_vm_map_ram [OF uint_ge_0 new(6,2,4) refl]]) (auto intro!: safe_Ret dest: short_neg)
  qed
qed

text \<open>The start of \<open>__alloc\<close> needs nothing but the areas and symbols of the process.\<close>

lemma alloc_start_cases:
  assumes rok: "regions_ok (vmm c)" and m: "mmap (vmm c) = [vma]" and rgid: "0 \<le> rgid" "rgid < 30"
    and sz: "0 \<le> sz" "uint (sbrk vma) + sz \<le> 2 ^ 22"
  obtains (finished) m' where "alloc_start 0 rgid sz c = Some (Inl 0, c\<lparr>vmm := m'\<rparr>)" "pgd m' = pgd (vmm c)"
      "current_max_pgn m' = current_max_pgn (vmm c)" "fifo_using_pgn m' = fifo_using_pgn (vmm c)"
      "num_of_fifo_using_pgn m' = num_of_fifo_using_pgn (vmm c)"
  | (grow) "alloc_start 0 rgid sz c = Some (Inr (uint (sbrk vma), uint (sbrk vma) + sz - uint (vm_end vma), 0), c)"
      "uint (vm_end vma) < uint (sbrk vma) + sz"
proof -
  note len = regions_vma(6) [OF rok m] and brk = new_brk [OF sz]
  from rok m sz show ?thesis
  proof (cases rule: get_free_vmrg_area_cases)
    case (fits s e fl)
    let ?m = "(vmm c)\<lparr>mmap := [vma\<lparr>vm_freerg_list := fl\<rparr>],
      symrgtbl := (symrgtbl (vmm c))[nat rgid := \<lparr>rg_start = s, rg_end = e, valid = 1\<rparr>]\<rparr>"
    have "alloc_start 0 rgid sz c = Some (Inl 0, c\<lparr>vmm := ?m\<rparr>)" using fits(1) m len rgid by (simp add: alloc_start_def set_vma_def set_symbol_put)
    then show ?thesis by (rule finished) simp_all
  next
    case (none x)
    show ?thesis
    proof (cases "sbrk vma + ulong_of_int sz \<le> vm_end vma")
      case True
      let ?e = "sbrk vma + ulong_of_int sz"
      let ?m = "(vmm c)\<lparr>symrgtbl := (symrgtbl (vmm c))[nat rgid := \<lparr>rg_start = sbrk vma, rg_end = ?e, valid = 1\<rparr>],
        mmap := [vma\<lparr>sbrk := ?e\<rparr>]\<rparr>"
      have "alloc_start 0 rgid sz c = Some (Inl 0, c\<lparr>vmm := ?m\<rparr>)" using none True m len rgid by (simp add: alloc_start_def set_vma_def set_symbol_put Let_def)
      then show ?thesis by (rule finished) simp_all
    next
      case False
      then have g: "uint (vm_end vma) < uint (sbrk vma) + sz" using brk(1) by (simp add: word_le_def)
      with none m False brk(2) brk(4) [OF g] show ?thesis by (intro grow) (simp_all add: alloc_start_def Let_def)
    qed
  qed
qed

text \<open>What an allocation does to the symbols and to the bytes the process sees.\<close>

definition alloc_effect :: "mm_struct \<Rightarrow> (int \<Rightarrow> u8) \<Rightarrow> int \<Rightarrow> int \<Rightarrow> int \<Rightarrow> mm_struct \<Rightarrow> (int \<Rightarrow> u8) \<Rightarrow> bool" where
  "alloc_effect m g rgid sz r m' g' \<longleftrightarrow>
     (if r = 0 then
        (\<exists>s e. symrgtbl m' = (symrgtbl m)[nat rgid := \<lparr>rg_start = s, rg_end = e, valid = 1\<rparr>] \<and> uint e = uint s + sz)
        \<and> current_max_pgn m \<le> current_max_pgn m'
        \<and> (\<forall>a. 0 \<le> a \<longrightarrow> a div 256 \<le> current_max_pgn m' \<longrightarrow> g' a = grown m g a)
      else short r \<and> same_meta m m' \<and> g' = g)"

lemma safe_alloc_start:
  assumes rok: "regions_ok m" and m: "mmap m = [vma]" and rgid: "0 \<le> rgid" "rgid < 30"
    and sz: "0 \<le> sz" "uint (sbrk vma) + sz \<le> 2 ^ 22"
  shows "safe (\<lambda>x hr' hs' m' g'. hr' = hr \<and> hs' = hs \<and> g' = g
      \<and> (x = Inl 0 \<and> regions_ok m' \<and> alloc_effect m g rgid sz 0 m' g
         \<or> x = Inr (uint (sbrk vma), uint (sbrk vma) + sz - uint (vm_end vma), 0) \<and> m' = m \<and> uint (vm_end vma) < uint (sbrk vma) + sz))
    (once (alloc_start 0 rgid sz)) hr hs m g"
proof (rule safe_once)
  fix R S c assume c: "hands_ok R S hr hs c" "vmm c = m" "knows c g"
  let ?Q = "\<lambda>x hr' hs' m' g'. hr' = hr \<and> hs' = hs \<and> g' = g
      \<and> (x = Inl (0::int) \<and> regions_ok m' \<and> alloc_effect m g rgid sz 0 m' g
         \<or> x = Inr (uint (sbrk vma), uint (sbrk vma) + sz - uint (vm_end vma), 0::nat) \<and> m' = m \<and> uint (vm_end vma) < uint (sbrk vma) + sz)"
  have cm: "regions_ok (vmm c)" "mmap (vmm c) = [vma]" using rok m c(2) by simp_all
  note ok = hands_mm [OF c(1,2) rok]
  from cm rgid sz show "\<exists>x c' hr' hs' g'. alloc_start 0 rgid sz c = Some (x, c') \<and> hands_ok R S hr' hs' c' \<and> others_kept R S c c' \<and> knows c' g'
      \<and> ?Q x hr' hs' (vmm c') g'"
  proof (cases rule: alloc_start_cases)
    case (finished m')
    let ?c = "c\<lparr>vmm := m'\<rparr>"
    note meta = meta_change [OF finished(2-5)]
    have "exec (mm_alloc_act 0 rgid sz) c = Some (0, ?c)" by (simp add: mm_alloc_act_def finished(1))
    then obtain x where x: "mm_alloc c 0 rgid sz = Some (0, x, ?c)" by (auto simp: exec_mm_alloc)
    from ok cm(2) rgid sz have al: "mm_ok (R \<union> set hr) (S \<union> set hs) ?c \<and> allocated (R \<union> set hr) (S \<union> set hs) c rgid sz ?c"
      by (cases rule: mm_alloc_cases) (use x in \<open>auto simp: err_defs\<close>)
    have "hands_ok R S hr hs ?c" using c(1) al by (simp add: hands_ok_def mm_ok_def)
    moreover have "knows ?c g" using c(3) by (simp add: knows_def meta)
    moreover have "alloc_effect m g rgid sz 0 m' g"
      using al finished(3) c(2) by (auto simp: alloc_effect_def allocated_def grown_def)
    ultimately show ?thesis using finished(1) al
      by (intro exI [of _ "Inl 0"] exI [of _ ?c] exI [of _ hr] exI [of _ hs] exI [of _ g]) (simp add: mm_ok_def)
  next
    case grow
    with c show ?thesis
      by (intro exI [of _ "Inr (uint (sbrk vma), uint (sbrk vma) + sz - uint (vm_end vma), 0)"] exI [of _ c] exI [of _ hr] exI [of _ hs] exI [of _ g]) simp
  qed
qed

lemma safe_alloc_end:
  assumes rok: "regions_ok m" and m: "mmap m = [vma]" and rgid: "0 \<le> rgid" "rgid < 30"
    and sz: "0 \<le> sz" "uint (sbrk vma) + sz \<le> 2 ^ 22" and d: "PAGING_PAGE_ALIGNSZ d = Some (n * 256)"
    and n: "0 \<le> n" "current_max_pgn m + n < PAGING_MAX_PGN" "uint (sbrk vma) + sz \<le> 256 * (current_max_pgn m + 1 + n)"
    and m1: "mmap m1 = mmap m" "symrgtbl m1 = symrgtbl m" "current_max_pgn m1 = current_max_pgn m + n"
  shows "safe (\<lambda>r hr' hs' m' g'. r = 0 \<and> hr' = hr \<and> hs' = hs \<and> regions_ok m' \<and> alloc_effect m g rgid sz 0 m' g')
    (once (alloc_end rgid sz (uint (sbrk vma), d, 0))) hr hs m1 (grown m g)"
proof (rule safe_once)
  fix R S c assume c: "hands_ok R S hr hs c" "vmm c = m1" "knows c (grown m g)"
  let ?e = "sbrk vma + ulong_of_int sz"
  let ?m = "m1\<lparr>symrgtbl := (symrgtbl m)[nat rgid := \<lparr>rg_start = sbrk vma, rg_end = ?e, valid = 1\<rparr>],
    mmap := [vma\<lparr>sbrk := ?e, vm_end := vm_end vma + ulong_of_int (n * 256)\<rparr>]\<rparr>"
  let ?c = "c\<lparr>vmm := ?m\<rparr>"
  note regions = regions_grown [OF rok m rgid sz n m1(3)]
  have meta: "vm_ok R' S' ?c = vm_ok R' S' c" "vread ?c = vread c" "vdom ?c = vdom c" for R' S'
    by (rule meta_change; simp add: c(2))+
  have len: "int (length (symrgtbl m1)) = 30" using regions_vma(6) [OF rok m] m1(2) by simp
  have words: "ulong_of_int (uint (sbrk vma)) = sbrk vma" "ulong_of_int (uint (sbrk vma) + sz) = ?e"
    by (simp_all add: conv_simps)
  have run: "alloc_end rgid sz (uint (sbrk vma), d, 0) c = Some (0, ?c)"
    using c(2) new_brk(3) [OF sz] words d m m1(1,2) len rgid by (simp add: alloc_end_def set_vma_def set_symbol_put Let_def)
  have "hands_ok R S hr hs ?c" using c(1) by (simp add: hands_ok_def meta)
  moreover have "knows ?c (grown m g)" using c(3) by (simp add: knows_def meta)
  moreover have "alloc_effect m g rgid sz 0 ?m (grown m g)"
    using regions(2) m1(3) n(1) by (auto simp: alloc_effect_def)
  ultimately show "\<exists>x c' hr' hs' g'. alloc_end rgid sz (uint (sbrk vma), d, 0) c = Some (x, c') \<and> hands_ok R S hr' hs' c'
      \<and> others_kept R S c c' \<and> knows c' g'
      \<and> (x = 0 \<and> hr' = hr \<and> hs' = hs \<and> regions_ok (vmm c') \<and> alloc_effect m g rgid sz 0 (vmm c') g')"
    using run regions(1)
    by (intro exI [of _ 0] exI [of _ ?c] exI [of _ hr] exI [of _ hs] exI [of _ "grown m g"]) simp
qed

lemma regions_ok_meta: "same_meta m m' \<Longrightarrow> regions_ok m' = regions_ok m"
  by (simp add: same_meta_def regions_ok_def owners_def)

lemma safe_mm_alloc:
  assumes rok: "regions_ok m" and rgid: "0 \<le> rgid" "rgid < 30"
    and sz: "0 \<le> sz" "uint (sbrk (hd (mmap m))) + sz \<le> 2 ^ 22"
  shows "safe (\<lambda>r hr' hs' m' g'. hs' = hs \<and> regions_ok m' \<and> alloc_effect m g rgid sz r m' g' \<and> (r = 0 \<longrightarrow> hr' = hr))
    (mm_alloc_act 0 rgid sz) hr hs m g" (is "safe ?Q _ _ _ _ _")
proof -
  obtain vma where m: "mmap m = [vma]" using rok by (auto simp: regions_ok_def)
  have sz': "uint (sbrk vma) + sz \<le> 2 ^ 22" using sz(2) m by simp
  show ?thesis unfolding mm_alloc_act_def
  proof (rule safe_bind [OF safe_alloc_start [OF rok m rgid sz(1) sz']], goal_cases)
    case (1 x hr1 hs1 m1 g1)
    then have e: "hr1 = hr" "hs1 = hs" "g1 = g" by simp_all
    show ?case
    proof (cases x)
      case (Inl r)
      with 1 show ?thesis by (auto intro!: safe_Ret)
    next
      case (Inr v)
      let ?d = "uint (sbrk vma) + sz - uint (vm_end vma)"
      have v: "v = (uint (sbrk vma), ?d, 0)" "m1 = m" and g: "uint (vm_end vma) < uint (sbrk vma) + sz" using 1 Inr by auto
      note inc = safe_increase_vma_limit [OF rok m sz(1) sz' g]
      have "safe ?Q (act_bind (increase_vma_limit_act 0 ?d sz) (\<lambda>increase_status.
        if increase_status < 0 then Ret increase_status else once (alloc_end rgid sz v))) hr hs m g"
      proof (rule safe_bind [OF inc(1)], goal_cases)
        case (1 r hr2 hs2 m2 g2)
        then have e2: "hs2 = hs" "mmap m2 = mmap m" "symrgtbl m2 = symrgtbl m" by simp_all
        show ?case
        proof (cases "short r")
          case True
          then have "current_max_pgn m2 = current_max_pgn m" "g2 = g" using 1 by auto
          then have "same_meta m m2" "g2 = g" using e2 by (simp_all add: same_meta_def)
          then have "?Q r hr2 hs m2 g2" using True rok regions_ok_meta by (auto simp: alloc_effect_def)
          then show ?thesis using True short_neg e2(1) by (auto intro: safe_Ret)
        next
          case False
          then have r: "r = 0" "hr2 = hr" "current_max_pgn m2 = current_max_pgn m + (?d + 255) div 256" "g2 = grown m g" using 1 by auto
          have "0 \<le> (?d + 255) div 256" using inc(3) by linarith
          note safe_alloc_end [OF rok m rgid sz(1) sz' inc(2) this inc(4,5) e2(2,3) r(3)]
          then have "safe ?Q (once (alloc_end rgid sz v)) hr hs m2 (grown m g)"
            unfolding v by (rule safe_conseq) simp
          with r e2 show ?thesis by simp
        qed
      qed
      then show ?thesis unfolding Inr sum.case e v fst_conv snd_conv .
    qed
  qed
qed

section \<open>Release\<close>

definition free_effect :: "mm_struct \<Rightarrow> int \<Rightarrow> int \<Rightarrow> mm_struct \<Rightarrow> bool" where
  "free_effect m rgid r m' \<longleftrightarrow>
     (if 0 \<le> rgid \<and> rgid < PAGING_MAX_SYMTBL_SZ
      then r = 0 \<and> current_max_pgn m' = current_max_pgn m
        \<and> symrgtbl m' = (symrgtbl m)[nat rgid := (symrgtbl m ! nat rgid)\<lparr>valid := 0\<rparr>]
      else r = -1 \<and> m' = m)"

lemma safe_mm_free:
  assumes rok: "regions_ok m" and rgid: "rgid \<noteq> PAGING_MAX_SYMTBL_SZ"
    and v: "0 \<le> rgid \<and> rgid < PAGING_MAX_SYMTBL_SZ \<longrightarrow> valid (symrgtbl m ! nat rgid) \<noteq> 0"
  shows "safe (\<lambda>r hr' hs' m' g'. g' = g \<and> hr' = hr \<and> hs' = hs \<and> regions_ok m' \<and> free_effect m rgid r m')
    (once (\<lambda>c. mm_free c 0 rgid)) hr hs m g"
proof (rule safe_once)
  fix R S c assume c: "hands_ok R S hr hs c" "vmm c = m" "knows c g"
  note ok = hands_mm [OF c(1,2) rok]
  show "\<exists>x c' hr' hs' g'. mm_free c 0 rgid = Some (x, c') \<and> hands_ok R S hr' hs' c' \<and> others_kept R S c c' \<and> knows c' g'
      \<and> (g' = g \<and> hr' = hr \<and> hs' = hs \<and> regions_ok (vmm c') \<and> free_effect m rgid x (vmm c'))"
  proof (cases "0 \<le> rgid \<and> rgid < PAGING_MAX_SYMTBL_SZ")
    case False
    then have "mm_free c 0 rgid = Some (-1, c)" using rgid by (auto simp: mm_free_def PAGING_MAX_SYMTBL_SZ_def)
    with False c rok show ?thesis
      by (intro exI [of _ "-1"] exI [of _ c] exI [of _ hr] exI [of _ hs] exI [of _ g]) (auto simp: free_effect_def)
  next
    case True
    have r: "0 \<le> rgid" "rgid < 30" "valid (symrgtbl (vmm c) ! nat rgid) \<noteq> 0"
      using True v c(2) by (simp_all add: PAGING_MAX_SYMTBL_SZ_def)
    obtain c' where c': "mm_free c 0 rgid = Some (0, c')" "mm_ok (R \<union> set hr) (S \<union> set hs) c'" "vread c' = vread c" "vdom c' = vdom c"
      "others_kept (R \<union> set hr) (S \<union> set hs) c c'"
      "symrgtbl (vmm c') = (symrgtbl (vmm c))[nat rgid := (symrgtbl (vmm c) ! nat rgid)\<lparr>valid := 0\<rparr>]"
      by (rule mm_free_spec [OF ok r])
    have "hands_ok R S hr hs c'" using c(1) c'(2,5)
      by (auto simp: hands_ok_def mm_ok_def others_kept_def zero_frames_def PAGING_PAGESZ_def)
    moreover have "others_kept R S c c'" using c'(5) by (auto simp: others_kept_def)
    moreover have "knows c' g" using c(3) c'(3,4) by (simp add: knows_def)
    moreover have "current_max_pgn (vmm c') = current_max_pgn m"
    proof -
      have "\<forall>a. 0 \<le> a \<and> a div 256 \<le> current_max_pgn (vmm c') \<longleftrightarrow> 0 \<le> a \<and> a div 256 \<le> current_max_pgn (vmm c)"
        using c'(4) vdom_max by blast
      then have "0 \<le> p \<and> p \<le> current_max_pgn (vmm c') \<longleftrightarrow> 0 \<le> p \<and> p \<le> current_max_pgn (vmm c)" for p
        by (auto dest: spec [of _ "256 * p"])
      moreover have "-1 \<le> current_max_pgn (vmm c')" "-1 \<le> current_max_pgn (vmm c)"
        using vm_ok_max c'(2) ok by (auto simp: mm_ok_def)
      ultimately show ?thesis using c(2) by (smt (verit))
    qed
    ultimately show ?thesis using c' c(2) True
      by (intro exI [of _ 0] exI [of _ c'] exI [of _ hr] exI [of _ hs] exI [of _ g]) (simp add: free_effect_def mm_ok_def)
  qed
qed

end
