(* ===== verification/Lock_Run.thy ===== *)
theory Lock_Run
  imports Lock_Grow
begin

text \<open>One instruction of \<open>src/cpu.c\<close> as a safe action, with its effect on the process and its bytes.\<close>

section \<open>One instruction\<close>

text \<open>
  What an instruction prints, written down without the calls that print it. A failing call
  names the process, the line of its program (the first line of the file holds the
  priority and the size) and the reason. A read or a write prints its arguments and its
  byte, the page table, and the bytes of RAM that are not zero: in this dump, which shows
  the frames of all processes, the process finds its own bytes at the frames of its pages.
\<close>

definition failure :: "pcb_t \<Rightarrow> string \<Rightarrow> console_line list" where
  "failure p what = [OsError (int_of_u32 (pid p)) (int_of_u32 (pc p + 2)) what]"

definition alloc_lines :: "pcb_t \<Rightarrow> int \<Rightarrow> console_line list" where
  "alloc_lines p r =
     (if r = 0 then []
      else if r = ERR_LACK_MEM_RAM then failure p ''new region is too large to fit all in RAM, cannot allocate!''
      else failure p ''ran out of SWAP memory, cannot allocate!'')"

definition access_lines :: "pcb_t \<Rightarrow> int \<Rightarrow> string \<Rightarrow> console_line list" where
  "access_lines p r act =
     (if r = 0 then []
      else if r = ERR_INVALID_ACCESS then failure p (''accessed invalid memory address, cannot '' @ act @ ''!'')
      else if r = ERR_SWAPPING then failure p (''cannot bring required memory region from SWAP to RAM, cannot '' @ act @ ''!'')
      else failure p (''undefined error, cannot '' @ act @ ''!''))"

text \<open>The page numbers wrap around when all 16384 pages are mapped: then no entry is printed.\<close>

definition table_lines :: "mm_struct \<Rightarrow> console_line list" where
  "table_lines m = PgtblLine (PgtblRange 0 (u32_of_int (256 * (current_max_pgn m + 1))))
     # map (\<lambda>i. PgtblLine (PteLine (4 * i) (pgd m (nat i)))) [0..(current_max_pgn m + 1) mod 16384 - 1]"

definition dump_shows :: "mm_struct \<Rightarrow> (int \<Rightarrow> u8) \<Rightarrow> console_line list \<Rightarrow> bool" where
  "dump_shows m g ls \<longleftrightarrow> (\<exists>d. ls = map MemLine d \<and>
     (\<forall>a x. 0 \<le> a \<longrightarrow> a div 256 \<le> current_max_pgn m \<longrightarrow> PAGING_PAGE_PRESENT (pgd m (nat (a div 256))) \<longrightarrow>
        (OffsetByte (256 * uint (PAGING_FPN (pgd m (nat (a div 256)))) + a mod 256) x \<in> set d \<longleftrightarrow> x = sint (g a) \<and> g a \<noteq> 0)))"

text \<open>
  The effect of an instruction on the process, on the bytes \<open>g\<close> it sees and on the
  console: the one it has alone, except that it may fail for want of a frame or a victim.
\<close>

definition ins_effect :: "pcb_t \<Rightarrow> (int \<Rightarrow> u8) \<Rightarrow> inst_t \<Rightarrow> int \<Rightarrow> console_line list \<Rightarrow> mm_struct \<Rightarrow> (int \<Rightarrow> u8) \<Rightarrow> bool" where
  "ins_effect p g ins r ls m' g' =
     (case opcode ins of
        CALC \<Rightarrow> r = 0 \<and> ls = [] \<and> m' = mm p \<and> g' = g
      | ALLOC \<Rightarrow> alloc_effect (mm p) g (int_of_u32 (arg_1 ins)) (int_of_u32 (arg_0 ins)) r m' g' \<and> ls = alloc_lines p r
      | FREE \<Rightarrow> free_effect (mm p) (int_of_u32 (arg_0 ins)) r m' \<and> ls = [] \<and> g' = g
      | READ \<Rightarrow> same_meta (mm p) m' \<and> g' = g \<and> (\<exists>v dump. read_effect (mm p) g (int_of_u32 (arg_0 ins)) (int_of_u32 (arg_1 ins)) r v
          \<and> ls = ReadLine (int_of_u32 (arg_0 ins)) (int_of_u32 (arg_1 ins)) (map_option sint v)
              # table_lines m' @ dump @ access_lines p r ''read'' \<and> dump_shows m' g dump)
      | WRITE \<Rightarrow> same_meta (mm p) m' \<and> write_effect (mm p) g (int_of_u32 (arg_1 ins)) (int_of_u32 (arg_2 ins)) (char_of_u32 (arg_0 ins)) r g'
          \<and> (\<exists>dump. ls = WriteLine (int_of_u32 (arg_1 ins)) (int_of_u32 (arg_2 ins)) (sint (char_of_u32 (arg_0 ins)))
              # table_lines (mm p) @ dump @ access_lines p r ''write'' \<and> dump_shows (mm p) g dump))"

definition call_effect :: "pcb_t \<Rightarrow> (int \<Rightarrow> u8) \<Rightarrow> int \<Rightarrow> console_line list \<Rightarrow> pcb_t \<Rightarrow> (int \<Rightarrow> u8) \<Rightarrow> bool" where
  "call_effect p g r ls p' g' \<longleftrightarrow>
     (if pc p \<ge> code_size (code p) then r = 1 \<and> ls = [] \<and> p' = p \<and> g' = g
      else p' = p\<lparr>pc := pc p + 1, mm := mm p'\<rparr> \<and> ins_effect p g (code_text (code p) ! unat (pc p)) r ls (mm p') g')"

lemma safe_give_back:
  "safe (\<lambda>x hr' hs' m' g'. x = (r, ls, p\<lparr>mm := m\<rparr>) \<and> hr' = hr \<and> hs' = hs \<and> m' = m \<and> g' = g) (give_back r ls p) hr hs m g"
  unfolding give_back_def by (rule safe_look) simp

lemma print_pgtbl_table:
  assumes "regions_ok m" and "-1 \<le> current_max_pgn m" and "current_max_pgn m < PAGING_MAX_PGN"
  shows "print_pgtbl m 0 (-1) = Some (0, table_lines m)"
proof -
  obtain vma where m: "mmap m = [vma]" using assms(1) by (auto simp: regions_ok_def)
  let ?n = "current_max_pgn m + 1"
  have n: "0 \<le> 256 * ?n" "256 * ?n < 2 ^ 32" using assms(2,3) by (simp_all add: PAGING_MAX_PGN_def)
  have e: "ucast (vm_end vma) = u32_of_int (256 * ?n)"
    unfolding regions_vma(2) [OF assms(1) m, symmetric] conv_simps by (rule of_int_uint [symmetric])
  have "uint (PAGING_PGN (u32_of_int (256 * ?n))) = ?n mod 16384" using n by (simp add: uint_PGN_of_int)
  moreover have "uint (PAGING_PGN 0) = 0" by (simp add: uint_PGN)
  ultimately show ?thesis by (simp add: print_pgtbl_def table_lines_def m e mult.commute)
qed

lemma dump_set:
  assumes "0 \<le> f" "0 \<le> i" "f * 256 + i < maxsz mp"
  shows "OffsetByte (256 * f + i) x \<in> set (MEMPHY_dump mp) \<longleftrightarrow> x = sint (frame_byte mp f i) \<and> frame_byte mp f i \<noteq> 0"
proof -
  define k where "k = nat (f * 256 + i)"
  have k: "256 * f + i = int k" "nat (f * PAGING_PAGESZ + i) = k" "k < nat (maxsz mp)"
    using assms by (simp_all add: k_def PAGING_PAGESZ_def)
  show ?thesis unfolding k(1) frame_byte_def k(2) using k(3) by (auto simp: MEMPHY_dump_def)
qed

lemma dump_own:
  assumes c: "vm_ok R S c" and g: "knows c g"
  shows "dump_shows (vmm c) g (map MemLine (MEMPHY_dump (vram c)))"
  unfolding dump_shows_def
proof (intro exI conjI allI impI)
  fix a x assume a: "0 \<le> a" "a div 256 \<le> current_max_pgn (vmm c)" and pres: "PAGING_PAGE_PRESENT (pgd (vmm c) (nat (a div 256)))"
  have res: "a div 256 \<in> resident c" using a pres by (simp add: resident_def mapped_def pte_at_def)
  have "vread c a = g a" using g a by (simp add: knows_def vdom_max)
  then have byte: "frame_byte (vram c) (ram_frame c (a div 256)) (a mod 256) = g a"
    using pres by (simp add: vread_def vbyte_def PAGING_PAGESZ_def pte_at_def)
  have "ram_frame c (a div 256) \<in> frames (vram c)" by (rule ram_frame_in [OF c res])
  then have f: "0 \<le> ram_frame c (a div 256)" "ram_frame c (a div 256) * 256 + a mod 256 < maxsz (vram c)"
    by (auto simp: frames_def PAGING_PAGESZ_def)
  from dump_set [OF f(1) _ f(2), of x] byte
  show "OffsetByte (256 * uint (PAGING_FPN (pgd (vmm c) (nat (a div 256)))) + a mod 256) x \<in> set (MEMPHY_dump (vram c))
    \<longleftrightarrow> x = sint (g a) \<and> g a \<noteq> 0" by (simp add: ram_frame_def pte_at_def)
qed simp

lemma safe_dump:
  assumes "regions_ok m"
  shows "safe (\<lambda>x hr' hs' m' g'. hr' = hr \<and> hs' = hs \<and> m' = m \<and> g' = g \<and> fst x = table_lines m \<and> dump_shows m g (snd x))
    dump_act hr hs m g"
  unfolding dump_act_def
proof (rule safe_bind [where Q = "\<lambda>x hr' hs' m' g'. hr' = hr \<and> hs' = hs \<and> m' = m \<and> g' = g \<and> x = table_lines m"], goal_cases)
  case 1
  show ?case
  proof (rule safe_look)
    fix R S c assume c: "hands_ok R S hr hs c" "vmm c = m" "knows c g"
    have "print_pgtbl m 0 (-1) = Some (0, table_lines m)"
      using print_pgtbl_table [OF assms] vm_ok_max [OF hands_vm [OF c(1)]] c(2) by simp
    then show "\<exists>x. (do { (_, tbl) \<leftarrow> print_pgtbl (vmm c) 0 (-1); Some (tbl, c) }) = Some (x, c)
      \<and> (hr = hr \<and> hs = hs \<and> m = m \<and> g = g \<and> x = table_lines m)" by (simp add: c(2))
  qed
next
  case (2 x hr1 hs1 m1 g1)
  then show ?case using dump_own [OF hands_vm] by (intro safe_look) auto
qed

definition run_post :: "pcb_t \<Rightarrow> (int \<Rightarrow> u8) \<Rightarrow> int list \<Rightarrow> int \<times> console_line list \<times> pcb_t \<Rightarrow> int list \<Rightarrow> int list
    \<Rightarrow> mm_struct \<Rightarrow> (int \<Rightarrow> u8) \<Rightarrow> bool" where
  "run_post p g hs = (\<lambda>(r, ls, p') hr' hs' m' g'. hs' = hs \<and> mm p' = m' \<and> regions_ok m' \<and> call_effect p g r ls p' g')"

lemma safe_run_post:
  assumes "pc p < code_size (code p)" and "regions_ok m" and "ins_effect p g (code_text (code p) ! unat (pc p)) r ls m g'"
  shows "safe (run_post p g hs) (give_back r ls (p\<lparr>pc := pc p + 1\<rparr>)) hr hs m g'"
  by (rule safe_conseq [OF safe_give_back])
    (use assms in \<open>auto simp: run_post_def call_effect_def linorder_not_le [symmetric] simp del: linorder_not_le\<close>)

text \<open>The error lines of the calls are those of the specification.\<close>

lemma calls_print:
  "access_errors (p\<lparr>pc := pc p + 1\<rparr>) r act = access_lines p r act"
  by (auto simp: access_errors_def access_lines_def failure_def err_line_def err_defs add.commute)

lemma alloc_prints:
  assumes "r = 0 \<or> short r"
  shows "(if r = ERR_AREA_OVERLAP then [err_line (p\<lparr>pc := pc p + 1\<rparr>) ''VMAs overlapped, cannot allocate!'']
     else if r = ERR_LACK_MEM_RAM then [err_line (p\<lparr>pc := pc p + 1\<rparr>) ''new region is too large to fit all in RAM, cannot allocate!'']
     else if r = ERR_LACK_MEM_SWP then [err_line (p\<lparr>pc := pc p + 1\<rparr>) ''ran out of SWAP memory, cannot allocate!'']
     else if r \<noteq> 0 then [err_line (p\<lparr>pc := pc p + 1\<rparr>) ''undefined error, cannot allocate!''] else []) = alloc_lines p r"
  using assms by (auto simp: alloc_lines_def failure_def err_line_def err_defs short_def add.commute)

lemma alloc_effect_status: "alloc_effect m g rgid sz r m' g' \<Longrightarrow> r = 0 \<or> short r"
  by (auto simp: alloc_effect_def split: if_splits)

lemma safe_pgalloc:
  assumes rok: "regions_ok (mm p)" and more: "pc p < code_size (code p)" and ins: "ins = code_text (code p) ! unat (pc p)"
    and li: "legal_ins (mm p) ins" and op: "opcode ins = ALLOC"
  shows "safe (run_post p g hs) (pgalloc_act (p\<lparr>pc := pc p + 1\<rparr>) (arg_0 ins) (arg_1 ins)) hr hs (mm p) g"
proof -
  note post = safe_run_post [OF more, folded ins]
  have args: "uint (arg_1 ins) < 30" "uint (sbrk (hd (mmap (mm p)))) + uint (arg_0 ins) \<le> 2 ^ 22"
    using li op by (simp_all add: legal_ins_def PAGING_MAX_SYMTBL_SZ_def)
  then have "uint (arg_0 ins) \<le> 2 ^ 22" using uint_ge_0 [of "sbrk (hd (mmap (mm p)))"] by linarith
  then have conv: "int_of_u32 (arg_1 ins) = uint (arg_1 ins)" "int_of_u32 (arg_0 ins) = uint (arg_0 ins)"
    using args(1) by (simp_all add: int_of_u32_small)
  note alloc = safe_mm_alloc [OF rok uint_ge_0 args(1) uint_ge_0 args(2), folded conv]
  show ?thesis unfolding pgalloc_act_def
  proof (rule safe_bind [OF alloc], goal_cases)
    case (1 r hr1 hs1 m1 g1)
    then show ?case using alloc_prints [OF alloc_effect_status, of "mm p" g _ _ r m1 g1 p]
      by (auto intro!: post simp: ins_effect_def op)
  qed
qed

lemma safe_pgfree:
  assumes rok: "regions_ok (mm p)" and more: "pc p < code_size (code p)" and ins: "ins = code_text (code p) ! unat (pc p)"
    and li: "legal_ins (mm p) ins" and op: "opcode ins = FREE"
  shows "safe (run_post p g hs) (pgfree_act (p\<lparr>pc := pc p + 1\<rparr>) (arg_0 ins)) hr hs (mm p) g"
proof -
  note post = safe_run_post [OF more, folded ins]
  have "int_of_u32 (arg_0 ins) \<noteq> PAGING_MAX_SYMTBL_SZ"
    "0 \<le> int_of_u32 (arg_0 ins) \<and> int_of_u32 (arg_0 ins) < PAGING_MAX_SYMTBL_SZ \<longrightarrow> valid (symrgtbl (mm p) ! nat (int_of_u32 (arg_0 ins))) \<noteq> 0"
    using li op by (simp_all add: legal_ins_def legal_symbol_def)
  note free = safe_mm_free [OF rok this]
  show ?thesis unfolding pgfree_act_def by (rule safe_bind [OF free]) (auto intro!: post simp: ins_effect_def op)
qed

lemma safe_pgread:
  assumes rok: "regions_ok (mm p)" and more: "pc p < code_size (code p)" and ins: "ins = code_text (code p) ! unat (pc p)"
    and li: "legal_ins (mm p) ins" and op: "opcode ins = READ"
  shows "safe (run_post p g hs) (pgread_act (p\<lparr>pc := pc p + 1\<rparr>) (arg_0 ins) (arg_1 ins) (arg_2 ins)) hr hs (mm p) g"
  unfolding pgread_act_def
proof (rule safe_bind [OF safe_mm_read [OF rok _ int_of_u32_range]], goal_cases)
  case 1
  show ?case using li op by (simp add: legal_ins_def legal_symbol_def)
next
  case (2 x hr1 hs1 m1 g1)
  note post = safe_run_post [OF more, folded ins]
  obtain st v where x: "x = (st, v)" by (cases x)
  have e: "hr1 = hr" "hs1 = hs" "g1 = g" "same_meta (mm p) m1"
    and eff: "read_effect (mm p) g (int_of_u32 (arg_0 ins)) (int_of_u32 (arg_1 ins)) st v" using 2 x by auto
  have rok1: "regions_ok m1" using rok regions_ok_meta [OF e(4)] by simp
  have line: "(if st = 0 then map_option (\<lambda>d. Some (sint d)) v else Some None) = Some (map_option sint v)"
    using eff by (auto simp: read_effect_def err_defs split: option.splits sum.splits)
  show ?case unfolding x e(1-3) prod.case line option.case
  proof (rule safe_bind [OF safe_dump [OF rok1]], goal_cases)
    case (1 y hr2 hs2 m2 g2)
    then show ?case using rok1 e(4) eff by (cases y) (auto intro!: post simp: ins_effect_def op calls_print)
  qed
qed

lemma safe_pgwrite:
  assumes rok: "regions_ok (mm p)" and more: "pc p < code_size (code p)" and ins: "ins = code_text (code p) ! unat (pc p)"
    and li: "legal_ins (mm p) ins" and op: "opcode ins = WRITE"
  shows "safe (run_post p g hs) (pgwrite_act (p\<lparr>pc := pc p + 1\<rparr>) (char_of_u32 (arg_0 ins)) (arg_1 ins) (arg_2 ins)) hr hs (mm p) g"
  unfolding pgwrite_act_def
proof (rule safe_bind [OF safe_dump], goal_cases)
  case 1
  show ?case using rok by simp
next
  case (2 y hr1 hs1 m1 g1)
  note post = safe_run_post [OF more, folded ins]
  have sym: "int_of_u32 (arg_1 ins) \<noteq> PAGING_MAX_SYMTBL_SZ" using li op by (simp add: legal_ins_def legal_symbol_def)
  obtain tbl dump where y: "y = (tbl, dump)" by (cases y)
  have e: "hr1 = hr" "hs1 = hs" "m1 = mm p" "g1 = g" and shown: "tbl = table_lines (mm p)" "dump_shows (mm p) g dump"
    using 2 by (simp_all add: y)
  show ?case unfolding y e prod.case
  proof (rule safe_bind [OF safe_mm_write [OF rok sym int_of_u32_range]], goal_cases)
    case (1 st hr2 hs2 m2 g2)
    then have "regions_ok m2" using rok regions_ok_meta by blast
    with 1 shown show ?case by (auto intro!: post simp: ins_effect_def op calls_print)
  qed
qed

lemma safe_run:
  assumes rok: "regions_ok (mm p)" and legal: "legal_step p"
  shows "safe (run_post p g hs) (run_act p) hr hs (mm p) g"
proof (cases "pc p < code_size (code p)")
  case False
  have "safe (run_post p g hs) (give_back 1 [] p) hr hs (mm p) g"
    by (rule safe_conseq [OF safe_give_back]) (use False rok in \<open>auto simp: run_post_def call_effect_def\<close>)
  moreover have "code_size (code p) \<le> pc p" using False by (simp only: linorder_not_less)
  ultimately show ?thesis by (simp add: run_act_def)
next
  case True
  define ins where "ins = code_text (code p) ! unat (pc p)"
  have "uint (pc p) < int (length (code_text (code p)))"
    using True legal by (auto simp: legal_step_def word_less_def)
  then have fetch: "list_get (code_text (code p)) (uint (pc p)) = Some ins" by (simp add: arr_simps ins_def)
  have li: "legal_ins (mm p) ins" using legal True by (simp add: legal_step_def ins_def)
  have calc: "safe (run_post p g hs) (give_back (calc p') [] (p\<lparr>pc := pc p + 1\<rparr>)) hr hs (mm p) g" if "opcode ins = CALC" for p'
    by (rule safe_run_post [OF True rok]) (use that in \<open>simp add: ins_effect_def calc_def flip: ins_def\<close>)
  note instr = calc safe_pgalloc [OF rok True ins_def li] safe_pgfree [OF rok True ins_def li]
    safe_pgread [OF rok True ins_def li] safe_pgwrite [OF rok True ins_def li]
  show ?thesis using linorder_not_le [THEN iffD2, OF True] fetch
    by (cases "opcode ins") (simp_all add: run_act_def Let_def instr)
qed

end
