(* ===== verification/Lock_Programs.thy ===== *)
theory Lock_Programs
  imports Lock_Run
begin

text \<open>
  Programs on several processors at once, step by step. Whatever the schedule, nothing
  faults or is stuck, every run ends, no frame has two owners, and what each program reads
  and leaves in its memory is what a flat memory of its own would have given.
\<close>

section \<open>A program and its flat memory\<close>

text \<open>At most \<open>n\<close> instructions of a process, as long as they are legal: the lines printed and the process.\<close>

fun prog_act :: "nat \<Rightarrow> pcb_t \<Rightarrow> (console_line list \<times> pcb_t) act" where
  "prog_act 0 p = Ret ([], p)"
| "prog_act (Suc n) p =
     (if legal_step p
      then act_bind (run_act p) (\<lambda>(r, ls, p1). act_bind (prog_act n p1) (\<lambda>(ls', p'). Ret (ls @ ls', p')))
      else Ret ([], p))"

text \<open>The runs of a program on its own flat memory.\<close>

inductive flat_steps :: "pcb_t \<Rightarrow> (int \<Rightarrow> u8) \<Rightarrow> console_line list \<Rightarrow> pcb_t \<Rightarrow> (int \<Rightarrow> u8) \<Rightarrow> bool" where
  flat_stop: "flat_steps p g [] p g"
| flat_step: "\<lbrakk>legal_step p; call_effect p g r ls p1 g1; flat_steps p1 g1 ls' p' g'\<rbrakk> \<Longrightarrow> flat_steps p g (ls @ ls') p' g'"

definition prog_post :: "pcb_t \<Rightarrow> (int \<Rightarrow> u8) \<Rightarrow> console_line list \<times> pcb_t \<Rightarrow> int list \<Rightarrow> int list \<Rightarrow> mm_struct \<Rightarrow> (int \<Rightarrow> u8) \<Rightarrow> bool" where
  "prog_post p g = (\<lambda>(ls, p') hr hs m g'. hs = [] \<and> mm p' = m \<and> regions_ok m \<and> flat_steps p g ls p' g')"

lemma safe_prog: "regions_ok (mm p) \<Longrightarrow> safe (prog_post p g) (prog_act n p) hr [] (mm p) g"
proof (induction n arbitrary: p g hr)
  case 0
  then show ?case by (auto intro!: safe_Ret flat_stop simp: prog_post_def)
next
  case (Suc n)
  show ?case
  proof (cases "legal_step p")
    case False
    with Suc.prems show ?thesis by (auto intro!: safe_Ret flat_stop simp: prog_post_def)
  next
    case True
    have "safe (prog_post p g) (act_bind (run_act p) (\<lambda>(r, ls, p1). act_bind (prog_act n p1) (\<lambda>(ls', p'). Ret (ls @ ls', p')))) hr [] (mm p) g"
    proof (rule safe_bind [OF safe_run [OF Suc.prems True]], goal_cases)
      case (1 x hr1 hs1 m1 g1)
      obtain r ls p1 where x: "x = (r, ls, p1)" by (cases x)
      have p1: "hs1 = []" "m1 = mm p1" "regions_ok (mm p1)" "call_effect p g r ls p1 g1" using 1 x by (auto simp: run_post_def)
      show ?case unfolding x prod.case p1(1,2)
      proof (rule safe_bind [OF Suc.IH [OF p1(3)]], goal_cases)
        case (1 y hr2 hs2 m2 g2)
        then show ?case using flat_step [OF True p1(4)] by (cases y) (auto intro!: safe_Ret simp: prog_post_def)
      qed
    qed
    with True show ?thesis by simp
  qed
qed

section \<open>The machine\<close>

definition spawn :: "nat \<Rightarrow> machine \<Rightarrow> (console_line list \<times> pcb_t) system" where
  "spawn n s = \<lparr>cps = map (\<lambda>p. \<lparr>cp_act = prog_act n p, cp_mm = mm p\<rparr>) (procs s), s_ram = m_ram s, s_swp = m_swp s\<rparr>"

lemma spawn_safe:
  assumes "sys_ok s"
  shows "sys_safe (\<lambda>i. prog_post (procs s ! i) (vread (ctx s i)))
    (map (\<lambda>i. \<lparr>k_ram = [], k_swp = [], k_view = vread (ctx s i)\<rparr>) [0..<length (procs s)]) (spawn n s)"
    (is "sys_safe ?Q ?ks ?s")
proof -
  have len: "length (cps ?s) = length (procs s)" by (simp add: spawn_def)
  have "cp_safe ?Q ?ks ?s i" if i: "i < length (procs s)" for i
  proof -
    have held: "held_ram ?ks ?s j = used_ram (mm (procs s ! j))" "held_swp ?ks ?s j = used_swp (mm (procs s ! j))"
      if "j < length (procs s)" for j using that by (simp_all add: held_ram_def held_swp_def spawn_def)
    have rest: "rest_ram ?ks ?s i = others_ram (procs s) i" "rest_swp ?ks ?s i = others_swp (procs s) i"
      unfolding rest_ram_def rest_swp_def others_ram_def others_swp_def len using held by simp_all
    have ctx: "ctx_at ?s i = ctx s i" using i by (simp add: ctx_at_def ctx_def ctx_of_def spawn_def)
    have ok: "mm_ok (others_ram (procs s) i) (others_swp (procs s) i) (ctx s i)" using assms i by (simp add: sys_ok_def)
    then have "hands_ok (others_ram (procs s) i) (others_swp (procs s) i) [] [] (ctx s i)"
      by (simp add: hands_ok_def mm_ok_def zero_frames_def)
    moreover have "safe (?Q i) (prog_act n (procs s ! i)) [] [] (mm (procs s ! i)) (vread (ctx s i))"
      by (rule safe_prog) (use ok in \<open>simp add: mm_ok_def ctx_def\<close>)
    ultimately show ?thesis using i by (simp add: cp_safe_def rest ctx knows_def) (simp add: spawn_def)
  qed
  then show ?thesis by (simp add: sys_safe_def len)
qed

lemma spawn_moves:
  assumes "sys_ok s" and "moves is (spawn n s) = Some s'"
  obtains ks where "sys_safe (\<lambda>i. prog_post (procs s ! i) (vread (ctx s i))) ks s'" "length (cps s') = length (procs s)"
  using moves_safe [OF assms(2) spawn_safe [OF assms(1)]] that by (auto simp: spawn_def)

text \<open>A safe system can be run until every processor has returned.\<close>

lemma run_to_end:
  "sys_safe Q ks s \<Longrightarrow> \<exists>is s'. moves is s = Some s' \<and> (\<forall>i<length (cps s). \<exists>x. cp_act (cps s' ! i) = Ret x)"
proof (induction "mset (map cp_act (cps s))" arbitrary: s ks rule: wf_induct_rule [OF wf_mult [OF wf_later]])
  case (1 s)
  show ?case
  proof (cases "\<forall>i<length (cps s). \<exists>x. cp_act (cps s ! i) = Ret x")
    case True
    then show ?thesis by (intro exI [of _ "[]"] exI [of _ s]) simp
  next
    case False
    then obtain i f where i: "i < length (cps s)" "cp_act (cps s ! i) = Step f" by (meson act.exhaust)
    from move_safe [OF "1.prems" i] obtain s1 ks1 where s1: "move i s = Some s1" "sys_safe Q ks1 s1" "length (cps s1) = length (cps s)"
      by blast
    from "1.hyps" [OF move_later [OF s1(1)] s1(2)] obtain "is" s' where
      "moves is s1 = Some s'" "\<forall>i<length (cps s1). \<exists>x. cp_act (cps s' ! i) = Ret x" by blast
    then show ?thesis using s1(1,3) by (intro exI [of _ "i # is"] exI [of _ s']) simp
  qed
qed

text \<open>Who has which frame, in the middle of a run.\<close>

lemma frames_apart:
  assumes "sys_safe Q ks s" and ij: "i < length (cps s)" "j < length (cps s)" "i \<noteq> j"
  shows "used_ram (cp_mm (cps s ! i)) \<inter> used_ram (cp_mm (cps s ! j)) = {}" "used_swp (cp_mm (cps s ! i)) \<inter> used_swp (cp_mm (cps s ! j)) = {}"
    "used_ram (cp_mm (cps s ! i)) \<inter> set (free_fp_list (s_ram s)) = {}" "used_swp (cp_mm (cps s ! i)) \<inter> set (free_fp_list (s_swp s)) = {}"
proof -
  have "hands_ok (rest_ram ks s i) (rest_swp ks s i) (k_ram (ks ! i)) (k_swp (ks ! i)) (ctx_at s i)"
    using assms by (simp add: sys_safe_def cp_safe_def)
  note own = hands_apart [OF this]
  have f: "vmm (ctx_at s i) = cp_mm (cps s ! i)" "vram (ctx_at s i) = s_ram s" "vswp (ctx_at s i) = s_swp s" by (simp_all add: ctx_at_def)
  have "j \<in> {0..<length (cps s)} - {i}" using ij by simp
  then have "held_ram ks s j \<subseteq> rest_ram ks s i" "held_swp ks s j \<subseteq> rest_swp ks s i"
    unfolding rest_ram_def rest_swp_def by (rule UN_upper)+
  then have "used_ram (cp_mm (cps s ! j)) \<subseteq> rest_ram ks s i" "used_swp (cp_mm (cps s ! j)) \<subseteq> rest_swp ks s i"
    unfolding held_ram_def held_swp_def by simp_all
  with own(1,3) show "used_ram (cp_mm (cps s ! i)) \<inter> used_ram (cp_mm (cps s ! j)) = {}" "used_swp (cp_mm (cps s ! i)) \<inter> used_swp (cp_mm (cps s ! j)) = {}"
    unfolding f by fast+
  show "used_ram (cp_mm (cps s ! i)) \<inter> set (free_fp_list (s_ram s)) = {}" "used_swp (cp_mm (cps s ! i)) \<inter> set (free_fp_list (s_swp s)) = {}"
    using own(2,4) unfolding f by fast+
qed

section \<open>Properties\<close>

text \<open>
  The steps are the instruction. Nobody disturbing, the steps of \<open>run\<close> give exactly what
  \<open>run\<close> gives: the same result, output, process and devices, and they fault when it does.
\<close>

theorem run_steps_are_run:
  "exec (run_act p) (ctx_of p ram swp) = map_option (call_out p) (run p ram swp)"
  by (rule exec_run)

text \<open>
  C4: programs refine flat memories. Any number of programs run on their processors at the
  same time, their steps (counting, taking or returning a frame, sending out a victim,
  exchanging a page, accessing a byte) interleaved in any way. When a program has returned,
  it has printed and computed what it would on a flat memory of its own, in which nobody
  else writes, and that memory is what it now sees. What it has printed is fixed line by
  line by \<open>ins_effect\<close>: nothing for a calculation or a release, the reason for a failing
  allocation; for a read the line with the byte of the flat memory, for a write the line
  with the byte that is stored, then the whole page table, a dump in which its own resident
  pages hold the bytes of the flat memory, and the reason of a failure. An allocation or a
  page fault may fail for want of a frame or a victim, and then it changes no byte.
\<close>

theorem programs_refine_flat_memory:
  assumes "sys_ok s" and "moves is (spawn n s) = Some s'" and "i < length (procs s)" and "cp_act (cps s' ! i) = Ret (ls, p')"
  shows "\<exists>g. flat_steps (procs s ! i) (vread (ctx s i)) ls p' g \<and> mm p' = cp_mm (cps s' ! i)
    \<and> regions_ok (mm p') \<and> (\<forall>a\<in>vdom (ctx_at s' i). vread (ctx_at s' i) a = g a)"
proof -
  obtain ks where ks: "sys_safe (\<lambda>i. prog_post (procs s ! i) (vread (ctx s i))) ks s'" "length (cps s') = length (procs s)"
    by (rule spawn_moves [OF assms(1,2)])
  then have "cp_safe (\<lambda>i. prog_post (procs s ! i) (vread (ctx s i))) ks s' i" using assms(3) by (simp add: sys_safe_def)
  then have "knows (ctx_at s' i) (k_view (ks ! i))"
    "prog_post (procs s ! i) (vread (ctx s i)) (ls, p') (k_ram (ks ! i)) (k_swp (ks ! i)) (cp_mm (cps s' ! i)) (k_view (ks ! i))"
    using assms(4) by (auto simp: cp_safe_def elim: safe_RetE)
  then show ?thesis by (intro exI [of _ "k_view (ks ! i)"]) (simp add: knows_def prog_post_def)
qed

lemma boot2_ends: "\<exists>is s'. moves is (spawn 2 boot2) = Some s' \<and> (\<forall>i<2. \<exists>ls p. cp_act (cps s' ! i) = Ret (ls, p))"
  using run_to_end [OF spawn_safe [OF boot2_ok]] by (force simp: spawn_def boot2_def)

theorem programs_refine_flat_memory_witness:
  "\<exists>is s' ls p' g. moves is (spawn 2 boot2) = Some s' \<and> cp_act (cps s' ! 1) = Ret (ls, p')
    \<and> flat_steps (procs boot2 ! 1) (vread (ctx boot2 1)) ls p' g"
proof -
  obtain "is" s' ls p' where "moves is (spawn 2 boot2) = Some s'" "cp_act (cps s' ! 1) = Ret (ls, p')"
    using boot2_ends by force
  with programs_refine_flat_memory [OF boot2_ok _ boot2_legal(2)] show ?thesis by blast
qed

text \<open>
  Overlapping programs are safe. At every point of every interleaving, a processor whose
  program has not returned can make its next step (nothing faults, nothing waits), and no
  frame of RAM or swap is in the page tables of two processes or both in a table and free.
\<close>

theorem interleaved_programs_safe:
  assumes "sys_ok s" and "moves is (spawn n s) = Some s'" and "i < length (procs s)"
  shows "((\<exists>x. cp_act (cps s' ! i) = Ret x) \<or> (\<exists>s''. move i s' = Some s''))
    \<and> (\<forall>j<length (procs s). i \<noteq> j \<longrightarrow> used_ram (cp_mm (cps s' ! i)) \<inter> (used_ram (cp_mm (cps s' ! j)) \<union> set (free_fp_list (s_ram s'))) = {}
         \<and> used_swp (cp_mm (cps s' ! i)) \<inter> (used_swp (cp_mm (cps s' ! j)) \<union> set (free_fp_list (s_swp s'))) = {})"
proof -
  obtain ks where ks: "sys_safe (\<lambda>i. prog_post (procs s ! i) (vread (ctx s i))) ks s'" "length (cps s') = length (procs s)"
    by (rule spawn_moves [OF assms(1,2)])
  have "(\<exists>x. cp_act (cps s' ! i) = Ret x) \<or> (\<exists>s''. move i s' = Some s'')"
  proof (cases "cp_act (cps s' ! i)")
    case (Step f)
    then show ?thesis using move_safe [OF ks(1), of i f] ks(2) assms(3) by auto
  qed simp
  moreover have "used_ram (cp_mm (cps s' ! i)) \<inter> (used_ram (cp_mm (cps s' ! j)) \<union> set (free_fp_list (s_ram s'))) = {}
      \<and> used_swp (cp_mm (cps s' ! i)) \<inter> (used_swp (cp_mm (cps s' ! j)) \<union> set (free_fp_list (s_swp s'))) = {}"
    if "j < length (procs s)" "i \<noteq> j" for j
    using frames_apart [OF ks(1), of i j] that assms(3) ks(2) by (simp add: Int_Un_distrib)
  ultimately show ?thesis by blast
qed

theorem interleaved_programs_safe_witness:
  "\<exists>is s'. moves is (spawn 2 boot2) = Some s' \<and> (\<exists>ls p. cp_act (cps s' ! 0) = Ret (ls, p))
    \<and> used_ram (cp_mm (cps s' ! 0)) \<inter> used_ram (cp_mm (cps s' ! 1)) = {}"
proof -
  obtain "is" s' where s': "moves is (spawn 2 boot2) = Some s'" "\<exists>ls p. cp_act (cps s' ! 0) = Ret (ls, p)"
    using boot2_ends by force
  from interleaved_programs_safe [OF boot2_ok s'(1) boot2_legal(3)] boot2_legal(2)
  have "used_ram (cp_mm (cps s' ! 0)) \<inter> used_ram (cp_mm (cps s' ! 1)) = {}" by (auto simp: Int_Un_distrib)
  with s' show ?thesis by blast
qed

text \<open>
  C11: every run ends. No schedule goes on for ever, and from any point of any interleaving
  the run can be continued until every program has returned.
\<close>

theorem interleaved_programs_end:
  assumes "sys_ok s" and "moves is (spawn n s) = Some s'"
  shows "(\<nexists>r. r 0 = s' \<and> (\<forall>k. \<exists>i. move i (r k) = Some (r (Suc k))))
    \<and> (\<exists>is' s''. moves is' s' = Some s'' \<and> (\<forall>i<length (procs s). \<exists>ls p. cp_act (cps s'' ! i) = Ret (ls, p)))"
proof
  show "\<nexists>r. r 0 = s' \<and> (\<forall>k. \<exists>i. move i (r k) = Some (r (Suc k)))" using no_endless_run by blast
  obtain ks where ks: "sys_safe (\<lambda>i. prog_post (procs s ! i) (vread (ctx s i))) ks s'" "length (cps s') = length (procs s)"
    by (rule spawn_moves [OF assms])
  show "\<exists>is' s''. moves is' s' = Some s'' \<and> (\<forall>i<length (procs s). \<exists>ls p. cp_act (cps s'' ! i) = Ret (ls, p))"
    using run_to_end [OF ks(1)] ks(2) by force
qed


theorem interleaved_programs_end_witness:
  "\<exists>is s'. moves is (spawn 2 boot2) = Some s' \<and> (\<exists>ls p. cp_act (cps s' ! 1) = Ret (ls, p))"
proof -
  have "moves [] (spawn 2 boot2) = Some (spawn 2 boot2)" by simp
  from interleaved_programs_end [OF boot2_ok this] boot2_legal(2) show ?thesis by blast
qed

definition race_schedule :: "nat list" where
  "race_schedule = [0, 0, 1, 1, 0, 1, 0, 0, 1, 1]"

text \<open>
  C38: the counts can be out of date. Two processors that each ask for two frames when two
  are free both pass the test; when their steps alternate each takes one frame and both fail
  for lack of RAM, and the frames they took are neither free nor in use any more. Alone
  either would have succeeded.
\<close>

theorem alloc_race_loses_frames:
  assumes "cps s = [\<lparr>cp_act = alloc_pages_act 2 e, cp_mm = m\<rparr>, \<lparr>cp_act = alloc_pages_act 2 e', cp_mm = m'\<rparr>]"
    and "fifo_using_pgn m = []" "fifo_using_pgn m' = []"
    and "free_fp_list (s_ram s) = [f, g]" and "num_of_free_frame (s_ram s) = 2"
  shows "\<exists>s'. moves race_schedule s = Some s' \<and> free_fp_list (s_ram s') = []
    \<and> cps s' = [\<lparr>cp_act = Ret (ERR_LACK_MEM_RAM, [f]), cp_mm = m\<rparr>, \<lparr>cp_act = Ret (ERR_LACK_MEM_RAM, [g]), cp_mm = m'\<rparr>]
    \<and> (\<exists>c. exec (alloc_pages_act 2 e) (ctx_at s 0) = Some ((2, [g, f]), c))"
  using assms
  by (simp add: race_schedule_def move_def alloc_pages_act_def once_def get_ram_def ctx_at_def list_get_def MEMPHY_count_free_frame_def
    MEMPHY_get_freefp_def evict_one_def find_victim_page_def Let_def numeral_2_eq_2 ERR_LACK_MEM_RAM_def)

definition race2 :: "(int \<times> int list) system" where
  "race2 = \<lparr>cps = [\<lparr>cp_act = alloc_pages_act 2 (-1), cp_mm = boot_mm\<rparr>, \<lparr>cp_act = alloc_pages_act 2 (-1), cp_mm = boot_mm\<rparr>],
     s_ram = boot_dev 2, s_swp = boot_dev 8\<rparr>"

theorem alloc_race_loses_frames_witness:
  "\<exists>s'. moves race_schedule race2 = Some s' \<and> free_fp_list (s_ram s') = []"
proof -
  have fields: "fifo_using_pgn boot_mm = []" by (simp add: boot_mm_def init_mm_def Let_def)
  have "[0..1::int] = [0, 1]" by (simp add: upto.simps)
  then show ?thesis
    using alloc_race_loses_frames [of race2 "-1" boot_mm "-1" boot_mm 0 1]
    by (auto simp: race2_def fields boot_dev_def)
qed

end
