(* ===== verification/Lock_Pool.thy ===== *)
theory Lock_Pool
  imports Lock_Programs Pool
begin

text \<open>
  The processes of the running simulator when some of them are in the middle of a call: the
  invariant of the theory Pool with frames in hand and with what each process reads, kept by
  the steps of a call, when a process leaves and when one is loaded.
\<close>

section \<open>The invariant\<close>

text \<open>\<open>K\<close> is what is known of each process, by its number.\<close>

definition cell_ram :: "(u32 \<Rightarrow> known) \<Rightarrow> pcb_t multiset \<Rightarrow> int set" where
  "cell_ram K M = (\<Union>p\<in>set_mset M. used_ram (mm p) \<union> set (k_ram (K (pid p))))"

definition cell_swp :: "(u32 \<Rightarrow> known) \<Rightarrow> pcb_t multiset \<Rightarrow> int set" where
  "cell_swp K M = (\<Union>p\<in>set_mset M. used_swp (mm p) \<union> set (k_swp (K (pid p))))"

definition cell_ok :: "(u32 \<Rightarrow> known) \<Rightarrow> pcb_t multiset \<Rightarrow> vmctx \<Rightarrow> pcb_t \<Rightarrow> bool" where
  "cell_ok K M c p \<longleftrightarrow> hands_ok (cell_ram K M) (cell_swp K M) (k_ram (K (pid p))) (k_swp (K (pid p))) c \<and> knows c (k_view (K (pid p)))"

definition cells_ok :: "(u32 \<Rightarrow> known) \<Rightarrow> pcb_t multiset \<Rightarrow> memphy_struct \<Rightarrow> memphy_struct \<Rightarrow> bool" where
  "cells_ok K M ram swp \<longleftrightarrow> devs_ok ram swp \<and> (\<forall>p\<in>#M. cell_ok K (M - {#p#}) (ctx_of p ram swp) p)"

definition fresh_pid :: "u32 \<Rightarrow> pcb_t multiset \<Rightarrow> bool" where
  "fresh_pid n M \<longleftrightarrow> (\<forall>p\<in>#M. pid p \<noteq> n)"

lemma cell_add [simp]:
  "cell_ram K (add_mset p M) = used_ram (mm p) \<union> set (k_ram (K (pid p))) \<union> cell_ram K M"
  "cell_swp K (add_mset p M) = used_swp (mm p) \<union> set (k_swp (K (pid p))) \<union> cell_swp K M"
  by (simp_all add: cell_ram_def cell_swp_def)

lemma cell_upd:
  assumes "fresh_pid n M"
  shows "cell_ram (K(n := k)) M = cell_ram K M" "cell_swp (K(n := k)) M = cell_swp K M"
  using assms by (simp_all add: cell_ram_def cell_swp_def fresh_pid_def)

lemma cell_mono:
  assumes "set_mset M \<subseteq> set_mset N"
  shows "cell_ram K M \<subseteq> cell_ram K N" "cell_swp K M \<subseteq> cell_swp K N"
  using assms unfolding cell_ram_def cell_swp_def by (intro UN_mono order_refl; blast)+

lemma cells_split: "cells_ok K (add_mset p N) ram swp \<longleftrightarrow> devs_ok ram swp \<and> cell_ok K N (ctx_of p ram swp) p
    \<and> (\<forall>q\<in>#N. cell_ok K (add_mset p N - {#q#}) (ctx_of q ram swp) q)"
  by (auto simp: cells_ok_def)

lemma hands_anti:
  assumes "hands_ok R S hr hs c" "R' \<subseteq> R" "S' \<subseteq> S"
  shows "hands_ok R' S' hr hs c" and "hands_ok R' S' [] hs c"
proof -
  have "vm_ok (R' \<union> set hr) (S' \<union> set hs) c" "vm_ok R' (S' \<union> set hs) c"
    using assms by (auto simp: hands_ok_def intro: vm_ok_anti)
  with assms show "hands_ok R' S' hr hs c" "hands_ok R' S' [] hs c" by (auto simp: hands_ok_def zero_frames_def)
qed

section \<open>Steps\<close>

text \<open>Processes leave.\<close>

lemma cells_sub:
  assumes "cells_ok K M ram swp" "M' \<subseteq># M"
  shows "cells_ok K M' ram swp"
proof -
  have "cell_ok K (M' - {#p#}) (ctx_of p ram swp) p" if p: "p \<in># M'" for p
  proof -
    have "M' - {#p#} \<subseteq># M - {#p#}" using assms(2) by (simp add: subseteq_mset_def diff_le_mono)
    then have "set_mset (M' - {#p#}) \<subseteq> set_mset (M - {#p#})" by (rule set_mset_mono)
    moreover have "cell_ok K (M - {#p#}) (ctx_of p ram swp) p" using assms p by (auto simp: cells_ok_def dest: mset_subset_eqD)
    ultimately show ?thesis using cell_mono unfolding cell_ok_def by (blast intro: hands_anti(1))
  qed
  then show ?thesis using assms(1) by (simp add: cells_ok_def)
qed

text \<open>A process makes a step that is safe for the others.\<close>

lemma cells_step:
  assumes ok: "cells_ok K (add_mset p N) ram swp" and new: "fresh_pid (pid p) N"
    and c': "hands_ok (cell_ram K N) (cell_swp K N) hr hs c'" "others_kept (cell_ram K N) (cell_swp K N) (ctx_of p ram swp) c'" "knows c' g"
    and p': "pid p' = pid p" "ctx_of p' (vram c') (vswp c') = c'"
  shows "cells_ok (K(pid p := \<lparr>k_ram = hr, k_swp = hs, k_view = g\<rparr>)) (add_mset p' N) (vram c') (vswp c')" (is "cells_ok ?K _ _ _")
    and "q \<in># N \<Longrightarrow> a \<in> vdom (ctx_of q ram swp) \<Longrightarrow> vread (ctx_of q (vram c') (vswp c')) a = vread (ctx_of q ram swp) a"
proof -
  have m': "mm p' = vmm c'" using p'(2) by (metis ctx_of_def vmctx.select_convs(1))
  have other: "cell_ok ?K (add_mset p' N - {#q#}) (ctx_of q (vram c') (vswp c')) q
      \<and> (\<forall>a\<in>vdom (ctx_of q ram swp). vread (ctx_of q (vram c') (vswp c')) a = vread (ctx_of q ram swp) a)" if q: "q \<in># N" for q
  proof -
    have ne: "pid q \<noteq> pid p" using new q by (simp add: fresh_pid_def)
    obtain N' where N: "N = add_mset q N'" using q by (metis mset_add)
    have new': "fresh_pid (pid p) N'" using new N by (simp add: fresh_pid_def)
    have "add_mset p N - {#q#} = add_mset p N'" and rest: "add_mset p' N - {#q#} = add_mset p' N'" using N by simp_all
    then have okq: "cell_ok K (add_mset p N') (ctx_of q ram swp) q" using ok q unfolding cells_split by metis
    have dev: "vram (ctx_of q ram swp) = vram (ctx_of p ram swp)" "vswp (ctx_of q ram swp) = vswp (ctx_of p ram swp)"
      by (simp_all add: ctx_of_def)
    have m: "used_ram (vmm (ctx_of q ram swp)) \<union> set (k_ram (K (pid q))) \<subseteq> cell_ram K N"
      "used_swp (vmm (ctx_of q ram swp)) \<union> set (k_swp (K (pid q))) \<subseteq> cell_swp K N" by (auto simp: N ctx_of_def)
    have r: "cell_ram ?K (add_mset p' N') \<subseteq> (used_ram (vmm c') \<union> set hr) \<union> (cell_ram K (add_mset p N') \<inter> cell_ram K N)"
      "cell_swp ?K (add_mset p' N') \<subseteq> (used_swp (vmm c') \<union> set hs) \<union> (cell_swp K (add_mset p N') \<inter> cell_swp K N)"
      using p'(1) m' by (auto simp: cell_upd [OF new'] N)
    note B = hands_bystander [OF c'(1,2) okq [unfolded cell_ok_def, THEN conjunct1] dev m r]
    have d: "(ctx_of q ram swp)\<lparr>vram := vram c', vswp := vswp c'\<rparr> = ctx_of q (vram c') (vswp c')" by (simp add: ctx_of_def)
    have "?K (pid q) = K (pid q)" using ne by simp
    then show ?thesis using B okq unfolding d cell_ok_def rest knows_def by simp
  qed
  have "cell_ok ?K N c' p'" using c'(1,3) p'(1) by (simp add: cell_ok_def cell_upd [OF new])
  moreover have "devs_ok (vram c') (vswp c')" using hands_vm [OF c'(1)] by (simp add: vm_ok_def devs_ok_def)
  ultimately show "cells_ok ?K (add_mset p' N) (vram c') (vswp c')" unfolding cells_split p'(2) using other by blast
  show "q \<in># N \<Longrightarrow> a \<in> vdom (ctx_of q ram swp) \<Longrightarrow> vread (ctx_of q (vram c') (vswp c')) a = vread (ctx_of q ram swp) a"
    using other by blast
qed

text \<open>A process is loaded.\<close>

lemma cells_free:
  assumes "cells_ok K M ram swp"
  shows "set (free_fp_list ram) \<inter> cell_ram K M = {}" "set (free_fp_list swp) \<inter> cell_swp K M = {}"
proof -
  have "(used_ram (mm q) \<union> set (k_ram (K (pid q)))) \<inter> set (free_fp_list ram) = {}
      \<and> (used_swp (mm q) \<union> set (k_swp (K (pid q)))) \<inter> set (free_fp_list swp) = {}" if "q \<in># M" for q
  proof -
    have "hands_ok (cell_ram K (M - {#q#})) (cell_swp K (M - {#q#})) (k_ram (K (pid q))) (k_swp (K (pid q))) (ctx_of q ram swp)"
      using assms that by (simp add: cells_ok_def cell_ok_def)
    from hands_apart(2,4) [OF this] show ?thesis by (simp add: ctx_of_def)
  qed
  then show "set (free_fp_list ram) \<inter> cell_ram K M = {}" "set (free_fp_list swp) \<inter> cell_swp K M = {}"
    by (auto simp: cell_ram_def cell_swp_def)
qed

lemma cells_add_fresh:
  assumes ok: "cells_ok K M ram swp" and new: "fresh_mm (mm p)" "fresh_pid (pid p) M"
  shows "cells_ok (K(pid p := \<lparr>k_ram = [], k_swp = [], k_view = g\<rparr>)) (add_mset p M) ram swp" (is "cells_ok ?K _ _ _")
proof -
  note f = fresh_fields [OF new(1)]
  let ?c = "ctx_of p ram swp"
  have sets: "mapped ?c = {}" "resident ?c = {}" "swapped ?c = {}" "pte_at ?c x = 0" for x
    by (simp_all add: mapped_def resident_def swapped_def pte_at_def f ctx_of_def)
  have "vm_ok (cell_ram K M) (cell_swp K M) ?c"
    unfolding vm_ok_def sets using ok cells_free [OF ok]
    by (simp add: f PAGING_MAX_PGN_def cells_ok_def devs_ok_def ctx_of_def)
  moreover have "vdom ?c = {}" by (simp add: vdom_def f ctx_of_def)
  ultimately have "cell_ok ?K M ?c p"
    by (simp add: cell_ok_def hands_ok_def zero_frames_def knows_def cell_upd [OF new(2)])
  moreover have "cell_ok ?K (add_mset p M - {#q#}) (ctx_of q ram swp) q" if "q \<in># M" for q
  proof -
    have ne: "pid q \<noteq> pid p" using new(2) that by (simp add: fresh_pid_def)
    have "fresh_pid (pid p) (M - {#q#})" using new(2) by (auto simp: fresh_pid_def dest: in_diffD)
    note u = cell_upd [OF this]
    have "add_mset p M - {#q#} = add_mset p (M - {#q#})" using ne by (intro diff_add_mset_swap) auto
    moreover have "cell_ok K (M - {#q#}) (ctx_of q ram swp) q" using ok that by (simp add: cells_ok_def)
    ultimately show ?thesis using ne by (simp add: cell_ok_def u f(6,7))
  qed
  ultimately show ?thesis using ok by (simp add: cells_split cells_ok_def)
qed

section \<open>What the invariant says of the frames\<close>

lemma cells_apart:
  assumes ok: "cells_ok K M ram swp" and p: "p \<in># M"
  shows "used_ram (mm p) \<inter> set (free_fp_list ram) = {}" "used_swp (mm p) \<inter> set (free_fp_list swp) = {}"
    "q \<in># M - {#p#} \<Longrightarrow> used_ram (mm p) \<inter> used_ram (mm q) = {} \<and> used_swp (mm p) \<inter> used_swp (mm q) = {}"
    "vm_ok (cell_ram K (M - {#p#})) (cell_swp K (M - {#p#})) (ctx_of p ram swp)"
proof -
  let ?N = "M - {#p#}"
  have h: "hands_ok (cell_ram K ?N) (cell_swp K ?N) (k_ram (K (pid p))) (k_swp (K (pid p))) (ctx_of p ram swp)"
    using ok p by (simp add: cells_ok_def cell_ok_def)
  note a = hands_apart(1-4) [OF h, unfolded ctx_of_def vmctx.simps]
  show "used_ram (mm p) \<inter> set (free_fp_list ram) = {}" "used_swp (mm p) \<inter> set (free_fp_list swp) = {}" using a(2,4) by blast+
  show "used_ram (mm p) \<inter> used_ram (mm q) = {} \<and> used_swp (mm p) \<inter> used_swp (mm q) = {}" if "q \<in># ?N"
  proof -
    have "used_ram (mm q) \<subseteq> cell_ram K ?N" "used_swp (mm q) \<subseteq> cell_swp K ?N" using that by (auto simp: cell_ram_def cell_swp_def)
    then show ?thesis using a(1,3) by blast
  qed
  show "vm_ok (cell_ram K ?N) (cell_swp K ?N) (ctx_of p ram swp)"
    using vm_ok_anti [OF hands_vm [OF h]] by blast
qed

end
