(* ===== verification/Os_Steps.thy ===== *)
theory Os_Steps
  imports Simulator Lock_Pool
begin

text \<open>
  The whole simulator with the steps of \<open>Lock_Calls\<close> inside its processor threads: a thread
  that executes an instruction makes one step for each access to a free list, and every other
  thread can move in between. The invariant of the theory Os_Run, with the memories of the
  processes that are in the middle of a call and what every process has computed so far.
\<close>

section \<open>State and steps\<close>

text \<open>\<open>calls\<close> has, for each processor, the rest of the call it is in.\<close>

record fine_t =
  base :: os_t
  calls :: "(int \<times> console_line list \<times> pcb_t) act option list"

definition set_call :: "nat \<Rightarrow> (int \<times> console_line list \<times> pcb_t) act option \<Rightarrow> os_t \<Rightarrow> fine_t \<Rightarrow> fine_t" where
  "set_call i a s S = S\<lparr>base := s, calls := (calls S)[i := a]\<rparr>"

text \<open>
  A processor at \<open>CRun\<close>: it enters \<open>run\<close>, makes a step of it on the memory of its process and
  the devices, or returns from it and goes on to the end of its slot. What the call prints
  appears when it returns.
\<close>

definition call_step :: "nat \<Rightarrow> fine_t \<Rightarrow> fine_t option" where
  "call_step i S =
     (let s = base S in
      do { c \<leftarrow> list_get (cpus s) (int i);
           p \<leftarrow> cproc c;
           a \<leftarrow> list_get (calls S) (int i);
           (case a of
              None \<Rightarrow> Some (set_call i (Some (run_act p)) s S)
            | Some (Step f) \<Rightarrow>
                do { (b, v) \<leftarrow> f (ctx_of p (ram s) (swp s));
                     Some (set_call i (Some b) (set_cpu i (c\<lparr>cproc := Some (p\<lparr>mm := vmm v\<rparr>)\<rparr>)
                       (s\<lparr>ram := vram v, swp := vswp v\<rparr>)) S) }
            | Some (Ret (r, ls, p')) \<Rightarrow>
                do { t \<leftarrow> chk_int (time_left c - 1);
                     Some (set_call i None (say (map Console ls)
                       (set_cpu i (c\<lparr>cproc := Some p', time_left := t, cpc := CSlot\<rparr>) s)) S) }) })"

definition running :: "nat \<Rightarrow> os_t \<Rightarrow> bool" where
  "running i s \<longleftrightarrow> exited s = None \<and> i < length (cpus s) \<and> cpc (cpus s ! i) = CRun
     \<and> i < length (dpcs (timer s)) \<and> dpcs (timer s) ! i = DRun"

definition fine_step :: "os_env \<Rightarrow> os_act \<Rightarrow> fine_t \<Rightarrow> fine_t option" where
  "fine_step env a S =
     (case a of
        Cpu i \<Rightarrow> if running i (base S) then call_step i S
                 else map_option (\<lambda>s. S\<lparr>base := s\<rparr>) (os_step env a (base S))
      | _ \<Rightarrow> map_option (\<lambda>s. S\<lparr>base := s\<rparr>) (os_step env a (base S)))"

definition fine_start :: "os_t \<Rightarrow> fine_t" where
  "fine_start s = \<lparr>base = s, calls = replicate (length (cpus s)) None\<rparr>"

text \<open>The instruction that a processor begins is legal.\<close>

definition fine_legal :: "os_act \<Rightarrow> fine_t \<Rightarrow> bool" where
  "fine_legal a S \<longleftrightarrow> (\<forall>i. a = Cpu i \<longrightarrow> calls S ! i = None \<longrightarrow> os_legal a (base S))"

inductive fine_reach :: "os_env \<Rightarrow> fine_t \<Rightarrow> fine_t \<Rightarrow> bool" for env S0 where
  fine_refl: "fine_reach env S0 S0"
| fine_move: "\<lbrakk>fine_reach env S0 S; fine_legal a S; fine_step env a S = Some S'\<rbrakk> \<Longrightarrow> fine_reach env S0 S'"

section \<open>What a process has computed\<close>

lemma flat_snoc: "flat_steps p g ls p1 g1 \<Longrightarrow> legal_step p1 \<Longrightarrow> call_effect p1 g1 r ls' p2 g2 \<Longrightarrow> flat_steps p g (ls @ ls') p2 g2"
proof (induction rule: flat_steps.induct)
  case (flat_stop p g)
  then show ?case using flat_step [OF flat_stop.prems flat_steps.flat_stop] by simp
next
  case (flat_step p g r0 ls p1 g1 ls1 p' g')
  then show ?case using flat_steps.flat_step [OF flat_step.hyps(1,2) flat_step.IH] by simp
qed

lemma call_effect_pcb: "call_effect p g r ls p' g' \<Longrightarrow> p' = p\<lparr>pc := if pc p < code_size (code p) then pc p + 1 else pc p, mm := mm p'\<rparr>"
  by (auto simp: call_effect_def split: if_splits)

lemma call_effect_fields:
  assumes "call_effect p g r ls p' g'"
  shows "pid p' = pid p" "code p' = code p" "prio p' = prio p" "pc p' = (if pc p < code_size (code p) then pc p + 1 else pc p)"
proof -
  obtain m where "p' = p\<lparr>pc := if pc p < code_size (code p) then pc p + 1 else pc p, mm := m\<rparr>" using call_effect_pcb [OF assms] by blast
  then show "pid p' = pid p" "code p' = code p" "prio p' = prio p" "pc p' = (if pc p < code_size (code p) then pc p + 1 else pc p)" by simp_all
qed

lemma flat_pcb: "flat_steps p g ls p' g' \<Longrightarrow> code p' = code p \<and> pid p' = pid p \<and> prio p' = prio p"
  by (induction rule: flat_steps.induct) (simp_all add: call_effect_fields)

text \<open>A process as it was loaded, and the run of its program up to now on a flat memory.\<close>

definition history :: "pcb_t \<Rightarrow> (int \<Rightarrow> u8) \<Rightarrow> bool" where
  "history p g \<longleftrightarrow> (\<exists>p0 ls. fresh_mm (mm p0) \<and> pc p0 = 0 \<and> flat_steps p0 (\<lambda>_. 0) ls p g)"

fun task_ok :: "known \<Rightarrow> pcb_t \<Rightarrow> (int \<times> console_line list \<times> pcb_t) act option \<Rightarrow> bool" where
  "task_ok k p None \<longleftrightarrow> regions_ok (mm p) \<and> k_ram k = [] \<and> k_swp k = [] \<and> history p (k_view k)"
| "task_ok k p (Some a) \<longleftrightarrow> (\<exists>p1 g1. p = p1\<lparr>mm := mm p\<rparr> \<and> legal_step p1 \<and> history p1 g1
     \<and> safe (run_post p1 g1 []) a (k_ram k) (k_swp k) (mm p) (k_view k))"

section \<open>The invariant\<close>

definition fine_ok :: "os_env \<Rightarrow> tact list \<Rightarrow> (u32 \<Rightarrow> known) \<Rightarrow> fine_t \<Rightarrow> bool" where
  "fine_ok env tr K S \<longleftrightarrow> (let s = base S in
     os_shape env tr s \<and> cells_ok K (live s) (ram s) (swp s)
     \<and> length (calls S) = length (cpus s) \<and> (\<forall>i<length (cpus s). calls S ! i \<noteq> None \<longrightarrow> cpc (cpus s ! i) = CRun)
     \<and> (\<forall>i<length (cpus s). \<forall>p. cproc (cpus s ! i) = Some p \<longrightarrow> task_ok (K (pid p)) p (calls S ! i))
     \<and> (\<forall>p\<in>#mlq_ready (sched s). task_ok (K (pid p)) p None))"

lemma fine_okD:
  assumes "fine_ok env tr K S"
  shows "os_shape env tr (base S)" "cells_ok K (live (base S)) (ram (base S)) (swp (base S))"
    "length (calls S) = length (cpus (base S))"
    "i < length (cpus (base S)) \<Longrightarrow> calls S ! i \<noteq> None \<Longrightarrow> cpc (cpus (base S) ! i) = CRun"
    "i < length (cpus (base S)) \<Longrightarrow> cproc (cpus (base S) ! i) = Some p \<Longrightarrow> task_ok (K (pid p)) p (calls S ! i)"
    "p \<in># mlq_ready (sched (base S)) \<Longrightarrow> task_ok (K (pid p)) p None"
  using assms unfolding fine_ok_def Let_def by metis+

lemma fine_okI:
  assumes "os_shape env tr s" "cells_ok K (live s) (ram s) (swp s)" "length as = length (cpus s)"
    "\<And>i. i < length (cpus s) \<Longrightarrow> as ! i \<noteq> None \<Longrightarrow> cpc (cpus s ! i) = CRun"
    "\<And>i p. i < length (cpus s) \<Longrightarrow> cproc (cpus s ! i) = Some p \<Longrightarrow> task_ok (K (pid p)) p (as ! i)"
    "\<And>p. p \<in># mlq_ready (sched s) \<Longrightarrow> task_ok (K (pid p)) p None"
  shows "fine_ok env tr K (S\<lparr>base := s, calls := as\<rparr>)"
  using assms by (simp add: fine_ok_def)

text \<open>All live processes but the one of processor \<open>i\<close>.\<close>

definition rest_of :: "nat \<Rightarrow> os_t \<Rightarrow> pcb_t multiset" where
  "rest_of i s = on_cpus ((cpus s)[i := (cpus s ! i)\<lparr>cproc := None\<rparr>]) + mlq_ready (sched s)"

lemma live_rest: "i < length (cpus s) \<Longrightarrow> live s = opt_mset (cproc (cpus s ! i)) + rest_of i s"
  using on_cpus_update [of i "cpus s" "(cpus s ! i)\<lparr>cproc := None\<rparr>"] by (simp add: live_def rest_of_def ac_simps)

lemma rest_update: "i < length (cpus s) \<Longrightarrow> cpus s' = (cpus s)[i := c] \<Longrightarrow> sched s' = sched s \<Longrightarrow> rest_of i s' = rest_of i s"
  using on_cpus_update [of i "cpus s" "(cpus s ! i)\<lparr>cproc := None\<rparr>"]
    on_cpus_update [of i "cpus s" "c\<lparr>cproc := None\<rparr>"] by (simp add: rest_of_def) (metis add_right_imp_eq)

lemma rest_members:
  assumes "i < length (cpus s)"
  shows "j < length (cpus s) \<Longrightarrow> j \<noteq> i \<Longrightarrow> cproc (cpus s ! j) = Some q \<Longrightarrow> q \<in># rest_of i s"
    and "q \<in># mlq_ready (sched s) \<Longrightarrow> q \<in># rest_of i s"
proof -
  show "q \<in># rest_of i s" if j: "j < length (cpus s)" "j \<noteq> i" "cproc (cpus s ! j) = Some q"
  proof -
    let ?cs = "(cpus s)[i := (cpus s ! i)\<lparr>cproc := None\<rparr>]"
    have "?cs ! j \<in> set ?cs" using j(1) by (intro nth_mem) simp
    then have "q \<in># on_cpus ?cs" by (rule on_cpus_member) (use j in simp)
    then show ?thesis by (simp add: rest_of_def)
  qed
qed (simp add: rest_of_def)

lemma live_fresh:
  assumes "ld_ok s" "live s = add_mset p N"
  shows "fresh_pid (pid p) N"
  unfolding fresh_pid_def
proof (intro ballI notI)
  fix q assume q: "q \<in># N" "pid q = pid p"
  obtain N' where "N = add_mset q N'" using q(1) by (metis mset_add)
  then have "count (pids s) (pid p) \<ge> 2" using q(2) assms(2) by (simp add: pids_def)
  moreover have "count (pids s) (pid p) \<le> 1" using assms(1) by (simp only: ld_ok_def)
  ultimately show False by simp
qed

section \<open>A step of a call\<close>

text \<open>The process of a processor at its instruction is replaced by itself.\<close>

definition replaced :: "nat \<Rightarrow> cpu_t \<Rightarrow> os_t \<Rightarrow> os_t \<Rightarrow> bool" where
  "replaced i c s s' \<longleftrightarrow> (\<exists>ls m w. s' = say (map Console ls) (set_cpu i c (s\<lparr>ram := m, swp := w\<rparr>)))"

lemma replaced_fields:
  assumes "replaced i c s s'"
  shows "cpus s' = (cpus s)[i := c]" "cfg s' = cfg s" "timer s' = timer s" "sched s' = sched s" "ld_i s' = ld_i s"
    "ldpc s' = ldpc s" "ld_proc s' = ld_proc s" "avail_pid s' = avail_pid s" "os_done s' = os_done s" "exited s' = exited s"
  using assms by (auto simp: replaced_def)

lemma replace_shape:
  assumes inv: "os_shape env tr s" and i: "i < length (cpus s)" "cproc (cpus s ! i) = Some p" "cpc (cpus s ! i) = CRun"
    and c': "cproc c' = Some p'" "cpc c' \<noteq> CDone" "cpu_ok (time_slot (cfg s)) c'" and p': "proc_ok p'" "pid p' = pid p"
    and rep: "replaced i c' s s'"
  shows "os_shape env tr s'" and "live s' = add_mset p' (rest_of i s)"
proof -
  note s' = replaced_fields [OF rep]
  have core: "shape_ok s" and ld: "ld_ok s" and dl: "dev_link s" and lt: "ld_time s (finished tr (ld_dev s))"
    using inv by (simp_all add: os_shape_def)
  have l: "live s = add_mset p (rest_of i s)" using live_rest [OF i(1)] i(2) by simp
  show l': "live s' = add_mset p' (rest_of i s)"
    using live_rest [of i s'] rest_update [OF i(1) s'(1) s'(4)] s'(1) i(1) c'(1) by simp
  have "\<forall>c\<in>set (cpus s'). cpu_ok (time_slot (cfg s)) c"
    using core c'(3) set_update_subset_insert [of "cpus s" i c'] by (auto simp: shape_ok_def s'(1))
  moreover have "\<forall>p\<in>#live s'. proc_ok p" using core p'(1) by (auto simp: shape_ok_def l l')
  ultimately have "shape_ok s'" using core by (simp add: shape_ok_def s')
  moreover have "pids s' = pids s" by (simp add: pids_def l l' p'(2) s')
  then have "ld_ok s'" using ld by (simp add: ld_ok_def s')
  moreover have "dev_link s'" using dl i c'(2) by (auto simp: dev_link_def s' nth_upd)
  moreover have "ld_time s' n = ld_time s n" for n by (simp add: ld_time_def s' split: ld_pc.split bool.split)
  ultimately show "os_shape env tr s'" using inv by (simp add: os_shape_def s' ld_dev_def)
qed

text \<open>
  The step of the call is safe for everyone else: the invariant after it.
\<close>

lemma replace_ok:
  assumes ok: "fine_ok env tr K S"
    and i: "i < length (cpus (base S))" "cproc (cpus (base S) ! i) = Some p" "cpc (cpus (base S) ! i) = CRun"
    and c': "cproc c' = Some p'" "cpc c' \<noteq> CDone" "cpu_ok (time_slot (cfg (base S))) c'" and p': "proc_ok p'" "pid p' = pid p"
    and rep: "replaced i c' (base S) s'"
    and v: "hands_ok (cell_ram K (rest_of i (base S))) (cell_swp K (rest_of i (base S))) hr hs v"
      "others_kept (cell_ram K (rest_of i (base S))) (cell_swp K (rest_of i (base S))) (ctx_of p (ram (base S)) (swp (base S))) v"
      "knows v g" "v = ctx_of p' (ram s') (swp s')"
    and a: "task_ok \<lparr>k_ram = hr, k_swp = hs, k_view = g\<rparr> p' a" "a \<noteq> None \<longrightarrow> cpc c' = CRun"
  shows "\<exists>k. fine_ok env tr (K(pid p := k)) (set_call i a s' S)"
proof -
  let ?s = "base S" and ?N = "rest_of i (base S)" and ?K = "K(pid p := \<lparr>k_ram = hr, k_swp = hs, k_view = g\<rparr>)"
  note D = fine_okD [OF ok] and s' = replaced_fields [OF rep]
  note r = replace_shape [OF D(1) i c' p' rep]
  have l: "live ?s = add_mset p ?N" using live_rest [OF i(1)] i(2) by simp
  have new: "fresh_pid (pid p) ?N" using live_fresh [OF _ l] D(1) by (simp add: os_shape_def)
  have v': "ram s' = vram v" "swp s' = vswp v" "ctx_of p' (vram v) (vswp v) = v" by (simp_all add: v(4) ctx_of_def)
  from cells_step(1) [OF D(2) [unfolded l] new v(1-3) p'(2) v'(3)]
  have cells': "cells_ok ?K (live s') (ram s') (swp s')" by (simp add: r(2) v'(1,2))
  have other: "?K (pid q) = K (pid q)" if "q \<in># ?N" for q using new that by (simp add: fresh_pid_def)
  have "fine_ok env tr ?K (S\<lparr>base := s', calls := (calls S)[i := a]\<rparr>)"
  proof (rule fine_okI)
    show "os_shape env tr s'" by (rule r(1))
    show "cells_ok ?K (live s') (ram s') (swp s')" by (rule cells')
    show "length ((calls S)[i := a]) = length (cpus s')" using D(3) by (simp add: s'(1))
    show "cpc (cpus s' ! j) = CRun" if "j < length (cpus s')" "(calls S)[i := a] ! j \<noteq> None" for j
      using D(4) [of j] that a(2) D(3) by (auto simp: s'(1) nth_upd split: if_splits)
    show "task_ok (?K (pid q)) q ((calls S)[i := a] ! j)" if j: "j < length (cpus s')" "cproc (cpus s' ! j) = Some q" for j q
    proof (cases "j = i")
      case True
      then have "q = p'" using j i(1) c'(1) by (simp add: s'(1))
      then show ?thesis using True a(1) p'(2) i(1) D(3) by simp
    next
      case False
      then have j': "j < length (cpus ?s)" "cproc (cpus ?s ! j) = Some q" using j by (simp_all add: s'(1))
      have "q \<in># ?N" by (rule rest_members(1) [OF i(1) j'(1) False j'(2)])
      then show ?thesis using D(5) [OF j'] False by (simp only: other nth_list_update_neq not_sym)
    qed
    show "task_ok (?K (pid q)) q None" if "q \<in># mlq_ready (sched s')" for q
      using D(6) [of q] rest_members(2) [OF i(1), of q] that other by (simp only: s'(4))
  qed
  then show ?thesis by (auto simp: set_call_def)
qed

text \<open>A processor at an instruction can always make its step, and the step keeps the invariant.\<close>

lemma cells_here:
  assumes "fine_ok env tr K S" "i < length (cpus (base S))" "cproc (cpus (base S) ! i) = Some p"
  shows "hands_ok (cell_ram K (rest_of i (base S))) (cell_swp K (rest_of i (base S))) (k_ram (K (pid p))) (k_swp (K (pid p)))
      (ctx_of p (ram (base S)) (swp (base S)))" "knows (ctx_of p (ram (base S)) (swp (base S))) (k_view (K (pid p)))"
    "proc_ok p" "cpu_ok (time_slot (cfg (base S))) (cpus (base S) ! i)" "time_slot (cfg (base S)) < 2 ^ 31"
proof -
  have l: "live (base S) = add_mset p (rest_of i (base S))" using live_rest [OF assms(2)] assms(3) by simp
  show "hands_ok (cell_ram K (rest_of i (base S))) (cell_swp K (rest_of i (base S))) (k_ram (K (pid p))) (k_swp (K (pid p)))
      (ctx_of p (ram (base S)) (swp (base S)))" "knows (ctx_of p (ram (base S)) (swp (base S))) (k_view (K (pid p)))"
    using fine_okD(2) [OF assms(1)] by (simp_all add: l cells_split cell_ok_def)
  have "shape_ok (base S)" using fine_okD(1) [OF assms(1)] by (simp add: os_shape_def)
  then show "proc_ok p" "cpu_ok (time_slot (cfg (base S))) (cpus (base S) ! i)" "time_slot (cfg (base S)) < 2 ^ 31"
    using assms(2) by (simp_all add: shape_ok_def l)
qed

lemma replaced_here: "i < length (cpus s) \<Longrightarrow> replaced i (cpus s ! i) s s"
  unfolding replaced_def
  by (intro exI [of _ "[]"] exI [of _ "ram s"] exI [of _ "swp s"]) (simp add: say_def set_cpu_def)

lemma same_but_mm:
  assumes "p = p1\<lparr>mm := m\<rparr>"
  shows "p\<lparr>mm := m'\<rparr> = p1\<lparr>mm := m'\<rparr>" "pid p1 = pid p" "pc p1 = pc p" "code p1 = code p" "prio p1 = prio p"
  using assms by simp_all

definition call_goes :: "os_env \<Rightarrow> tact list \<Rightarrow> (u32 \<Rightarrow> known) \<Rightarrow> nat \<Rightarrow> fine_t \<Rightarrow> bool" where
  "call_goes env tr K i S \<longleftrightarrow> (\<exists>S' c p k. call_step i S = Some S' \<and> cproc (cpus (base S) ! i) = Some p
     \<and> fine_ok env tr (K(pid p := k)) S' \<and> replaced i c (base S) (base S') \<and> map_option pid (cproc c) = Some (pid p)
     \<and> cpc c = (if \<exists>x. calls S ! i = Some (Ret x) then CSlot else CRun))"

lemma call_goesI:
  assumes "i < length (cpus (base S))" "cproc (cpus (base S) ! i) = Some p"
    and "call_step i S = Some (set_call i a s' S)" "\<exists>k. fine_ok env tr (K(pid p := k)) (set_call i a s' S)"
    and "replaced i c (base S) s'" "map_option pid (cproc c) = Some (pid p)"
      "cpc c = (if \<exists>x. calls S ! i = Some (Ret x) then CSlot else CRun)"
  shows "call_goes env tr K i S"
  using assms unfolding call_goes_def
  by (intro exI [of _ "set_call i a s' S"] exI [of _ c] exI [of _ p]) (simp add: set_call_def)

text \<open>The first step of a call, a step inside it and its return.\<close>

lemma call_begins:
  assumes ok: "fine_ok env tr K S" and i: "i < length (cpus (base S))" and pc: "cpc (cpus (base S) ! i) = CRun"
    and p: "cproc (cpus (base S) ! i) = Some p" and legal: "legal_step p" and at: "calls S ! i = None"
  shows "call_goes env tr K i S"
proof -
  let ?s = "base S" and ?k = "K (pid p)"
  let ?v = "ctx_of p (ram ?s) (swp ?s)"
  note D = fine_okD [OF ok] and here = cells_here [OF ok i p]
  have step: "call_step i S = Some (set_call i (Some (run_act p)) ?s S)"
    using i p D(3) at by (simp add: call_step_def list_get_def Let_def)
  have k: "\<lparr>k_ram = k_ram ?k, k_swp = k_swp ?k, k_view = k_view ?k\<rparr> = ?k" by simp
  have t: "regions_ok (mm p)" "k_ram ?k = []" "k_swp ?k = []" "history p (k_view ?k)" using D(5) [OF i p] at by simp_all
  have "task_ok ?k p (Some (run_act p))" unfolding task_ok.simps
    by (intro exI [of _ p] exI [of _ "k_view ?k"]) (use legal t safe_run [OF t(1) legal] in simp)
  then have "\<exists>k. fine_ok env tr (K(pid p := k)) (set_call i (Some (run_act p)) ?s S)" using pc p here
    by (intro replace_ok [OF ok i p pc, where c' = "cpus ?s ! i" and v = ?v and g = "k_view ?k" and hr = "k_ram ?k" and hs = "k_swp ?k" and p' = p, unfolded k])
      (simp_all add: replaced_here i)
  from call_goesI [OF i p step this replaced_here [OF i]] show ?thesis using at pc p by simp
qed

lemma call_continues:
  assumes ok: "fine_ok env tr K S" and i: "i < length (cpus (base S))" and pc: "cpc (cpus (base S) ! i) = CRun"
    and p: "cproc (cpus (base S) ! i) = Some p" and at: "calls S ! i = Some (Step f)"
  shows "call_goes env tr K i S"
proof -
  let ?s = "base S" and ?c = "cpus (base S) ! i" and ?k = "K (pid p)"
  let ?v = "ctx_of p (ram ?s) (swp ?s)"
  note D = fine_okD [OF ok] and here = cells_here [OF ok i p]
  obtain p1 g1 where t: "p = p1\<lparr>mm := mm p\<rparr>" "legal_step p1" "history p1 g1"
    "safe (run_post p1 g1 []) (Step f) (k_ram ?k) (k_swp ?k) (mm p) (k_view ?k)" using D(5) [OF i p] at by auto
  have "vmm ?v = mm p" by (simp add: ctx_of_def)
  from safe_StepD [OF t(4) here(1) this here(2)]
  obtain a v hr hs g where v: "f ?v = Some (a, v)" "hands_ok (cell_ram K (rest_of i ?s)) (cell_swp K (rest_of i ?s)) hr hs v"
    "others_kept (cell_ram K (rest_of i ?s)) (cell_swp K (rest_of i ?s)) ?v v" "knows v g" "safe (run_post p1 g1 []) a hr hs (vmm v) g" by blast
  let ?p = "p\<lparr>mm := vmm v\<rparr>"
  let ?s' = "set_cpu i (?c\<lparr>cproc := Some ?p\<rparr>) (?s\<lparr>ram := vram v, swp := vswp v\<rparr>)"
  have step: "call_step i S = Some (set_call i (Some a) ?s' S)"
    using i p D(3) at v(1) by (simp add: call_step_def list_get_def Let_def)
  have rep: "replaced i (?c\<lparr>cproc := Some ?p\<rparr>) ?s ?s'" unfolding replaced_def
    by (intro exI [of _ "[]"] exI [of _ "vram v"] exI [of _ "vswp v"]) (simp add: say_def)
  have "?p = p1\<lparr>mm := mm ?p\<rparr>" using same_but_mm(1) [OF t(1), of "vmm v"] by simp
  then have task': "task_ok \<lparr>k_ram = hr, k_swp = hs, k_view = g\<rparr> ?p (Some a)" unfolding task_ok.simps
    by (intro exI [of _ p1] exI [of _ g1]) (use t v(5) in simp)
  have "\<exists>k. fine_ok env tr (K(pid p := k)) (set_call i (Some a) ?s' S)"
    by (rule replace_ok [OF ok i p pc _ _ _ _ _ rep v(2-4) _ task'])
      (use here(3,4) pc in \<open>simp_all add: cpu_ok_def proc_ok_def legal_prio_def ctx_of_def\<close>)
  from call_goesI [OF i p step this rep] show ?thesis using at pc by simp
qed

lemma call_ends:
  assumes ok: "fine_ok env tr K S" and i: "i < length (cpus (base S))" and pc: "cpc (cpus (base S) ! i) = CRun"
    and p: "cproc (cpus (base S) ! i) = Some p" and at: "calls S ! i = Some (Ret (r, ls, p'))"
  shows "call_goes env tr K i S"
proof -
  let ?s = "base S" and ?c = "cpus (base S) ! i" and ?k = "K (pid p)"
  let ?v = "ctx_of p (ram ?s) (swp ?s)" and ?t = "time_left (cpus (base S) ! i) - 1"
  note D = fine_okD [OF ok] and here = cells_here [OF ok i p]
  obtain p1 g1 where t: "p = p1\<lparr>mm := mm p\<rparr>" "legal_step p1" "history p1 g1"
    "safe (run_post p1 g1 []) (Ret (r, ls, p')) (k_ram ?k) (k_swp ?k) (mm p) (k_view ?k)" using D(5) [OF i p] at by auto
  have post: "k_swp ?k = []" "mm p' = mm p" "regions_ok (mm p)" "call_effect p1 g1 r ls p' (k_view ?k)"
    using t(4) by (auto elim!: safe_RetE simp: run_post_def)
  note f = same_but_mm(2-) [OF t(1)]
  have e: "pid p' = pid p" "code p' = code p" "prio p' = prio p" "pc p' = (if pc p < code_size (code p) then pc p + 1 else pc p)"
    using call_effect_fields [OF post(4)] by (simp_all add: f)
  have chk: "chk_int ?t = Some ?t" using here(4,5) pc by (intro chk_int_Some) (auto simp: cpu_ok_def)
  let ?x = "?c\<lparr>cproc := Some p', time_left := ?t, cpc := CSlot\<rparr>"
  let ?s' = "say (map Console ls) (set_cpu i ?x ?s)"
  have step: "call_step i S = Some (set_call i None ?s' S)"
    using i p D(3) at chk by (simp add: call_step_def list_get_def Let_def)
  have rep: "replaced i ?x ?s ?s'" unfolding replaced_def
    by (intro exI [of _ ls] exI [of _ "ram ?s"] exI [of _ "swp ?s"]) simp
  have "history p' (k_view ?k)" using t(2,3) post(4) flat_snoc unfolding history_def by blast
  then have task': "task_ok \<lparr>k_ram = [], k_swp = k_swp ?k, k_view = k_view ?k\<rparr> p' None" using post by simp
  have "\<exists>k. fine_ok env tr (K(pid p := k)) (set_call i None ?s' S)"
    by (rule replace_ok [OF ok i p pc _ _ _ _ _ rep hands_anti(2) [OF here(1) order_refl order_refl] others_kept_refl here(2) _ task'])
      (use here(3,4) pc e post(2) proc_ok_run [OF here(3) e(2-4)] in \<open>simp_all add: cpu_ok_def ctx_of_def\<close>)
  from call_goesI [OF i p step this rep] show ?thesis using at e(1) by simp
qed

lemma call_step_ok:
  assumes ok: "fine_ok env tr K S" and run: "running i (base S)" and legal: "fine_legal (Cpu i) S"
  shows "\<exists>S' c p k. call_step i S = Some S' \<and> cproc (cpus (base S) ! i) = Some p \<and> fine_ok env tr (K(pid p := k)) S'
    \<and> replaced i c (base S) (base S') \<and> map_option pid (cproc c) = Some (pid p) \<and> cpc c = (if \<exists>x. calls S ! i = Some (Ret x) then CSlot else CRun)"
proof -
  let ?c = "cpus (base S) ! i"
  have i: "i < length (cpus (base S))" and pc: "cpc ?c = CRun" using run by (simp_all add: running_def)
  have "cpu_ok (time_slot (cfg (base S))) ?c" using fine_okD(1) [OF ok] i by (simp add: os_shape_def shape_ok_def)
  then obtain p where p: "cproc ?c = Some p" using pc by (cases "cproc ?c") (auto simp: cpu_ok_def)
  consider (new) "calls S ! i = None" | (step) f where "calls S ! i = Some (Step f)"
    | (ret) r ls p' where "calls S ! i = Some (Ret (r, ls, p'))" by (metis act.exhaust not_None_eq prod_cases3)
  then have "call_goes env tr K i S"
  proof cases
    case new
    have "legal_step p" using legal new i pc p by (simp add: fine_legal_def os_legal_def)
    then show ?thesis by (rule call_begins [OF ok i pc p _ new])
  qed (rule call_continues [OF ok i pc p] call_ends [OF ok i pc p]; assumption)+
  then show ?thesis by (simp only: call_goes_def)
qed

section \<open>The other steps\<close>

text \<open>A step that keeps the devices and lets no process appear.\<close>

lemma kept_local:
  assumes "i < length (cpus s)" "cpus s' = (cpus s)[i := c']" "live s' \<subseteq># live s"
  shows "opt_mset (cproc c') + mlq_ready (sched s') \<subseteq># opt_mset (cproc (cpus s ! i)) + mlq_ready (sched s)"
proof -
  have "(on_cpus (cpus s') + opt_mset (cproc (cpus s ! i))) + mlq_ready (sched s') \<subseteq># (on_cpus (cpus s) + opt_mset (cproc (cpus s ! i))) + mlq_ready (sched s)"
    using assms(3) by (simp add: live_def ac_simps)
  then have "(on_cpus (cpus s) + opt_mset (cproc c')) + mlq_ready (sched s') \<subseteq># (on_cpus (cpus s) + opt_mset (cproc (cpus s ! i))) + mlq_ready (sched s)"
    unfolding assms(2) on_cpus_update [OF assms(1)] .
  then show ?thesis by (simp add: ac_simps)
qed

lemma cpu_other_ok:
  assumes ok: "fine_ok env tr K S" and pc: "cpc (cpus (base S) ! i) \<noteq> CRun" and step: "cpu_routine i (base S) = Some s'"
  shows "\<exists>tr. fine_ok env tr K (S\<lparr>base := s'\<rparr>)" and "live_kept (cproc (cpus (base S) ! i)) (base S) s'"
proof -
  let ?s = "base S"
  note D = fine_okD [OF ok]
  have i: "i < length (cpus ?s)" by (rule cpu_routineD(1) [OF step])
  have legal: "os_legal (Cpu i) ?s" using pc by (simp add: os_legal_def)
  from cpu_step_shape [OF D(1) legal step] obtain tr' where shape: "os_shape env tr' s'" by blast
  have "shape_ok ?s" using D(1) by (simp add: os_shape_def)
  from cpu_step_live [OF this legal step] pc show kept: "live_kept (cproc (cpus ?s ! i)) ?s s'" by blast
  then have dev: "ram s' = ram ?s" "swp s' = swp ?s" and sub: "live s' \<subseteq># live ?s" by (auto simp: live_kept_def)
  have len: "length (cpus s') = length (cpus ?s)" and other: "\<And>j. j < length (cpus ?s) \<Longrightarrow> j \<noteq> i \<Longrightarrow> cpus s' ! j = cpus ?s ! j"
    using cpu_step_frame [OF step] by auto
  have upd: "cpus s' = (cpus ?s)[i := cpus s' ! i]" using len other i by (intro nth_equalityI) (auto simp: nth_upd)
  note loc = mset_subset_eqD [OF kept_local [OF i upd sub]]
  have none: "calls S ! i = None" using D(4) [OF i] pc by blast
  have "task_ok (K (pid q)) q None" if "q \<in># opt_mset (cproc (cpus ?s ! i)) + mlq_ready (sched ?s)" for q
    using that D(5) [OF i] D(6) none by (cases "cproc (cpus ?s ! i)") auto
  then have idle: "task_ok (K (pid q)) q None" if "q \<in># opt_mset (cproc (cpus s' ! i)) + mlq_ready (sched s')" for q
    using loc [OF that] by blast
  have "fine_ok env tr' K (S\<lparr>base := s', calls := calls S\<rparr>)"
  proof (rule fine_okI)
    show "os_shape env tr' s'" by (rule shape)
    show "cells_ok K (live s') (ram s') (swp s')" unfolding dev by (rule cells_sub [OF D(2) sub])
    show "length (calls S) = length (cpus s')" using D(3) len by simp
    show "cpc (cpus s' ! j) = CRun" if "j < length (cpus s')" "calls S ! j \<noteq> None" for j
      using D(4) [of j] that none len other [of j] by (cases "j = i") simp_all
    show "task_ok (K (pid q)) q (calls S ! j)" if "j < length (cpus s')" "cproc (cpus s' ! j) = Some q" for j q
    proof (cases "j = i")
      case True
      then show ?thesis using idle [of q] that(2) none by simp
    next
      case False
      then show ?thesis using D(5) [of j q] that len other [of j] by simp
    qed
    show "task_ok (K (pid q)) q None" if "q \<in># mlq_ready (sched s')" for q using idle that by simp
  qed
  then show "\<exists>tr. fine_ok env tr K (S\<lparr>base := s'\<rparr>)" by auto
qed

lemma frame_ok:
  assumes ok: "fine_ok env tr K S" and shape: "os_shape env tr' s'"
    and same: "cpus s' = cpus (base S)" "sched s' = sched (base S)" "ram s' = ram (base S)" "swp s' = swp (base S)"
  shows "fine_ok env tr' K (S\<lparr>base := s'\<rparr>)"
proof -
  note D = fine_okD [OF ok]
  have "fine_ok env tr' K (S\<lparr>base := s', calls := calls S\<rparr>)"
    by (rule fine_okI) (use D shape same live_cong [OF same(1,2)] in simp_all)
  then show ?thesis by simp
qed

lemma ld_ok_step:
  assumes ok: "fine_ok env tr K S" and step: "ld_routine env (base S) = Some s'"
  shows "\<exists>tr K. fine_ok env tr K (S\<lparr>base := s'\<rparr>)"
proof -
  let ?s = "base S"
  note D = fine_okD [OF ok]
  from ld_step_shape [OF D(1) step] obtain tr' where shape: "os_shape env tr' s'" by blast
  from ld_step_frame [OF D(1) step] have same: "ram s' = ram ?s" "swp s' = swp ?s" "cpus s' = cpus ?s"
    and cases: "mlq_ready (sched s') = mlq_ready (sched ?s) \<or> (\<exists>p. fresh_mm (mm p) \<and> pc p = 0 \<and> mlq_ready (sched s') = add_mset p (mlq_ready (sched ?s)))"
    by auto
  from cases show ?thesis
  proof (elim disjE exE conjE)
    assume eq: "mlq_ready (sched s') = mlq_ready (sched ?s)"
    then have "live s' = live ?s" using same(3) by (simp add: live_def)
    then have "fine_ok env tr' K (S\<lparr>base := s', calls := calls S\<rparr>)"
      using D shape same eq by (intro fine_okI) simp_all
    then show ?thesis by auto
  next
    fix p assume new: "fresh_mm (mm p)" "pc p = 0" and eq: "mlq_ready (sched s') = add_mset p (mlq_ready (sched ?s))"
    then have live: "live s' = add_mset p (live ?s)" using same(3) by (simp add: live_def)
    have fp: "fresh_pid (pid p) (live ?s)" using live_fresh [OF _ live] shape by (simp add: os_shape_def)
    let ?K = "K(pid p := \<lparr>k_ram = [], k_swp = [], k_view = (\<lambda>_. 0)\<rparr>)"
    have other: "?K (pid q) = K (pid q)" if "q \<in># live ?s" for q using fp that by (simp add: fresh_pid_def)
    have held: "q \<in># live ?s" if "i < length (cpus ?s)" "cproc (cpus ?s ! i) = Some q" for i q
      using on_cpus_member [OF nth_mem that(2)] that(1) by (simp add: live_def)
    have "history p (\<lambda>_. 0)" using new flat_stop unfolding history_def by blast
    then have task: "task_ok (?K (pid p)) p None" using fresh_fields(5) [OF new(1)] by simp
    have "fine_ok env tr' ?K (S\<lparr>base := s', calls := calls S\<rparr>)"
    proof (rule fine_okI)
      show "os_shape env tr' s'" by (rule shape)
      show "cells_ok ?K (live s') (ram s') (swp s')" unfolding live same by (rule cells_add_fresh [OF D(2) new(1) fp])
      show "length (calls S) = length (cpus s')" using D(3) same by simp
      show "cpc (cpus s' ! j) = CRun" if "j < length (cpus s')" "calls S ! j \<noteq> None" for j using D(4) that same by simp
      show "task_ok (?K (pid q)) q (calls S ! j)" if "j < length (cpus s')" "cproc (cpus s' ! j) = Some q" for j q
        using that same(3) D(5) [of j q] other [OF held [of j q]] by simp
      show "task_ok (?K (pid q)) q None" if q: "q \<in># mlq_ready (sched s')" for q
      proof (cases "q = p")
        case False
        then have q': "q \<in># mlq_ready (sched ?s)" using q eq by simp
        then have "q \<in># live ?s" by (simp add: live_def)
        then show ?thesis using D(6) [OF q'] by (simp only: other)
      qed (use task in simp)
    qed
    then show ?thesis by auto
  qed
qed

text \<open>Every step keeps the invariant, until the program exits.\<close>

definition fine_inv :: "os_env \<Rightarrow> fine_t \<Rightarrow> bool" where
  "fine_inv env S \<longleftrightarrow> (\<exists>tr K. fine_ok env tr K S)"

lemma os_step_at:
  assumes "os_step env (Cpu i) s = Some s'" "\<not> running i s"
  shows "cpu_routine i s = Some s'" "cpc (cpus s ! i) \<noteq> CRun"
proof -
  show c: "cpu_routine i s = Some s'" using assms(1) by (simp add: os_step_def split: if_splits)
  have "exited s = None" using assms(1) by (simp add: os_step_def split: if_splits)
  then show "cpc (cpus s ! i) \<noteq> CRun" using assms(2) cpu_routineD [OF c] by (auto simp: running_def)
qed

lemma fine_step_inv:
  assumes inv: "fine_inv env S" and legal: "fine_legal a S" and step: "fine_step env a S = Some S'" and run: "exited (base S') = None"
  shows "fine_inv env S'"
proof -
  obtain tr K where ok: "fine_ok env tr K S" using inv by (auto simp: fine_inv_def)
  note shape = fine_okD(1) [OF ok]
  show ?thesis
  proof (cases "\<exists>i. a = Cpu i \<and> running i (base S)")
    case True
    then obtain i where "a = Cpu i" "running i (base S)" by blast
    with call_step_ok [OF ok this(2)] legal step show ?thesis by (auto simp: fine_step_def fine_inv_def)
  next
    case False
    then obtain s' where s': "os_step env a (base S) = Some s'" "S' = S\<lparr>base := s'\<rparr>"
      using step by (auto simp: fine_step_def split: os_act.splits)
    then have run': "exited s' = None" using run by simp
    consider (cpu) i where "a = Cpu i" | (ld) "a = Ld" | (rest) "timer_act a \<noteq> None \<or> a = Join \<or> a = Return" by (cases a) auto
    then show ?thesis
    proof cases
      case (cpu i)
      then have "\<not> running i (base S)" using False by blast
      note at = os_step_at [OF s'(1) [unfolded cpu] this]
      from cpu_other_ok(1) [OF ok at(2,1)] s'(2) show ?thesis unfolding fine_inv_def by blast
    next
      case ld
      then have "ld_routine env (base S) = Some s'" using s'(1) by (simp add: os_step_def split: if_splits)
      from ld_ok_step [OF ok this] s'(2) show ?thesis by (simp add: fine_inv_def)
    next
      case rest
      then have "\<And>i. a \<noteq> Cpu i" by auto
      then have "os_legal a (base S)" by (simp add: os_legal_def)
      from os_step_shape [OF shape this s'(1) run'] obtain tr' where "os_shape env tr' s'" by blast
      from frame_ok [OF ok this] join_return_frame [OF s'(1) rest] s'(2) show ?thesis by (auto simp: fine_inv_def)
    qed
  qed
qed

lemma fine_start_inv:
  assumes "booted env s0"
  shows "fine_inv env (fine_start s0)" and "exited s0 = None"
proof -
  have inv: "os_inv env [] s0" and "exited s0 = None" using booted_inv [OF assms] by simp_all
  then show "exited s0 = None" by simp
  obtain c mp node q where b: "boot c mp node q = Some s0" and q: "\<forall>i<MAX_PRIO. length (proc (queues q ! i)) = MAX_QUEUE_SIZE"
    using assms by (auto simp: booted_def)
  then have cs: "cpus s0 = replicate (nat (num_cpus c)) \<lparr>cpc = CTop, time_left = 0, cproc = None\<rparr>" "sched s0 = init_scheduler q"
    by (auto simp: boot_def bind_Some_iff)
  have ready: "mlq_ready (sched s0) = {#}" using init_scheduler_ok [OF q] by (simp add: cs mlq_ready_def a_ready_empty_iff)
  then have "live s0 = {#}" by (simp add: live_def cs on_cpus_def)
  then have "cells_ok K (live s0) (ram s0) (swp s0)" for K using inv by (simp add: cells_ok_def os_inv_def pool_ok_def)
  then have "fine_ok env [] (\<lambda>_. \<lparr>k_ram = [], k_swp = [], k_view = (\<lambda>_. 0)\<rparr>) (fine_start s0)"
    using inv ready by (simp add: fine_ok_def fine_start_def os_inv_def cs(1))
  then show "fine_inv env (fine_start s0)" by (auto simp: fine_inv_def)
qed

lemma fine_exited: "fine_step env a S = Some S' \<Longrightarrow> exited (base S) = None"
  by (auto simp: fine_step_def running_def os_step_def split: os_act.splits if_splits)

lemma fine_reach_inv: "fine_reach env (fine_start s0) S \<Longrightarrow> booted env s0 \<Longrightarrow> exited (base S) = None \<Longrightarrow> fine_inv env S"
proof (induction rule: fine_reach.induct)
  case fine_refl
  then show ?case by (intro fine_start_inv)
next
  case (fine_move S a S')
  then have "exited (base S) = None" by (intro fine_exited)
  then show ?case using fine_step_inv [OF _ fine_move.hyps(2,3) fine_move.prems(2)] fine_move.IH [OF fine_move.prems(1)] by blast
qed

end
