(* ===== verification/Os_Fine.thy ===== *)
theory Os_Fine
  imports Os_Steps
begin

text \<open>
  What holds of every run of the simulator when its processors execute instructions step by
  step: the frames, the bytes and the computation of every process; progress; and the runs
  with whole instructions are among these.
\<close>

section \<open>What the invariant says\<close>

lemma fine_knows:
  assumes "fine_ok env tr K S" "q \<in># live (base S)"
  shows "knows (ctx_of q (ram (base S)) (swp (base S))) (k_view (K (pid q)))"
  using fine_okD(2) [OF assms(1)] assms(2) by (simp add: cells_ok_def cell_ok_def)

lemma vdom_ctx: "vdom (ctx_of q r w) = vdom (ctx_of q r' w')"
  by (simp add: vdom_def ctx_of_def)

text \<open>A process that is in no call has done nothing but run its program.\<close>

definition in_call :: "pcb_t \<Rightarrow> fine_t \<Rightarrow> bool" where
  "in_call p S \<longleftrightarrow> (\<exists>i<length (cpus (base S)). calls S ! i \<noteq> None \<and> cproc (cpus (base S) ! i) = Some p)"

lemma idle_task:
  assumes ok: "fine_ok env tr K S" and p: "p \<in># live (base S)" "\<not> in_call p S"
  shows "task_ok (K (pid p)) p None"
proof -
  from p(1) consider "p \<in># mlq_ready (sched (base S))" | "p \<in># on_cpus (cpus (base S))" by (auto simp: live_def)
  then show ?thesis
  proof cases
    case 2
    then obtain i where i: "i < length (cpus (base S))" "cproc (cpus (base S) ! i) = Some p"
      using in_on_cpus by (metis in_set_conv_nth)
    then have "calls S ! i = None" using p(2) by (auto simp: in_call_def)
    then show ?thesis using fine_okD(5) [OF ok i] by simp
  qed (rule fine_okD(6) [OF ok])
qed

section \<open>A step of a thread and the processes it does not hold\<close>

lemma call_step_calls:
  assumes "call_step i S = Some S'"
  shows "i < length (calls S)" "calls S ! i = Some (Ret x) \<Longrightarrow> calls S' ! i = None"
    "calls S ! i = Some (Step f) \<Longrightarrow> \<exists>b. calls S' ! i = Some b \<and> (b, Step f) \<in> later"
    "calls S ! i = None \<Longrightarrow> calls S' ! i \<noteq> None"
proof -
  show i: "i < length (calls S)" using assms by (auto simp: call_step_def Let_def bind_Some_iff list_get_eq_Some)
  note d = call_step_def Let_def bind_Some_iff list_get_eq_Some set_call_def later_def i
  show "calls S ! i = Some (Ret x) \<Longrightarrow> calls S' ! i = None" using assms by (cases x) (auto simp: d)
  show "\<exists>b. calls S' ! i = Some b \<and> (b, Step f) \<in> later" if f: "calls S ! i = Some (Step f)"
  proof -
    obtain c b v where "f c = Some (b, v)" "calls S' = (calls S)[i := Some b]" using assms by (auto simp: d f)
    then show ?thesis using i unfolding later_def by auto
  qed
  show "calls S ! i = None \<Longrightarrow> calls S' ! i \<noteq> None" using assms by (auto simp: d)
qed

lemma running_replaced: "replaced i c s s' \<Longrightarrow> cpc c = CRun \<Longrightarrow> running i s \<Longrightarrow> running i s'"
  by (simp add: running_def replaced_fields)

lemma fine_step_other:
  assumes ok: "fine_ok env tr K S" and legal: "fine_legal a S" and step: "fine_step env a S = Some S'"
    and q: "q \<in># live (base S)" and held: "\<And>i. a = Cpu i \<Longrightarrow> cproc (cpus (base S) ! i) \<noteq> Some q"
  shows "q \<in># live (base S') \<and> (\<forall>x\<in>vdom (ctx_of q (ram (base S)) (swp (base S))).
    vread (ctx_of q (ram (base S')) (swp (base S'))) x = vread (ctx_of q (ram (base S)) (swp (base S))) x)"
proof (cases "\<exists>i. a = Cpu i \<and> running i (base S)")
  case True
  then obtain i where a: "a = Cpu i" and run: "running i (base S)" by blast
  then have i: "i < length (cpus (base S))" by (simp add: running_def)
  obtain c p k where p: "cproc (cpus (base S) ! i) = Some p" "fine_ok env tr (K(pid p := k)) S'" "replaced i c (base S) (base S')"
    using call_step_ok [OF ok run] legal step a run by (auto simp: fine_step_def)
  have l: "live (base S) = add_mset p (rest_of i (base S))" using live_rest [OF i] p(1) by simp
  have "q \<noteq> p" using held [OF a] p(1) by auto
  then have r: "q \<in># rest_of i (base S)" using q by (simp add: l)
  note f = replaced_fields [OF p(3)]
  have "q \<in># rest_of i (base S')" using r rest_update [OF i f(1,4)] by simp
  then have q': "q \<in># live (base S')" using live_rest [of i "base S'"] i by (simp add: f(1))
  have "ld_ok (base S)" using fine_okD(1) [OF ok] by (simp add: os_shape_def)
  then have "pid q \<noteq> pid p" using live_fresh [OF _ l] r by (simp add: fresh_pid_def)
  then have "knows (ctx_of q (ram (base S')) (swp (base S'))) (k_view (K (pid q)))" using fine_knows [OF p(2) q'] by simp
  then show ?thesis using q' fine_knows [OF ok q] vdom_ctx unfolding knows_def by metis
next
  case False
  then obtain s' where s': "os_step env a (base S) = Some s'" "base S' = s'"
    using step by (auto simp: fine_step_def split: os_act.splits)
  consider (cpu) i where "a = Cpu i" | (ld) "a = Ld" | (rest) "timer_act a \<noteq> None \<or> a = Join \<or> a = Return" by (cases a) auto
  then show ?thesis
  proof cases
    case (cpu i)
    then have "\<not> running i (base S)" using False by blast
    note at = os_step_at [OF s'(1) [unfolded cpu] this]
    from cpu_other_ok(2) [OF ok at(2,1)] held [OF cpu] q s'(2) show ?thesis by (auto simp: live_kept_def)
  next
    case ld
    then have "ld_routine env (base S) = Some s'" using s'(1) by (simp add: os_step_def split: if_splits)
    from ld_step_frame [OF fine_okD(1) [OF ok] this] q s'(2) show ?thesis by (auto simp: live_def)
  next
    case rest
    from join_return_frame [OF s'(1) rest] q s'(2) show ?thesis by (simp add: live_def)
  qed
qed

section \<open>A call returns\<close>

text \<open>Steps of processor \<open>i\<close> alone, inside one instruction.\<close>

inductive solo :: "os_env \<Rightarrow> nat \<Rightarrow> fine_t \<Rightarrow> fine_t \<Rightarrow> bool" for env i where
  solo_stop: "solo env i S S"
| solo_step: "\<lbrakk>running i (base S); fine_legal (Cpu i) S; fine_step env (Cpu i) S = Some S1; solo env i S1 S2\<rbrakk> \<Longrightarrow> solo env i S S2"

lemma solo_reach: "solo env i S S' \<Longrightarrow> fine_reach env S0 S \<Longrightarrow> fine_reach env S0 S'"
  by (induction rule: solo.induct) (auto intro: fine_reach.fine_move)

lemma fine_running: "running i (base S) \<Longrightarrow> fine_step env (Cpu i) S = call_step i S"
  by (simp add: fine_step_def)

lemma call_returns:
  assumes "fine_ok env tr K S" "running i (base S)" "calls S ! i = Some a"
  shows "\<exists>S'. solo env i S S' \<and> cpc (cpus (base S') ! i) = CSlot \<and> calls S' ! i = None"
  using assms
proof (induction a arbitrary: K S rule: wf_induct_rule [OF wf_later])
  case (1 a)
  have legal: "fine_legal (Cpu i) S" using "1.prems"(3) by (simp add: fine_legal_def)
  obtain S1 c and p :: pcb_t and k where S1: "call_step i S = Some S1" "fine_ok env tr (K(pid p := k)) S1" "replaced i c (base S) (base S1)"
    "cpc c = (if \<exists>x. calls S ! i = Some (Ret x) then CSlot else CRun)"
    using call_step_ok [OF "1.prems"(1,2) legal] by metis
  have step: "fine_step env (Cpu i) S = Some S1" using S1(1) "1.prems"(2) by (simp add: fine_running)
  have i: "i < length (cpus (base S))" using "1.prems"(2) by (simp add: running_def)
  show ?case
  proof (cases a)
    case (Ret x)
    then have "calls S1 ! i = None" "cpc (cpus (base S1) ! i) = CSlot"
      using call_step_calls(2) [OF S1(1)] "1.prems"(3) i S1(4) by (cases x; simp add: replaced_fields [OF S1(3)])+
    then show ?thesis using solo_step [OF "1.prems"(2) legal step solo_stop] by blast
  next
    case (Step f)
    then obtain b where b: "calls S1 ! i = Some b" "(b, a) \<in> later"
      using call_step_calls(3) [OF S1(1)] "1.prems"(3) by auto
    have "running i (base S1)" using running_replaced [OF S1(3) _ "1.prems"(2)] S1(4) Step "1.prems"(3) by simp
    from "1.IH" [OF b(2) S1(2) this b(1)] show ?thesis using solo_step [OF "1.prems"(2) legal step] by blast
  qed
qed

section \<open>Whole instructions\<close>

lemma exec_solo:
  assumes "exec a c = Some (x, c')" "running i (base S)" "calls S ! i = Some a" "i < length (calls S)"
    "cproc (cpus (base S) ! i) = Some p" "ctx_of p (ram (base S)) (swp (base S)) = c"
  shows "solo env i S (set_call i (Some (Ret x)) (set_cpu i ((cpus (base S) ! i)\<lparr>cproc := Some (p\<lparr>mm := vmm c'\<rparr>)\<rparr>)
    ((base S)\<lparr>ram := vram c', swp := vswp c'\<rparr>)) S)"
  using assms
proof (induction a arbitrary: c S p)
  case (Ret y)
  then have "p\<lparr>mm := vmm c'\<rparr> = p" "(base S)\<lparr>ram := vram c', swp := vswp c'\<rparr> = base S" "y = x"
    by (auto simp: ctx_of_def)
  moreover have "(cpus (base S) ! i)\<lparr>cproc := Some p\<rparr> = cpus (base S) ! i" using Ret.prems by simp
  moreover have "(calls S)[i := Some (Ret x)] = calls S" using Ret.prems(3) calculation(3) by (metis list_update_id)
  ultimately have "set_call i (Some (Ret x)) (set_cpu i ((cpus (base S) ! i)\<lparr>cproc := Some (p\<lparr>mm := vmm c'\<rparr>)\<rparr>)
    ((base S)\<lparr>ram := vram c', swp := vswp c'\<rparr>)) S = S" by (simp only: set_call_def set_cpu_def list_update_id) simp
  then show ?case using solo_stop by metis
next
  case (Step f)
  obtain b v where b: "f c = Some (b, v)" "exec b v = Some (x, c')" using Step.prems(1) by (auto simp: bind_Some_iff)
  let ?c = "cpus (base S) ! i"
  define s1 where "s1 = set_cpu i (?c\<lparr>cproc := Some (p\<lparr>mm := vmm v\<rparr>)\<rparr>) ((base S)\<lparr>ram := vram v, swp := vswp v\<rparr>)"
  define S1 where "S1 = set_call i (Some b) s1 S"
  have i: "i < length (cpus (base S))" using Step.prems(2) by (simp add: running_def)
  have step: "fine_step env (Cpu i) S = Some S1"
    using Step.prems b(1) i by (simp add: fine_running call_step_def Let_def list_get_def S1_def s1_def)
  have f: "base S1 = s1" "calls S1 = (calls S)[i := Some b]" "cpus s1 ! i = ?c\<lparr>cproc := Some (p\<lparr>mm := vmm v\<rparr>)\<rparr>"
    "ram s1 = vram v" "swp s1 = vswp v" using i by (simp_all add: S1_def s1_def set_call_def)
  have run: "running i (base S1)" using Step.prems(2) unfolding f by (simp add: running_def f s1_def)
  have ctx: "ctx_of (p\<lparr>mm := vmm v\<rparr>) (ram (base S1)) (swp (base S1)) = v" by (simp add: f ctx_of_def)
  have "solo env i S1 (set_call i (Some (Ret x)) (set_cpu i ((cpus (base S1) ! i)\<lparr>cproc := Some (p\<lparr>mm := vmm v\<rparr>\<lparr>mm := vmm c'\<rparr>)\<rparr>)
      ((base S1)\<lparr>ram := vram c', swp := vswp c'\<rparr>)) S1)"
    by (rule Step.IH [OF rangeI [of f c], of "(b, v)" b v S1 "p\<lparr>mm := vmm v\<rparr>"])
      (use b run ctx Step.prems(4) in \<open>simp_all add: f\<close>)
  moreover have "set_call i (Some (Ret x)) (set_cpu i ((cpus (base S1) ! i)\<lparr>cproc := Some (p\<lparr>mm := vmm v\<rparr>\<lparr>mm := vmm c'\<rparr>)\<rparr>)
      ((base S1)\<lparr>ram := vram c', swp := vswp c'\<rparr>)) S1
    = set_call i (Some (Ret x)) (set_cpu i (?c\<lparr>cproc := Some (p\<lparr>mm := vmm c'\<rparr>)\<rparr>) ((base S)\<lparr>ram := vram c', swp := vswp c'\<rparr>)) S"
    by (simp add: f set_call_def) (simp add: set_call_def set_cpu_def S1_def s1_def)
  moreover have "fine_legal (Cpu i) S" using Step.prems(3) by (simp add: fine_legal_def)
  ultimately show ?case using solo_step [OF Step.prems(2) _ step] by simp
qed

text \<open>A step with a whole instruction is a sequence of steps in which nobody else moves.\<close>

lemma run_solo:
  assumes run: "running i s" and legal: "os_legal (Cpu i) s" and step: "cpu_routine i s = Some s'"
  shows "solo env i (fine_start s) (fine_start s')"
proof -
  let ?c = "cpus s ! i" and ?as = "replicate (length (cpus s)) None :: (int \<times> console_line list \<times> pcb_t) act option list"
  have i: "i < length (cpus s)" "cpc ?c = CRun" using run by (simp_all add: running_def)
  obtain p r ls p' m w t where p: "cproc ?c = Some p" "run p (ram s) (swp s) = Some (r, ls, p', m, w)" "chk_int (time_left ?c - 1) = Some t"
    and s': "s' = say (map Console ls) (set_cpu i (?c\<lparr>cproc := Some p', time_left := t, cpc := CSlot\<rparr>) (s\<lparr>ram := m, swp := w\<rparr>))"
    using step i run by (auto simp: cpu_routine_def bind_Some_iff list_get_eq_Some running_def)
  define S where "S = \<lparr>base = s, calls = ?as[i := Some (run_act p)]\<rparr>"
  define q where "q = p\<lparr>mm := mm p'\<rparr>"
  define S1 where "S1 = set_call i (Some (Ret (r, ls, p'))) (set_cpu i (?c\<lparr>cproc := Some q\<rparr>) (s\<lparr>ram := m, swp := w\<rparr>)) S"
  have lg: "fine_legal (Cpu i) (fine_start s)" using legal by (simp add: fine_legal_def fine_start_def)
  have first: "fine_step env (Cpu i) (fine_start s) = Some S" using run i p(1)
    by (simp add: fine_step_def fine_start_def call_step_def list_get_def Let_def set_call_def S_def)
  have "exec (run_act p) (ctx_of p (ram s) (swp s)) = Some ((r, ls, p'), ctx_of p' m w)"
    by (simp add: exec_run p(2) call_out_def)
  then have "solo env i S (set_call i (Some (Ret (r, ls, p'))) (set_cpu i ((cpus (base S) ! i)\<lparr>cproc := Some (p\<lparr>mm := vmm (ctx_of p' m w)\<rparr>)\<rparr>)
      ((base S)\<lparr>ram := vram (ctx_of p' m w), swp := vswp (ctx_of p' m w)\<rparr>)) S)"
    by (rule exec_solo) (use run i p(1) in \<open>simp_all add: S_def\<close>)
  then have middle: "solo env i S S1" by (simp add: S1_def q_def S_def ctx_of_def)
  have f: "base S1 = set_cpu i (?c\<lparr>cproc := Some q\<rparr>) (s\<lparr>ram := m, swp := w\<rparr>)" "calls S1 = ?as[i := Some (Ret (r, ls, p'))]"
    by (simp_all add: S1_def S_def set_call_def)
  have run1: "running i (base S1)" using run by (simp add: f running_def)
  have "call_step i S1 = Some (set_call i None (say (map Console ls)
      (set_cpu i ((cpus (base S1) ! i)\<lparr>cproc := Some p', time_left := t, cpc := CSlot\<rparr>) (base S1))) S1)"
    using i p(3) by (simp add: call_step_def list_get_def Let_def f)
  moreover have "?as[i := None] = ?as" by (metis i(1) list_update_id nth_replicate)
  ultimately have last: "fine_step env (Cpu i) S1 = Some (fine_start s')"
    using run1 by (simp add: fine_running set_call_def f s' fine_start_def) (use i in \<open>simp add: say_def set_cpu_def S1_def S_def set_call_def\<close>)
  have "fine_legal (Cpu i) S1" using i by (simp add: fine_legal_def f)
  from solo_step [OF run1 this last solo_stop] have "solo env i S1 (fine_start s')" .
  with middle have "solo env i S (fine_start s')" by (induction rule: solo.induct) (auto intro: solo_step)
  then show ?thesis using solo_step [OF _ lg first] run by (simp add: fine_start_def)
qed

lemma coarse_step:
  assumes inv: "os_shape env tr s" and legal: "os_legal a s" and step: "os_step env a s = Some s'"
    and reach: "fine_reach env S0 (fine_start s)"
  shows "fine_reach env S0 (fine_start s')"
proof (cases "\<exists>i. a = Cpu i \<and> running i s")
  case True
  then obtain i where a: "a = Cpu i" "running i s" by blast
  then have "cpu_routine i s = Some s'" using step by (simp add: os_step_def split: if_splits)
  from solo_reach [OF run_solo [OF a(2) legal [unfolded a(1)] this] reach] show ?thesis .
next
  case False
  consider (cpu) i where "a = Cpu i" | (ld) "a = Ld" | (rest) "timer_act a \<noteq> None \<or> a = Join \<or> a = Return" by (cases a) auto
  then have len: "length (cpus s') = length (cpus s)"
  proof cases
    case (cpu i)
    then have "cpu_routine i s = Some s'" using step by (simp add: os_step_def split: if_splits)
    from cpu_step_frame [OF this] show ?thesis by simp
  next
    case ld
    then have "ld_routine env s = Some s'" using step by (simp add: os_step_def split: if_splits)
    from ld_step_frame [OF inv this] show ?thesis by simp
  next
    case rest
    from join_return_frame [OF step rest] show ?thesis by simp
  qed
  have "fine_step env a (fine_start s) = map_option (\<lambda>s'. (fine_start s)\<lparr>base := s'\<rparr>) (os_step env a s)"
    using False by (cases a) (auto simp: fine_step_def fine_start_def)
  then have "fine_step env a (fine_start s) = Some (fine_start s')" using step len by (simp add: fine_start_def)
  then show ?thesis by (rule fine_reach.fine_move [OF reach, rotated]) (use legal in \<open>auto simp: fine_legal_def fine_start_def\<close>)
qed

lemma coarse_reach:
  assumes "os_reach env s0 s" "booted env s0"
  shows "fine_reach env (fine_start s0) (fine_start s)"
  using assms
proof (induction rule: os_reach.induct)
  case start
  then show ?case by (intro fine_refl)
next
  case (move s a s')
  have "exited s = None" using move.hyps(3) by (simp add: os_step_def split: if_splits)
  from reach_inv [OF move.hyps(1) move.prems this] obtain tr where "os_inv env tr s" .
  from coarse_step [OF os_invD(1) [OF this] move.hyps(2,3) move.IH [OF move.prems]] show ?case .
qed

section \<open>The demonstration, in the middle of its instruction\<close>

lemma demo_running:
  obtains s p where "os_reach demo_env demo_s0 s" "exited s = None" "running 0 s" "os_legal (Cpu 0) s" "cproc (cpus s ! 0) = Some p"
    "live s = {#p#}" "pc p = 0" "code_size (code p) = 1" "length (cpus s) = 1"
proof -
  obtain s1 s2 p where s2: "os_reach demo_env demo_s0 s2" "exited s2 = None" "live s2 = {#p#}" "cpus s2 = cpus demo_s0"
    "timer s2 = boot_timer 2" "mlq_ready (sched s2) = {#p#}" "pc p = 0" "code_size (code p) = 1" "legal_step p" "cfg s2 = demo_cfg"
    by (rule demo_added)
  obtain tr where inv: "os_inv demo_env tr s2" by (rule reach_inv [OF s2(1) demo_booted s2(2)])
  then have q: "mlq_ok (sched s2)" by (simp add: os_inv_def os_shape_def shape_ok_def)
  obtain x q' where g: "get_proc (sched s2) = Some (x, q')" using mlq.get_total [OF q] by (metis get_proc_def)
  have "opt_mset x + mlq_ready q' = {#p#}" "x \<noteq> None" using get_live(2,3) [OF q g] s2(6) by auto
  then have x: "x = Some p" "mlq_ready q' = {#}" by (cases x; auto simp: single_is_union add_eq_conv_ex)+
  define c where "c = \<lparr>cpc = CCheck, time_left = 0, cproc = Some p\<rparr>"
  define s3 where "s3 = s2\<lparr>sched := q', cpus := [c]\<rparr>"
  define s4 where "s4 = say [Dispatched 0 (pid p)] (s3\<lparr>cpus := [c\<lparr>time_left := 2, cpc := CRun\<rparr>]\<rparr>)"
  have "os_step demo_env (Cpu 0) s2 = Some s3" using g x s2
    by (simp add: os_step_def cpu_routine_def list_get_def demo_fields boot_timer_state set_cpu_def s3_def c_def)
  from os_reach.move [OF s2(1) _ this] have r3: "os_reach demo_env demo_s0 s3" using s2(4) by (simp add: os_legal_def demo_fields)
  have "os_step demo_env (Cpu 0) s3 = Some s4" using s2
    by (simp add: os_step_def cpu_routine_def list_get_def boot_timer_state set_cpu_def s3_def s4_def c_def demo_cfg_def)
  from os_reach.move [OF r3 _ this] have r4: "os_reach demo_env demo_s0 s4" by (simp add: os_legal_def s3_def c_def)
  have "live s4 = {#p#}" by (simp add: live_def s4_def s3_def on_cpus_def c_def x(2))
  from that [OF r4 _ _ _ _ this] show ?thesis using s2
    by (simp add: s4_def s3_def c_def running_def os_legal_def boot_timer_state)
qed

lemma demo_in_call:
  obtains S p where "fine_reach demo_env (fine_start demo_s0) S" "exited (base S) = None" "running 0 (base S)" "calls S ! 0 \<noteq> None"
    "cproc (cpus (base S) ! 0) = Some p" "live (base S) = {#p#}" "length (cpus (base S)) = 1"
proof -
  obtain s p where s: "os_reach demo_env demo_s0 s" "exited s = None" "running 0 s" "os_legal (Cpu 0) s" "cproc (cpus s ! 0) = Some p" "live s = {#p#}" "length (cpus s) = 1"
    by (rule demo_running)
  have i: "0 < length (cpus s)" using s(3) by (simp add: running_def)
  have l: "fine_legal (Cpu 0) (fine_start s)" using s(4) by (simp add: fine_legal_def fine_start_def)
  have step: "fine_step demo_env (Cpu 0) (fine_start s) = Some (set_call 0 (Some (run_act p)) s (fine_start s))"
    using s(3,5) i by (simp add: fine_step_def call_step_def fine_start_def list_get_def)
  from that [OF fine_move [OF coarse_reach [OF s(1) demo_booted] l step]] show ?thesis
    using s i by (simp add: set_call_def fine_start_def)
qed

section \<open>Properties\<close>

lemma fine_reach_ok:
  assumes "booted env s0" "fine_reach env (fine_start s0) S" "exited (base S) = None"
  obtains tr K where "fine_ok env tr K S"
  using fine_reach_inv [OF assms(2,1,3)] by (auto simp: fine_inv_def)

text \<open>
  C1: memory safety of the running system. Processors make the steps of their instructions
  (count the free frames, take one, send out a victim, return a frame, access a byte) in any
  order, while the loader, the timer and the other processors go on. In every reachable state,
  also in the middle of calls, no frame of RAM or swap is in the page tables of two live
  processes or both in a table and on a free list, every page table is well formed, and no
  process is at two places.
\<close>

theorem fine_memory_safe:
  assumes "booted env s0" and "fine_reach env (fine_start s0) S" and "exited (base S) = None"
  shows "\<forall>p\<in>#live (base S). vm_ok (pool_ram (live (base S) - {#p#})) (pool_swp (live (base S) - {#p#})) (ctx_of p (ram (base S)) (swp (base S)))
    \<and> used_ram (mm p) \<inter> set (free_fp_list (ram (base S))) = {} \<and> used_swp (mm p) \<inter> set (free_fp_list (swp (base S))) = {}
    \<and> (\<forall>q\<in>#live (base S) - {#p#}. pid q \<noteq> pid p \<and> used_ram (mm p) \<inter> used_ram (mm q) = {} \<and> used_swp (mm p) \<inter> used_swp (mm q) = {})"
proof
  fix p assume p: "p \<in># live (base S)"
  obtain tr K where ok: "fine_ok env tr K S" by (rule fine_reach_ok [OF assms])
  let ?N = "live (base S) - {#p#}"
  note apart = cells_apart [OF fine_okD(2) [OF ok] p]
  have "pool_ram ?N \<subseteq> cell_ram K ?N" "pool_swp ?N \<subseteq> cell_swp K ?N" by (auto simp: pool_ram_def pool_swp_def cell_ram_def cell_swp_def)
  from vm_ok_anti [OF apart(4) this] have vm: "vm_ok (pool_ram ?N) (pool_swp ?N) (ctx_of p (ram (base S)) (swp (base S)))" .
  have "ld_ok (base S)" using fine_okD(1) [OF ok] by (simp add: os_shape_def)
  moreover have "live (base S) = add_mset p ?N" using p by simp
  ultimately have "fresh_pid (pid p) ?N" by (rule live_fresh)
  then show "vm_ok (pool_ram ?N) (pool_swp ?N) (ctx_of p (ram (base S)) (swp (base S)))
    \<and> used_ram (mm p) \<inter> set (free_fp_list (ram (base S))) = {} \<and> used_swp (mm p) \<inter> set (free_fp_list (swp (base S))) = {}
    \<and> (\<forall>q\<in>#?N. pid q \<noteq> pid p \<and> used_ram (mm p) \<inter> used_ram (mm q) = {} \<and> used_swp (mm p) \<inter> used_swp (mm q) = {})"
    using vm apart(1-3) unfolding fresh_pid_def by blast
qed

theorem fine_memory_safe_witness:
  "\<exists>S p. fine_reach demo_env (fine_start demo_s0) S \<and> in_call p S \<and> used_ram (mm p) \<inter> set (free_fp_list (ram (base S))) = {}"
proof -
  obtain S p where S: "fine_reach demo_env (fine_start demo_s0) S" "exited (base S) = None" "running 0 (base S)" "calls S ! 0 \<noteq> None"
    "cproc (cpus (base S) ! 0) = Some p" "live (base S) = {#p#}" by (rule demo_in_call)
  have "in_call p S" using S(3-5) by (auto simp: in_call_def running_def)
  with fine_memory_safe [OF demo_booted S(1,2)] S show ?thesis by auto
qed

text \<open>
  C13: a processor cannot disturb a process it does not hold. Any step of any thread, one
  step of an instruction of another processor included, leaves a process that the moving
  processor does not hold where the system can find it, with every byte of its memory.
\<close>

theorem fine_step_isolated:
  assumes "booted env s0" and "fine_reach env (fine_start s0) S" and "exited (base S) = None"
    and "fine_legal a S" and "fine_step env a S = Some S'"
    and "q \<in># live (base S)" and "\<forall>i. a = Cpu i \<longrightarrow> cproc (cpus (base S) ! i) \<noteq> Some q"
  shows "q \<in># live (base S') \<and> (\<forall>x\<in>vdom (ctx_of q (ram (base S)) (swp (base S))).
    vread (ctx_of q (ram (base S')) (swp (base S'))) x = vread (ctx_of q (ram (base S)) (swp (base S))) x)"
proof -
  obtain tr K where ok: "fine_ok env tr K S" by (rule fine_reach_ok [OF assms(1-3)])
  show ?thesis by (rule fine_step_other [OF ok assms(4-6)]) (use assms(7) in blast)
qed

theorem fine_step_isolated_witness:
  "\<exists>S S' q. fine_reach demo_env (fine_start demo_s0) S \<and> fine_step demo_env (Cpu 0) S = Some S' \<and> q \<in># live (base S')"
proof -
  obtain s1 s2 p where s: "os_reach demo_env demo_s0 s2" "exited s2 = None" "live s2 = {#p#}" "cpus s2 = cpus demo_s0"
    "timer s2 = boot_timer 2" by (rule demo_added)
  let ?S = "fine_start s2"
  obtain tr where inv: "os_inv demo_env tr s2" by (rule reach_inv [OF s(1) demo_booted s(2)])
  have legal: "os_legal (Cpu 0) s2" by (simp add: os_legal_def s(4) demo_fields)
  have "0 < length (cpus s2)" "dpcs (timer s2) ! 0 = DRun" by (simp_all add: s(4,5) demo_fields boot_timer_state)
  from cpu_total [OF inv legal this] obtain s' where "cpu_routine 0 s2 = Some s'" by blast
  then have step: "fine_step demo_env (Cpu 0) ?S = Some (?S\<lparr>base := s'\<rparr>)"
    by (simp add: fine_step_def fine_start_def running_def os_step_def s(2,4) demo_fields)
  have fl: "fine_legal (Cpu 0) ?S" using legal by (simp add: fine_legal_def fine_start_def)
  have f: "base ?S = s2" by (simp add: fine_start_def)
  have r: "fine_reach demo_env (fine_start demo_s0) ?S" by (rule coarse_reach [OF s(1) demo_booted])
  have "p \<in># live (base (?S\<lparr>base := s'\<rparr>))"
    using fine_step_isolated [OF demo_booted r _ fl step, of p] s(2-4) unfolding f by (auto simp: demo_fields)
  with r step show ?thesis by blast
qed

text \<open>
  C2: every process computes as if it were alone. At any moment of any run, a process that
  is not in the middle of an instruction has done exactly what its program does from its
  first instruction on a flat memory of zeros that nobody else can write, and that memory is
  what it reads now. (An allocation or a page fault may fail for want of a frame or a
  victim; then it changes no byte.)
\<close>

theorem fine_processes_flat:
  assumes "booted env s0" and "fine_reach env (fine_start s0) S" and "exited (base S) = None"
    and "p \<in># live (base S)" and "\<not> in_call p S"
  shows "\<exists>p0 ls g. fresh_mm (mm p0) \<and> pc p0 = 0 \<and> pid p0 = pid p \<and> code p0 = code p \<and> flat_steps p0 (\<lambda>_. 0) ls p g
    \<and> regions_ok (mm p) \<and> (\<forall>x\<in>vdom (ctx_of p (ram (base S)) (swp (base S))). vread (ctx_of p (ram (base S)) (swp (base S))) x = g x)"
proof -
  obtain tr K where ok: "fine_ok env tr K S" by (rule fine_reach_ok [OF assms(1-3)])
  let ?g = "k_view (K (pid p))"
  have task: "regions_ok (mm p)" "history p ?g" using idle_task [OF ok assms(4,5)] by simp_all
  obtain p0 ls where p0: "fresh_mm (mm p0)" "pc p0 = 0" "flat_steps p0 (\<lambda>_. 0) ls p ?g" using task(2) by (auto simp: history_def)
  with flat_pcb [OF p0(3)] task(1) fine_knows [OF ok assms(4)] show ?thesis unfolding knows_def by metis
qed

theorem fine_processes_flat_witness:
  "\<exists>S p p0 ls g. fine_reach demo_env (fine_start demo_s0) S \<and> p \<in># live (base S) \<and> pc p = 1 \<and> pc p0 = 0 \<and> flat_steps p0 (\<lambda>_. 0) ls p g"
proof -
  obtain s p where s: "os_reach demo_env demo_s0 s" "exited s = None" "running 0 s" "os_legal (Cpu 0) s" "cproc (cpus s ! 0) = Some p" "live s = {#p#}"
    "pc p = 0" "code_size (code p) = 1" by (rule demo_running)
  have i: "0 < length (cpus s)" "dpcs (timer s) ! 0 = DRun" "cpc (cpus s ! 0) = CRun" using s(3) by (simp_all add: running_def)
  obtain tr where inv: "os_inv demo_env tr s" by (rule reach_inv [OF s(1) demo_booted s(2)])
  from cpu_total [OF inv s(4) i(1,2)] obtain s' where cpu: "cpu_routine 0 s = Some s'" by blast
  then obtain r ls p' m w where run: "run p (ram s) (swp s) = Some (r, ls, p', m, w)" and p': "cproc (cpus s' ! 0) = Some p'" "0 < length (cpus s')" "exited s' = None"
    using i s(2,5) by (auto simp: cpu_routine_def list_get_def bind_Some_iff split: if_splits)
  have live: "p' \<in># live s'" using on_cpus_member [OF nth_mem [OF p'(2)] p'(1)] by (simp add: live_def)
  have "os_step demo_env (Cpu 0) s = Some s'" using cpu s(2) by (simp add: os_step_def)
  then have "fine_reach demo_env (fine_start demo_s0) (fine_start s')"
    using coarse_reach [OF os_reach.move [OF s(1,4)] demo_booted] by blast
  moreover have "\<not> in_call p' (fine_start s')" by (simp add: in_call_def fine_start_def)
  moreover have "pc p' = 1" using run_pcb [OF run] s(7,8) by simp
  moreover have "base (fine_start s') = s'" by (simp add: fine_start_def)
  ultimately show ?thesis using fine_processes_flat [OF demo_booted, of "fine_start s'" p'] live p'(3) by metis
qed

text \<open>
  C9: nothing faults and the system never gets stuck. In a reachable state in which every
  instruction about to begin is legal, every thread at work can make its step, in the middle
  of a call too, and some thread can move; and a processor in a call returns from it after
  finitely many steps of its own.
\<close>

theorem fine_never_stuck:
  assumes "booted env s0" and "fine_reach env (fine_start s0) S" and "exited (base S) = None" and "\<forall>i. fine_legal (Cpu i) S"
  shows "(\<forall>i<length (cpus (base S)). dpcs (timer (base S)) ! i = DRun \<longrightarrow> (\<exists>S'. fine_step env (Cpu i) S = Some S'))
    \<and> (dpcs (timer (base S)) ! ld_dev (base S) = DRun \<longrightarrow> (\<exists>S'. fine_step env Ld S = Some S'))
    \<and> (\<exists>a S'. fine_step env a S = Some S')
    \<and> (\<forall>i. running i (base S) \<and> calls S ! i \<noteq> None \<longrightarrow> (\<exists>S'. solo env i S S' \<and> calls S' ! i = None \<and> cpc (cpus (base S') ! i) = CSlot))"
proof -
  obtain tr K where ok: "fine_ok env tr K S" by (rule fine_reach_ok [OF assms(1-3)])
  note shape = fine_okD(1) [OF ok]
  have cpu: "\<exists>S'. fine_step env (Cpu i) S = Some S'" if i: "i < length (cpus (base S))" "dpcs (timer (base S)) ! i = DRun" for i
  proof (cases "running i (base S)")
    case True
    from call_step_ok [OF ok True] assms(4) True show ?thesis by (auto simp: fine_running)
  next
    case False
    have "i < length (dpcs (timer (base S)))" using shape i(1) by (simp add: os_shape_def dev_link_def)
    then have "cpc (cpus (base S) ! i) \<noteq> CRun" using False i assms(3) by (simp add: running_def)
    from cpu_total_shape [OF shape this i] False assms(3) show ?thesis by (auto simp: fine_step_def os_step_def)
  qed
  moreover have ld: "\<exists>S'. fine_step env Ld S = Some S'" if "dpcs (timer (base S)) ! ld_dev (base S) = DRun"
    using ld_total [OF shape that] assms(3) by (auto simp: fine_step_def os_step_def)
  moreover have "\<exists>a S'. fine_step env a S = Some S'"
    using shape assms(3)
  proof (cases rule: someone_moves)
    case (other a s')
    then have "fine_step env a S = Some (S\<lparr>base := s'\<rparr>)" by (cases a) (auto simp: fine_step_def)
    then show ?thesis by blast
  qed (use cpu ld in blast)+
  moreover have "\<exists>S'. solo env i S S' \<and> calls S' ! i = None \<and> cpc (cpus (base S') ! i) = CSlot"
    if "running i (base S)" "calls S ! i \<noteq> None" for i
    using call_returns [OF ok that(1)] that(2) by blast
  ultimately show ?thesis by blast
qed

theorem fine_never_stuck_witness:
  "\<exists>S S'. fine_reach demo_env (fine_start demo_s0) S \<and> calls S ! 0 \<noteq> None \<and> solo demo_env 0 S S' \<and> cpc (cpus (base S') ! 0) = CSlot"
proof -
  obtain S p where S: "fine_reach demo_env (fine_start demo_s0) S" "exited (base S) = None" "running 0 (base S)" "calls S ! 0 \<noteq> None"
    "length (cpus (base S)) = 1" by (rule demo_in_call)
  then have "\<forall>i. fine_legal (Cpu i) S" by (auto simp: fine_legal_def os_legal_def)
  from fine_never_stuck [OF demo_booted S(1,2) this] S show ?thesis by blast
qed

text \<open>
  The runs with whole instructions are among these. Executing an instruction in one
  step, as the theory Os does, gives what its steps give when nobody moves in between: every
  state that the simulator reaches with whole instructions it reaches step by step, with no
  call in progress.
\<close>

theorem whole_runs_are_fine_runs:
  assumes "booted env s0" and "os_reach env s0 s"
  shows "fine_reach env (fine_start s0) (fine_start s)"
  by (rule coarse_reach [OF assms(2,1)])

theorem whole_runs_are_fine_runs_witness:
  "\<exists>s. running 0 s \<and> fine_reach demo_env (fine_start demo_s0) (fine_start s)"
proof -
  obtain s p where s: "os_reach demo_env demo_s0 s" "exited s = None" "running 0 s" by (rule demo_running)
  from whole_runs_are_fine_runs [OF demo_booted s(1)] s(3) show ?thesis by blast
qed

end
