(* ===== verification/Os_Fine_Log.thy ===== *)
theory Os_Fine_Log
  imports Os_Log Os_Exit Os_Fine
begin

text \<open>
  The output, the data, the times and the exit of the simulator when its processors execute
  instructions step by step: what the theories Os_Log, Simulator and Os_Exit show of whole
  instructions holds at every moment of every call too.
\<close>

section \<open>The output\<close>

lemma call_log:
  assumes ok: "fine_ok env tr K S" and run: "running i (base S)" and legal: "fine_legal (Cpu i) S"
    and step: "call_step i S = Some S'" and sim: "log_sim w (base S)"
  shows "log_step w (base S) (base S')"
proof -
  let ?s = "base S"
  have i: "i < length (cpus ?s)" and pc: "cpc (cpus ?s ! i) = CRun" using run by (simp_all add: running_def)
  obtain c p p' where c: "cproc (cpus ?s ! i) = Some p" "replaced i c ?s (base S')" "cproc c = Some p'" "pid p' = pid p"
    "cpc c \<in> {CSlot, CRun}" using call_step_ok [OF ok run legal] step by (auto split: if_splits)
  obtain ls m v where s': "base S' = say (map Console ls) (set_cpu i c (?s\<lparr>ram := m, swp := v\<rparr>))" using c(2) by (auto simp: replaced_def)
  have "cpu_sim w i (cpus ?s ! i)" using sim i by (simp add: log_sim_def)
  then have "cpu_sim w i c" using c(1,3-5) pc by (auto simp: cpu_sim_def)
  then have "log_sim w (base S')" by (intro log_sim_quiet [OF sim i, of _ c]) (simp_all add: s')
  then show ?thesis by (intro log_stepI [of _ _ "map Console ls"]) (simp_all add: s')
qed

lemma fine_log:
  assumes ok: "fine_ok env tr K S" and legal: "fine_legal a S" and step: "fine_step env a S = Some S'" and sim: "log_sim w (base S)"
  shows "log_step w (base S) (base S')"
proof (cases "\<exists>i. a = Cpu i \<and> running i (base S)")
  case True
  then obtain i where "a = Cpu i" "running i (base S)" by blast
  with call_log [OF ok this(2) _ _ sim] legal step show ?thesis by (simp add: fine_step_def)
next
  case False
  then obtain s' where s': "os_step env a (base S) = Some s'" "base S' = s'"
    using step by (auto simp: fine_step_def split: os_act.splits)
  from os_log [OF fine_okD(1) [OF ok] s'(1) sim] s'(2) show ?thesis by simp
qed

text \<open>
  C8: what the simulator prints is a schedule. In every run each process is loaded once,
  dispatched only when it waits, by a processor that has no other, put back or finished only
  by the processor that runs it, and never dispatched after it has finished; no processor
  takes a process after it has stopped.
\<close>

theorem fine_output_is_schedule:
  assumes "booted env s0" and "fine_reach env (fine_start s0) S"
  shows "\<exists>w. replay (out (base S)) schedule0 = Some w \<and> (\<forall>i<length (cpus (base S)). cpu_sim w i (cpus (base S) ! i))"
proof -
  have "\<exists>w. replay (out (base S)) schedule0 = Some w \<and> log_sim w (base S)" using assms(2)
  proof (induction rule: fine_reach.induct)
    case fine_refl
    then show ?case using boot_log [OF assms(1)] by (intro exI [of _ schedule0]) (simp add: fine_start_def)
  next
    case (fine_move S a S')
    then obtain w where w: "replay (out (base S)) schedule0 = Some w" "log_sim w (base S)" by blast
    obtain tr K where "fine_ok env tr K S" by (rule fine_reach_ok [OF assms(1) fine_move.hyps(1) fine_exited [OF fine_move.hyps(3)]])
    from fine_log [OF this fine_move.hyps(2,3) w(2)] show ?case by (auto simp: log_step_def replay_snoc [OF w(1)])
  qed
  then show ?thesis by (auto simp: log_sim_def)
qed

theorem fine_output_is_schedule_witness:
  "\<exists>S w. fine_reach demo_env (fine_start demo_s0) S \<and> calls S ! 0 \<noteq> None \<and> replay (out (base S)) schedule0 = Some w \<and> up w 0"
proof -
  obtain S p where S: "fine_reach demo_env (fine_start demo_s0) S" "running 0 (base S)" "calls S ! 0 \<noteq> None" by (rule demo_in_call)
  from fine_output_is_schedule [OF demo_booted S(1)] S(2) obtain w
    where "replay (out (base S)) schedule0 = Some w" "cpu_sim w 0 (cpus (base S) ! 0)" by (auto simp: running_def)
  with S show ?thesis by (auto simp: cpu_sim_def running_def)
qed

section \<open>The data\<close>

text \<open>
  C22: data keep their C types. In every reachable state, in the middle of calls too, every
  page table entry of every process is empty or names an existing frame; between its
  instructions a process has its page directory, symbol table and page list within their
  arrays, its priority is a queue number and its program counter is not past its code; and no
  queue holds more than its ten slots.
\<close>

theorem fine_well_typed:
  assumes "booted env s0" and "fine_reach env (fine_start s0) S" and "exited (base S) = None"
  shows "(\<forall>p\<in>#live (base S). (\<forall>n<nat PAGING_MAX_PGN. entry_ok (ram (base S)) (swp (base S)) (pgd (mm p) n))
      \<and> (\<not> in_call p S \<longrightarrow> pcb_ok (ram (base S)) (swp (base S)) p))
    \<and> length (queues (sched (base S))) = MAX_PRIO
    \<and> (\<forall>q\<in>set (queues (sched (base S))). length (proc q) = MAX_QUEUE_SIZE \<and> 0 \<le> qsize q \<and> qsize q \<le> int MAX_QUEUE_SIZE)"
proof -
  let ?s = "base S"
  obtain tr K where ok: "fine_ok env tr K S" by (rule fine_reach_ok [OF assms])
  have pr: "\<forall>p\<in>#live ?s. proc_ok p" and q: "mlq_ok (sched ?s)" using fine_okD(1) [OF ok] by (simp_all add: os_shape_def shape_ok_def)
  have "(\<forall>n<nat PAGING_MAX_PGN. entry_ok (ram ?s) (swp ?s) (pgd (mm p) n)) \<and> (\<not> in_call p S \<longrightarrow> pcb_ok (ram ?s) (swp ?s) p)"
    if p: "p \<in># live ?s" for p
  proof -
    note vm = cells_apart(4) [OF fine_okD(2) [OF ok] p]
    have "pcb_ok (ram ?s) (swp ?s) p" if "\<not> in_call p S"
    proof -
      have "regions_ok (mm p)" using idle_task [OF ok p that] by simp
      then show ?thesis using vm pr p by (intro vm_ok_shape [OF vm]) (auto simp: regions_ok_def)
    qed
    then show ?thesis using vm_entry [OF vm] by blast
  qed
  moreover have "length (proc x) = MAX_QUEUE_SIZE \<and> 0 \<le> qsize x \<and> qsize x \<le> int MAX_QUEUE_SIZE" if "x \<in> set (queues (sched ?s))" for x
    using that mlq_ok_queue [OF q] mlq_ok_length [OF q] by (auto simp: in_set_conv_nth queue_ok_def)
  ultimately show ?thesis using mlq_ok_length [OF q] by blast
qed

theorem fine_well_typed_witness:
  "\<exists>S p. fine_reach demo_env (fine_start demo_s0) S \<and> in_call p S \<and> entry_ok (ram (base S)) (swp (base S)) (pgd (mm p) 0)"
proof -
  obtain S p where S: "fine_reach demo_env (fine_start demo_s0) S" "exited (base S) = None" "running 0 (base S)" "calls S ! 0 \<noteq> None"
    "cproc (cpus (base S) ! 0) = Some p" "live (base S) = {#p#}" by (rule demo_in_call)
  have "in_call p S" using S(3-5) by (auto simp: in_call_def running_def)
  have "p \<in># live (base S)" by (simp add: S(6))
  moreover have "0 < nat PAGING_MAX_PGN" by (simp add: PAGING_MAX_PGN_def)
  ultimately have "entry_ok (ram (base S)) (swp (base S)) (pgd (mm p) 0)" using fine_well_typed [OF demo_booted S(1,2)] by blast
  with \<open>in_call p S\<close> S(1) show ?thesis by blast
qed

section \<open>The times\<close>

text \<open>
  C35: no processor exceeds the time slot. In every reachable state the time a processor has
  left is between 0 and the configured slot, it is positive during an instruction, and a
  processor without a process has none.
\<close>

theorem fine_time_slice:
  assumes "booted env s0" and "fine_reach env (fine_start s0) S" and "exited (base S) = None" and "c \<in> set (cpus (base S))"
  shows "0 \<le> time_left c \<and> time_left c \<le> time_slot (cfg (base S)) \<and> (cpc c = CRun \<longrightarrow> 0 < time_left c)
    \<and> (cproc c = None \<longrightarrow> time_left c = 0 \<and> cpc c \<noteq> CRun)"
proof -
  obtain tr K where ok: "fine_ok env tr K S" by (rule fine_reach_ok [OF assms(1-3)])
  then have "cpu_ok (time_slot (cfg (base S))) c" using fine_okD(1) [OF ok] assms(4) by (simp add: os_shape_def shape_ok_def)
  then show ?thesis by (auto simp: cpu_ok_def)
qed

theorem fine_time_slice_witness:
  "\<exists>S. fine_reach demo_env (fine_start demo_s0) S \<and> calls S ! 0 \<noteq> None \<and> 0 < time_left (cpus (base S) ! 0)"
proof -
  obtain S p where S: "fine_reach demo_env (fine_start demo_s0) S" "exited (base S) = None" "running 0 (base S)" "calls S ! 0 \<noteq> None"
    by (rule demo_in_call)
  have "cpus (base S) ! 0 \<in> set (cpus (base S))" using S(3) by (simp add: running_def)
  from fine_time_slice [OF demo_booted S(1,2) this] S show ?thesis by (auto simp: running_def)
qed

text \<open>
  C21: processes arrive in order and on time. Whatever the processors are doing, the loader
  adds process \<open>i\<close> in the slot \<open>arrival i\<close>: its start time, or the slot after the arrival of
  the process before it when that is later; never earlier.
\<close>

theorem fine_loader_on_time:
  assumes "booted env s0" and "fine_reach env (fine_start s0) S" and "exited (base S) = None"
    and "fine_step env Ld S = Some S'" and "ld_i (base S') = Suc (ld_i (base S))"
  shows "current_time (timer (base S)) = of_nat (arrival (ld_start (cfg (base S))) (ld_i (base S)))
    \<and> ld_start (cfg (base S)) ! ld_i (base S) \<le> current_time (timer (base S))"
proof -
  obtain tr K where ok: "fine_ok env tr K S" by (rule fine_reach_ok [OF assms(1-3)])
  have "ld_routine env (base S) = Some (base S')" using assms(3,4) by (auto simp: fine_step_def os_step_def)
  from loader_due [OF fine_okD(1) [OF ok] this assms(5)] show ?thesis .
qed

theorem fine_loader_on_time_witness:
  "\<exists>S. fine_reach demo_env (fine_start demo_s0) S \<and> ldpc (base S) = LWait \<and> ld_start (cfg (base S)) ! 0 \<le> current_time (timer (base S))"
proof -
  obtain s1 s2 where s: "os_reach demo_env demo_s0 s1" "ld_routine demo_env s1 = Some s2" "ld_i s1 = 0" "ldpc s1 = LWait"
    "exited s1 = None" "ld_i s2 = 1" by (rule demo_added)
  have r: "fine_reach demo_env (fine_start demo_s0) (fine_start s1)" by (rule coarse_reach [OF s(1) demo_booted])
  have f: "base (fine_start s1) = s1" by (simp add: fine_start_def)
  have "fine_step demo_env Ld (fine_start s1) = Some ((fine_start s1)\<lparr>base := s2\<rparr>)" using s(2,5)
    by (simp add: fine_step_def os_step_def fine_start_def)
  from fine_loader_on_time [OF demo_booted r _ this] s(3-6) r show ?thesis by (intro exI [of _ "fine_start s1"]) (simp add: f)
qed

section \<open>The exit\<close>

fun fine_run :: "os_env \<Rightarrow> os_act list \<Rightarrow> fine_t \<Rightarrow> fine_t option" where
  "fine_run env [] S = Some S"
| "fine_run env (a # as) S = do { S' \<leftarrow> fine_step env a S; fine_run env as S' }"

text \<open>When the processors have left, no call is in progress and the steps are those of the theory Os.\<close>

lemma left_fine_step:
  assumes "all_left (base S)"
  shows "fine_step env a S = map_option (\<lambda>s. S\<lparr>base := s\<rparr>) (os_step env a (base S))"
proof -
  have "\<not> running i (base S)" for i using assms nth_mem by (fastforce simp: running_def all_left_def)
  then show ?thesis by (cases a) (simp_all add: fine_step_def)
qed

lemma left_fine_run:
  "all_left (base S) \<Longrightarrow> exited (base S) = None \<longrightarrow> (\<exists>tr. os_shape env tr (base S))
    \<Longrightarrow> fine_run env as S = map_option (\<lambda>s. S\<lparr>base := s\<rparr>) (os_run env as (base S))"
proof (induction "as" arbitrary: S)
  case (Cons a "as")
  show ?case
  proof (cases "os_step env a (base S)")
    case (Some s1)
    then have "exited (base S) = None" by (auto simp: os_step_def split: if_splits)
    with Cons.prems(2) obtain tr where inv: "os_shape env tr (base S)" by blast
    have "os_legal a (base S)" using Cons.prems(1) by (auto simp: os_legal_def all_left_def)
    then have "exited s1 = None \<longrightarrow> (\<exists>tr. os_shape env tr s1)" using os_step_shape [OF inv _ Some] by blast
    with Cons.IH [of "S\<lparr>base := s1\<rparr>"] left_step [OF inv Cons.prems(1) Some] show ?thesis
      by (simp add: left_fine_step [OF Cons.prems(1)] Some)
  qed (simp add: left_fine_step [OF Cons.prems(1)])
qed simp

text \<open>
  C10: the program ends. When every processor and the loader have left, every continuation
  has at most \<open>4 n + 11\<close> steps for \<open>n\<close> processors, and one that can go no further has exited
  with the value 0.
\<close>

theorem fine_program_exits:
  assumes "booted env s0" and "fine_reach env (fine_start s0) S" and "exited (base S) = None"
    and "\<forall>c\<in>set (cpus (base S)). cpc c = CDone" and "ldpc (base S) = LDone" and "fine_run env as S = Some S'"
  shows "length as \<le> 4 * length (cpus (base S)) + 11 \<and> (exited (base S') = Some 0 \<or> (\<exists>a S''. fine_step env a S' = Some S''))"
proof -
  obtain tr K where ok: "fine_ok env tr K S" by (rule fine_reach_ok [OF assms(1-3)])
  have left: "all_left (base S)" using assms(4,5) by (simp add: all_left_def)
  have inv: "exited (base S) = None \<longrightarrow> (\<exists>tr. os_shape env tr (base S))" using fine_okD(1) [OF ok] by blast
  have run: "os_run env as (base S) = Some (base S')"
    using left_fine_run [OF left inv, of "as", symmetric] assms(6) by auto
  have "all_left (base S')" using left_run [OF run _ left] fine_okD(1) [OF ok] assms(3) by blast
  from left_fine_step [OF this] left_exits [OF fine_okD(1) [OF ok] left assms(3) run] show ?thesis by auto
qed

theorem fine_program_exits_witness:
  "\<exists>S as S'. fine_reach demo_env (fine_start demo_s0) S \<and> all_left (base S) \<and> fine_run demo_env as S = Some S'
    \<and> exited (base S') = Some 0 \<and> length as = 9 \<and> length as \<le> 4 * 1 + 11"
proof -
  let ?as = "replicate 7 Clock @ [Join, Return]"
  obtain s s' where s: "os_reach demo_env demo_s0 s" "exited s = None" "all_left s" "length (cpus s) = 1"
    "os_run demo_env ?as s = Some s'" "exited s' = Some 0" by (rule demo_exit)
  let ?S = "fine_start s"
  have f: "base ?S = s" by (simp add: fine_start_def)
  obtain tr where "os_inv demo_env tr s" by (rule reach_inv [OF s(1) demo_booted s(2)])
  then have "\<exists>tr. os_shape demo_env tr (base ?S)" using os_invD(1) f by auto
  then have run: "fine_run demo_env ?as ?S = Some (?S\<lparr>base := s'\<rparr>)" using left_fine_run [of ?S demo_env ?as] s(3,5) by (simp only: f) simp
  have r: "fine_reach demo_env (fine_start demo_s0) ?S" by (rule coarse_reach [OF s(1) demo_booted])
  have "\<forall>c\<in>set (cpus (base ?S)). cpc c = CDone" "ldpc (base ?S) = LDone" using s(3) by (simp_all add: all_left_def f)
  from fine_program_exits [OF demo_booted r _ this run] s(2-4,6) run r show ?thesis
    by (intro exI [of _ ?S] exI [of _ ?as] exI [of _ "?S\<lparr>base := s'\<rparr>"]) (simp add: f)
qed

end
