(* ===== verification/First_Fit.thy ===== *)
theory First_Fit
  imports Mm_Vm
begin

text \<open>
  The free list of an area against a reference: \<open>get_free_vmrg_area\<close> of \<open>src/mm-vm.c\<close>
  edits 64-bit nodes in place, moves the next node over a used one and leaves an empty node
  at the end; up to empty nodes it is first fit on a list of intervals of integers.
\<close>

section \<open>The reference\<close>

type_synonym interval = "int \<times> int"

text \<open>First fit: the front of the first interval with enough room is cut off.\<close>

fun carve :: "interval list \<Rightarrow> int \<Rightarrow> interval option \<times> interval list" where
  "carve [] n = (None, [])"
| "carve ((a, b) # r) n =
     (if a + n \<le> b then (Some (a, a + n), (if a + n < b then [(a + n, b)] else []) @ r)
      else (case carve r n of (x, r') \<Rightarrow> (x, (a, b) # r')))"

definition room :: "vm_rg_struct list \<Rightarrow> interval list" where
  "room fl = [(uint (rg_start rg), uint (rg_end rg)). rg \<leftarrow> fl, rg_start rg < rg_end rg]"

definition free_room :: "mm_struct \<Rightarrow> interval list" where
  "free_room m = room (vm_freerg_list (hd (mmap m)))"

lemma room_simps [simp]:
  "room [] = []"
  "room (rg # fl) = (if rg_start rg < rg_end rg then [(uint (rg_start rg), uint (rg_end rg))] else []) @ room fl"
  by (simp_all add: room_def)

section \<open>The walk is first fit\<close>

lemma fit_region_carve:
  assumes "\<forall>rg\<in>set fl. rg_below lim rg" and "uint lim + uint u < 2 ^ 64" and "0 < u"
    and "fit_region fl u = (r, fl')"
  shows "carve (room fl) (uint u) = (map_option (\<lambda>(s, e). (uint s, uint e)) r, room fl')"
  using assms
proof (induction fl u arbitrary: r fl' rule: fit_region.induct)
  case (2 rg rest u)
  have wf: "uint (rg_end rg) \<le> uint lim" "rg_start rg \<le> rg_end rg"
    using "2.prems"(1) by (auto simp: rg_below_def word_le_def)
  then have add: "uint (rg_start rg + u) = uint (rg_start rg) + uint u"
    using "2.prems"(2) by (intro uint_add_small) (simp add: word_le_def)
  have pos: "0 < uint u" using "2.prems"(3) by (simp add: word_less_def)
  have fits: "rg_start rg + u \<le> rg_end rg \<longleftrightarrow> uint (rg_start rg) + uint u \<le> uint (rg_end rg)"
    "rg_start rg + u < rg_end rg \<longleftrightarrow> uint (rg_start rg) + uint u < uint (rg_end rg)"
    by (simp_all add: word_le_def word_less_def add)
  show ?case
  proof (cases "rg_start rg + u \<le> rg_end rg")
    case True
    then have ne: "rg_start rg < rg_end rg" using fits(1) pos by (simp add: word_less_def)
    have "room fl' = (if rg_start rg + u < rg_end rg then [(uint (rg_start rg) + uint u, uint (rg_end rg))] else []) @ room rest"
      using "2.prems"(4) True add by (cases rest) (auto split: if_splits)
    moreover have "r = Some (rg_start rg, rg_start rg + u)" using "2.prems"(4) True by simp
    ultimately show ?thesis using ne True fits by (simp add: add)
  next
    case False
    obtain r1 fl1 where rec: "fit_region rest u = (r1, fl1)" by (cases "fit_region rest u")
    then have eqs: "r = r1" "fl' = rg # fl1" using False "2.prems"(4) by auto
    have "carve (room rest) (uint u) = (map_option (\<lambda>(s, e). (uint s, uint e)) r1, room fl1)"
      using "2.IH" [OF False _ "2.prems"(2,3) rec] "2.prems"(1) by simp
    then show ?thesis using False fits(1) by (simp add: eqs)
  qed
qed simp

section \<open>The property\<close>

text \<open>
  C20: \<open>get_free_vmrg_area\<close> is first fit. On the free list of a well-formed process it gives
  the region the reference gives, or fails when the reference finds none, and the free
  intervals it leaves are those the reference leaves.
\<close>

theorem free_area_is_first_fit:
  assumes "regions_ok m" and "mmap m = [vma]" and "0 < sz" and "uint (sbrk vma) + sz \<le> 2 ^ 22"
  shows "\<exists>ret rg m'. get_free_vmrg_area m 0 sz = Some (ret, rg, m') \<and> free_room m' = snd (carve (free_room m) sz)
    \<and> (case fst (carve (free_room m) sz) of
         None \<Rightarrow> ret = -1 \<and> m' = m
       | Some (a, b) \<Rightarrow> ret = 0 \<and> rg = Some (ulong_of_int a, ulong_of_int b) \<and> b = a + sz)"
proof -
  let ?fl = "vm_freerg_list vma" and ?u = "ulong_of_int sz"
  have fl: "\<forall>rg\<in>set ?fl. rg_below (sbrk vma) rg" using regions_okD [OF assms(1)] assms(2) by (metis list.inject)
  have "sz \<le> 2 ^ 22" using assms(4) uint_ge_0 [of "sbrk vma"] by linarith
  then have u: "uint ?u = sz" using assms(3) by (intro uint_ulong_of_int) simp_all
  then have pos: "0 < ?u" using assms(3) by (simp add: word_less_def)
  have lim: "uint (sbrk vma) + uint ?u < 2 ^ 64" using assms(4) u by simp
  obtain r fl' where fit: "fit_region ?fl ?u = (r, fl')" by fastforce
  note carve = fit_region_carve [OF fl lim pos fit, unfolded u]
  note step = fit_region_ok [OF fl lim fit]
  have room: "free_room m = room ?fl" "free_room (set_vma m 0 (vma\<lparr>vm_freerg_list := fl'\<rparr>)) = room fl'"
    using assms(2) by (simp_all add: free_room_def set_vma_def)
  show ?thesis
  proof (cases r)
    case None
    with step have same: "fl' = ?fl" by simp
    then have "set_vma m 0 (vma\<lparr>vm_freerg_list := fl'\<rparr>) = m" using assms(2) by (simp add: set_vma_def)
    then have "\<exists>rg. get_free_vmrg_area m 0 sz = Some (-1, rg, m)"
      using None fit assms(2) by (cases "?fl = []") (simp_all add: get_free_vmrg_area_def)
    then show ?thesis using carve None same room by auto
  next
    case (Some rg)
    obtain s e where rg: "rg = (s, e)" by (cases rg)
    have se: "uint e = uint s + sz" "e \<le> sbrk vma" using step Some rg u by auto
    have "uint s < 2 ^ 64 - 1" using se assms(3,4) uint_ge_0 [of "sbrk vma"] by (simp add: word_le_def)
    then have "s \<noteq> -1" by (auto simp: uint_word_ariths)
    moreover have "?fl \<noteq> []" using fit Some by auto
    ultimately have "get_free_vmrg_area m 0 sz = Some (0, Some (s, e), set_vma m 0 (vma\<lparr>vm_freerg_list := fl'\<rparr>))"
      using fit assms(2) Some rg by (simp add: get_free_vmrg_area_def)
    moreover have "ulong_of_int (uint s) = s" "ulong_of_int (uint e) = e" by (simp_all add: conv_simps)
    ultimately show ?thesis using carve Some rg room se by auto
  qed
qed

theorem free_area_is_first_fit_witness:
  "carve (free_room proc_mm) 40 = (Some (100, 140), [(140, 200)])
    \<and> (\<exists>m'. get_free_vmrg_area proc_mm 0 40 = Some (0, Some (100, 140), m') \<and> free_room m' = [(140, 200)])"
proof -
  have ok: "regions_ok proc_mm" using proc_ok(1) by (simp add: mm_ok_def proc_ctx_def)
  have c: "carve (free_room proc_mm) 40 = (Some (100, 140), [(140, 200)])"
    by (simp add: free_room_def proc_mm_def)
  from free_area_is_first_fit [OF ok, of _ 40] c show ?thesis
    by (simp add: proc_mm_def) (auto simp: conv_simps)
qed

end
