(* ===== verification/Thread_Pool.thy ===== *)
theory Thread_Pool
  imports Prelude
begin

text \<open>
  The task pool of the teaching section, \<open>src/TA section/BKthreadpool\<close>: a list of tasks
  (\<open>bktask.c\<close>), ten workers and their dispatch (\<open>bkwrk.c\<close>), the set-up (\<open>bktpool.c\<close>) and the
  sample program (\<open>main.c\<close>). It is a program of its own.

  A function pointer and an argument pointer are addresses, \<open>None\<close> the null pointer; the
  calls of the operating system (\<open>clone\<close>, \<open>tkill\<close>) are what the model returns: the thread
  numbers are a parameter, a signal is part of the result.
\<close>

section \<open>State\<close>

definition MAX_WORKER :: nat where "MAX_WORKER = 10"
definition STACK_SIZE :: int where "STACK_SIZE = 4096"

type_synonym ptr = "nat option"

record bktask_t =
  t_func :: ptr
  t_arg :: ptr
  t_id :: u32

record bkworker_t =
  w_func :: ptr
  w_arg :: ptr
  w_id :: u32
  w_task :: u32

record pool_t =
  taskid_seed :: int
  wrkid_tid :: "int list"
  wrkid_busy :: "int list"
  wrkid_cur :: int
  bktask :: "bktask_t list"
  bktask_sz :: int
  worker :: "bkworker_t list"

datatype pool_line = Assign int u32 | Wake_up nat | Got_worker int | Assign_failed u32 int | Hello int

text \<open>Static data is zero at the start.\<close>

definition pool0 :: pool_t where
  "pool0 = \<lparr>taskid_seed = 0, wrkid_tid = replicate MAX_WORKER 0, wrkid_busy = replicate MAX_WORKER 0, wrkid_cur = 0,
     bktask = [], bktask_sz = 0, worker = replicate MAX_WORKER \<lparr>w_func = None, w_arg = None, w_id = 0, w_task = 0\<rparr>\<rparr>"

section \<open>Tasks: \<open>bktask.c\<close>\<close>

text \<open>
  \<open>bktaskid < 0\<close> never holds of an unsigned number, and \<open>bktaskid > bktask_sz\<close> compares
  unsigned numbers.
\<close>

definition bktask_get_byid :: "pool_t \<Rightarrow> u32 \<Rightarrow> bktask_t option" where
  "bktask_get_byid s bktaskid =
     (if bktaskid > u32_of_int (bktask_sz s) then None
      else find (\<lambda>t. t_id t = bktaskid) (bktask s))"

definition bktask_init :: "pool_t \<Rightarrow> ptr \<Rightarrow> ptr \<Rightarrow> (int \<times> u32 \<times> pool_t) option" where
  "bktask_init s func arg =
     do { let bktaskid = u32_of_int (taskid_seed s);
          seed \<leftarrow> chk_int (taskid_seed s + 1);
          sz \<leftarrow> chk_int (bktask_sz s + 1);
          Some (0, bktaskid, s\<lparr>taskid_seed := seed, bktask_sz := sz,
            bktask := \<lparr>t_func = func, t_arg = arg, t_id = bktaskid\<rparr> # bktask s\<rparr>) }"

section \<open>Workers: \<open>bkwrk.c\<close>\<close>

text \<open>
  One turn of the loop of worker \<open>i\<close> after its signal: the call it makes, if any, and the
  state in which it waits again.
\<close>

definition bkwrk_worker :: "pool_t \<Rightarrow> nat \<Rightarrow> (pool_line list \<times> (nat \<times> ptr) option \<times> pool_t) option" where
  "bkwrk_worker s i =
     do { w \<leftarrow> list_get (worker s) (int i);
          busy \<leftarrow> list_set (wrkid_busy s) (int i) 0;
          ws \<leftarrow> list_set (worker s) (int i) (w\<lparr>w_func := None, w_arg := None, w_task := -1\<rparr>);
          Some ([Wake_up i], map_option (\<lambda>f. (f, w_arg w)) (w_func w), s\<lparr>wrkid_busy := busy, worker := ws\<rparr>) }"

definition bktask_assign_worker :: "pool_t \<Rightarrow> u32 \<Rightarrow> u32 \<Rightarrow> (int \<times> pool_line list \<times> pool_t) option" where
  "bktask_assign_worker s bktaskid wrkid =
     (if wrkid > of_nat MAX_WORKER then Some (-1, [], s)
      else
        (case bktask_get_byid s bktaskid of
           None \<Rightarrow> Some (-1, [], s)
         | Some tsk \<Rightarrow>
             do { busy \<leftarrow> list_set (wrkid_busy s) (uint wrkid) 1;
                  w \<leftarrow> list_get (worker s) (uint wrkid);
                  ws \<leftarrow> list_set (worker s) (uint wrkid) (w\<lparr>w_func := t_func tsk, w_arg := t_arg tsk, w_task := bktaskid\<rparr>);
                  Some (0, [Assign (int_of_u32 (t_id tsk)) wrkid], s\<lparr>wrkid_busy := busy, worker := ws\<rparr>) }))"

text \<open>
  The stack of a worker is \<open>STACK_SIZE\<close> bytes; its top is computed as \<open>child_stack + STACK_SIZE\<close>
  on a pointer to pointers of eight bytes.
\<close>

definition stack_top :: "int option" where
  "stack_top = (let offset = STACK_SIZE * 8 in if offset \<le> STACK_SIZE then Some offset else None)"

fun create_loop :: "(nat \<Rightarrow> int) \<Rightarrow> nat \<Rightarrow> nat \<Rightarrow> pool_t \<Rightarrow> (pool_line list \<times> pool_t) option" where
  "create_loop clone 0 i s = Some ([], s)"
| "create_loop clone (Suc n) i s =
     do { _ \<leftarrow> stack_top;
          tids \<leftarrow> list_set (wrkid_tid s) (int i) (clone i);
          (ls, s') \<leftarrow> create_loop clone n (Suc i) (s\<lparr>wrkid_tid := tids\<rparr>);
          Some (Got_worker (clone i) # ls, s') }"

definition bkwrk_create_worker :: "(nat \<Rightarrow> int) \<Rightarrow> pool_t \<Rightarrow> (int \<times> pool_line list \<times> pool_t) option" where
  "bkwrk_create_worker clone s = do { (ls, s') \<leftarrow> create_loop clone MAX_WORKER 0 s; Some (0, ls, s') }"

definition bktpool_init :: "(nat \<Rightarrow> int) \<Rightarrow> pool_t \<Rightarrow> (int \<times> pool_line list \<times> pool_t) option" where
  "bktpool_init clone s = bkwrk_create_worker clone s"

definition bkwrk_get_worker :: "pool_t \<Rightarrow> int" where
  "bkwrk_get_worker s = 0"

text \<open>The thread to which the signal goes. After the signal the function ends without a value.\<close>

definition bkwrk_dispatch_worker :: "pool_t \<Rightarrow> u32 \<Rightarrow> (int option \<times> int option) option" where
  "bkwrk_dispatch_worker s wrkid =
     do { tid \<leftarrow> list_get (wrkid_tid s) (uint wrkid);
          w \<leftarrow> list_get (worker s) (uint wrkid);
          Some (if w_func w = None then (Some (-1), None) else (None, Some tid)) }"

section \<open>The sample program: \<open>main.c\<close>\<close>

text \<open>\<open>func\<close> prints the number its argument points to; \<open>mem\<close> is the array \<open>id\<close>.\<close>

definition hello :: "(nat \<Rightarrow> int) \<Rightarrow> ptr \<Rightarrow> (int \<times> pool_line list) option" where
  "hello mem arg = do { a \<leftarrow> arg; Some (0, [Hello (mem a)]) }"

definition assign_or_report :: "pool_t \<Rightarrow> u32 \<Rightarrow> (pool_line list \<times> u32 \<times> pool_t) option" where
  "assign_or_report s tid =
     do { let wid = u32_of_int (bkwrk_get_worker s);
          (ret, ls, s') \<leftarrow> bktask_assign_worker s tid wid;
          Some (if ret \<noteq> 0 then ls @ [Assign_failed tid (int_of_u32 wid)] else ls, wid, s') }"

text \<open>
  The part of \<open>main\<close> after the pool is set up, when no worker runs in between: three tasks,
  the first assigned and dispatched, the second and third assigned, then both dispatched.
  The result has the signals sent.
\<close>

definition main_tasks :: "nat \<Rightarrow> pool_t \<Rightarrow> (pool_line list \<times> int option list \<times> pool_t) option" where
  "main_tasks f s =
     do { (_, t0, s) \<leftarrow> bktask_init s (Some f) (Some 0);
          (_, t1, s) \<leftarrow> bktask_init s (Some f) (Some 1);
          (_, t2, s) \<leftarrow> bktask_init s (Some f) (Some 2);
          (l1, w1, s) \<leftarrow> assign_or_report s t0;
          (_, d1) \<leftarrow> bkwrk_dispatch_worker s w1;
          (l0, w0, s) \<leftarrow> assign_or_report s t1;
          (l2, w2, s) \<leftarrow> assign_or_report s t2;
          (_, d0) \<leftarrow> bkwrk_dispatch_worker s w0;
          (_, d2) \<leftarrow> bkwrk_dispatch_worker s w2;
          Some (l1 @ l0 @ l2, [d1, d0, d2], s) }"

text \<open>
  One turn of the stress test (\<open>STRESS_TEST\<close> is undefined in the file): a new task for
  entry \<open>i\<close> of the array, assigned and dispatched; and the loop, \<open>n\<close> turns from entry \<open>i\<close>.
\<close>

definition stress_turn :: "nat \<Rightarrow> nat \<Rightarrow> pool_t \<Rightarrow> (pool_line list \<times> int option \<times> pool_t) option" where
  "stress_turn f i s =
     do { (_, tid, s) \<leftarrow> bktask_init s (Some f) (Some i);
          (ls, wid, s) \<leftarrow> assign_or_report s tid;
          (_, d) \<leftarrow> bkwrk_dispatch_worker s wid;
          Some (ls, d, s) }"

fun stress_loop :: "nat \<Rightarrow> nat \<Rightarrow> nat \<Rightarrow> pool_t \<Rightarrow> (int option list \<times> pool_t) option" where
  "stress_loop f 0 i s = Some ([], s)"
| "stress_loop f (Suc n) i s =
     do { (_, d, s1) \<leftarrow> stress_turn f i s;
          (ds, s2) \<leftarrow> stress_loop f n (Suc i) s1;
          Some (d # ds, s2) }"

text \<open>\<open>main\<close>: its return value, with the lines printed and the signals sent.\<close>

definition pool_main :: "(nat \<Rightarrow> int) \<Rightarrow> nat \<Rightarrow> pool_t \<Rightarrow> (int \<times> pool_line list \<times> int option list \<times> pool_t) option" where
  "pool_main clone f s0 =
     do { let s = s0\<lparr>taskid_seed := 0, wrkid_cur := 0, bktask_sz := 0\<rparr>;
          (ret, l1, s) \<leftarrow> bktpool_init clone s;
          if ret \<noteq> 0 then Some (-1, l1, [], s)
          else do { (l2, ds, s) \<leftarrow> main_tasks f s; Some (0, l1 @ l2, ds, s) } }"

section \<open>The invariant\<close>

definition pool_inv :: "pool_t \<Rightarrow> bool" where
  "pool_inv s \<longleftrightarrow> bktask_sz s = int (length (bktask s)) \<and> taskid_seed s = bktask_sz s \<and> bktask_sz s < 2 ^ 31
     \<and> map t_id (bktask s) = rev (map of_nat [0..<length (bktask s)])
     \<and> length (wrkid_tid s) = MAX_WORKER \<and> length (wrkid_busy s) = MAX_WORKER \<and> length (worker s) = MAX_WORKER"

lemma pool0_inv: "pool_inv pool0"
  by (simp add: pool_inv_def pool0_def)

lemma find_distinct:
  "\<lbrakk>distinct (map f xs); i < length xs\<rbrakk> \<Longrightarrow> find (\<lambda>x. f x = f (xs ! i)) xs = Some (xs ! i)"
  by (induction xs arbitrary: i) (auto simp: nth_Cons split: nat.splits)

lemma find_none: "k \<notin> f ` set xs \<Longrightarrow> find (\<lambda>x. f x = k) xs = None"
  by (auto simp: find_None_iff)

lemma task_ids:
  assumes "pool_inv s"
  shows "distinct (map t_id (bktask s))" "t_id ` set (bktask s) = of_nat ` {..<length (bktask s)}"
    "i < length (bktask s) \<Longrightarrow> t_id (bktask s ! i) = of_nat (length (bktask s) - 1 - i)"
proof -
  let ?n = "length (bktask s)"
  have ids: "map t_id (bktask s) = rev (map of_nat [0..<?n])" and n: "?n < 2 ^ 31" using assms by (simp_all add: pool_inv_def)
  have "inj_on (of_nat :: nat \<Rightarrow> u32) {0..<?n}"
  proof (rule inj_onI)
    fix a b assume "a \<in> {0..<?n}" "b \<in> {0..<?n}" "(of_nat a :: u32) = of_nat b"
    then show "a = b" using n by (auto simp: word_unat_eq_iff unat_of_nat)
  qed
  then show "distinct (map t_id (bktask s))" unfolding ids by (simp add: distinct_map)
  have "set (map t_id (bktask s)) = of_nat ` {..<?n}" unfolding ids by (auto simp: atLeast0LessThan)
  then show "t_id ` set (bktask s) = of_nat ` {..<?n}" by simp
  show "t_id (bktask s ! i) = of_nat (?n - 1 - i)" if "i < ?n"
  proof -
    have "t_id (bktask s ! i) = rev (map of_nat [0..<?n]) ! i" using that ids by (metis nth_map)
    then show ?thesis using that by (simp add: rev_nth)
  qed
qed

lemma get_byid_eq:
  assumes "pool_inv s"
  shows "bktask_get_byid s k = (if unat k < length (bktask s) then Some (bktask s ! (length (bktask s) - 1 - unat k)) else None)"
proof -
  let ?n = "length (bktask s)"
  have n: "?n < 2 ^ 31" "u32_of_int (bktask_sz s) = of_nat ?n" using assms by (simp_all add: pool_inv_def u32_of_int_def)
  then have un: "unat (of_nat ?n :: u32) = ?n" by (simp add: unat_of_nat)
  show ?thesis
  proof (cases "unat k < ?n")
    case True
    then have "?n - 1 - unat k < ?n" by simp
    from find_distinct [OF task_ids(1) [OF assms] this] task_ids(3) [OF assms this] True
    have "find (\<lambda>t. t_id t = k) (bktask s) = Some (bktask s ! (?n - 1 - unat k))" by simp
    moreover have "\<not> k > of_nat ?n" using True un by (simp add: word_less_nat_alt)
    ultimately show ?thesis using True n(2) by (simp add: bktask_get_byid_def)
  next
    case False
    have "k \<notin> t_id ` set (bktask s)"
    proof
      assume "k \<in> t_id ` set (bktask s)"
      then obtain i where "i < ?n" "k = of_nat i" using task_ids(2) [OF assms] by auto
      moreover from this have "unat k = i" using n(1) by (simp add: unat_of_nat)
      ultimately show False using False by simp
    qed
    then have "find (\<lambda>t. t_id t = k) (bktask s) = None" by (rule find_none)
    with False show ?thesis by (simp add: bktask_get_byid_def)
  qed
qed

section \<open>Properties\<close>

text \<open>
  Tasks are found by their numbers. A new task gets the next number, is found under it
  with its function and argument, leaves every earlier task where it was, and no other
  number finds a task.
\<close>

theorem bktask_lookup:
  assumes "pool_inv s" and "bktask_sz s < 2 ^ 31 - 1"
  shows "\<exists>s' k. bktask_init s func arg = Some (0, k, s') \<and> pool_inv s' \<and> unat k = length (bktask s)
    \<and> bktask_get_byid s' k = Some \<lparr>t_func = func, t_arg = arg, t_id = k\<rparr>
    \<and> (\<forall>j. j \<noteq> k \<longrightarrow> bktask_get_byid s' j = bktask_get_byid s j)"
proof -
  let ?n = "length (bktask s)"
  have i: "bktask_sz s = int ?n" "taskid_seed s = int ?n" and n: "int ?n < 2 ^ 31 - 1" using assms by (simp_all add: pool_inv_def)
  let ?k = "of_nat ?n :: u32"
  let ?s = "s\<lparr>taskid_seed := int ?n + 1, bktask_sz := int ?n + 1, bktask := \<lparr>t_func = func, t_arg = arg, t_id = ?k\<rparr> # bktask s\<rparr>"
  have k: "unat ?k = ?n" using n by (simp add: unat_of_nat)
  have init: "bktask_init s func arg = Some (0, ?k, ?s)" using n by (simp add: bktask_init_def i u32_of_int_def chk_int_def Let_def)
  have inv: "pool_inv ?s" using assms(1) n by (simp add: pool_inv_def)
  have "bktask_get_byid ?s j = bktask_get_byid s j" if "j \<noteq> ?k" for j
  proof -
    have "unat j \<noteq> ?n" using that k by (metis word_unat_eq_iff)
    moreover have "?n - unat j = Suc (?n - 1 - unat j)" if "unat j < ?n" using that by simp
    ultimately show ?thesis unfolding get_byid_eq [OF inv] get_byid_eq [OF assms(1)] by auto
  qed
  moreover have "bktask_get_byid ?s ?k = Some \<lparr>t_func = func, t_arg = arg, t_id = ?k\<rparr>"
    unfolding get_byid_eq [OF inv] by (simp add: k)
  ultimately show ?thesis using init inv k by blast
qed

theorem bktask_lookup_witness:
  "\<exists>s' k. bktask_init pool0 (Some 7) None = Some (0, k, s') \<and> bktask_get_byid s' k = Some \<lparr>t_func = Some 7, t_arg = None, t_id = k\<rparr>"
proof -
  have "bktask_sz pool0 < 2 ^ 31 - 1" by (simp add: pool0_def)
  from bktask_lookup [OF pool0_inv this, of "Some 7" None] show ?thesis by blast
qed

text \<open>
  What assigning a task does. With an unknown task nothing changes and the result is
  \<open>-1\<close>; with a known task and a worker below 10 the worker is busy with its function and
  argument and no other worker changes; but worker number 10 passes the test of the range
  and is written past the end of the arrays.
\<close>

theorem bktask_assign_correct:
  assumes "pool_inv s" and "wrkid \<le> 10"
  shows "bktask_assign_worker s k wrkid =
    (case bktask_get_byid s k of
       None \<Rightarrow> Some (-1, [], s)
     | Some t \<Rightarrow>
         if wrkid = 10 then None
         else Some (0, [Assign (int_of_u32 (t_id t)) wrkid],
           s\<lparr>wrkid_busy := (wrkid_busy s)[unat wrkid := 1],
             worker := (worker s)[unat wrkid := (worker s ! unat wrkid)\<lparr>w_func := t_func t, w_arg := t_arg t, w_task := k\<rparr>]\<rparr>))"
proof -
  have len: "length (wrkid_busy s) = 10" "length (worker s) = 10" using assms(1) by (simp_all add: pool_inv_def MAX_WORKER_def)
  have w: "\<not> wrkid > of_nat MAX_WORKER" using assms(2) by (simp add: MAX_WORKER_def not_less)
  have le: "unat wrkid \<le> 10" using assms(2) by (simp add: word_le_nat_alt)
  have un: "uint wrkid = int (unat wrkid)" by simp
  have eq: "wrkid = 10 \<longleftrightarrow> unat wrkid = 10" by (simp add: word_unat_eq_iff)
  show ?thesis
  proof (cases "bktask_get_byid s k")
    case (Some t)
    show ?thesis
    proof (cases "unat wrkid = 10")
      case True
      then have "\<not> uint wrkid < 10" using un by simp
      then have "list_set (wrkid_busy s) (uint wrkid) 1 = None" by (simp add: list_set_def len)
      then show ?thesis using Some w True eq by (simp add: bktask_assign_worker_def)
    next
      case False
      then have "unat wrkid < 10" using le by simp
      then have "uint wrkid < 10" using un by (metis of_nat_less_iff of_nat_numeral)
      then show ?thesis using Some w False eq by (simp add: bktask_assign_worker_def list_set_def list_get_def len)
    qed
  qed (use w in \<open>simp add: bktask_assign_worker_def\<close>)
qed

definition pool1 :: pool_t where
  "pool1 = pool0\<lparr>taskid_seed := 1, bktask_sz := 1, bktask := [\<lparr>t_func = Some 7, t_arg = None, t_id = 0\<rparr>]\<rparr>"

theorem bktask_assign_correct_witness: "bktask_assign_worker pool1 0 10 = None"
proof -
  have "pool_inv pool1" "(10 :: u32) \<le> 10" by (simp_all add: pool_inv_def pool1_def pool0_def)
  from bktask_assign_correct [OF this, of 0] show ?thesis
    by (simp add: bktask_get_byid_def pool1_def pool0_def u32_of_int_def)
qed

text \<open>
  The sample program loses a task. \<open>bkwrk_get_worker\<close> always answers worker 0, so the
  third task replaces the second before worker 0 is woken for it: every signal goes to worker
  0, and what it runs next is the third task; no worker holds the second one.
\<close>

theorem second_task_lost:
  assumes "length tids = 10"
  shows "\<exists>ls s'. main_tasks f (pool0\<lparr>wrkid_tid := tids\<rparr>) = Some (ls, [Some (tids ! 0), Some (tids ! 0), Some (tids ! 0)], s')
    \<and> ls = [Assign 0 0, Assign 1 0, Assign 2 0] \<and> w_task (worker s' ! 0) = 2 \<and> w_arg (worker s' ! 0) = Some 2
    \<and> (\<forall>w\<in>set (worker s'). w_arg w \<noteq> Some 1)"
proof -
  have ten: "replicate MAX_WORKER x = [x, x, x, x, x, x, x, x, x, x]" for x :: 'z
    by (simp add: MAX_WORKER_def numeral_eq_Suc)
  have get: "list_get tids 0 = Some (tids ! 0)" using assms by (simp add: list_get_def)
  show ?thesis
    using get by (simp add: main_tasks_def pool0_def bktask_init_def assign_or_report_def bktask_assign_worker_def bktask_get_byid_def
      bkwrk_get_worker_def bkwrk_dispatch_worker_def u32_of_int_def list_set_def list_get_def [of "_ # _"] int_of_u32_def
      chk_int_def ten Let_def)
qed

theorem second_task_lost_witness:
  "\<exists>ls s'. main_tasks 7 (pool0\<lparr>wrkid_tid := [11, 12, 13, 14, 15, 16, 17, 18, 19, 20]\<rparr>) = Some (ls, [Some 11, Some 11, Some 11], s')
    \<and> w_task (worker s' ! 0) = 2"
  using second_task_lost [of "[11, 12, 13, 14, 15, 16, 17, 18, 19, 20]" 7] by auto

text \<open>
  Setting up the workers computes a stack pointer outside the stack: eight times
  \<open>STACK_SIZE\<close> bytes above an allocation of \<open>STACK_SIZE\<close> bytes.
\<close>

lemma pool_setup_faults: "bktpool_init clone s = None"
  by (simp add: bktpool_init_def bkwrk_create_worker_def MAX_WORKER_def stack_top_def STACK_SIZE_def numeral_eq_Suc)

lemma pool_main_faults: "pool_main clone f s = None"
  by (simp add: pool_main_def pool_setup_faults)

section \<open>The stress test\<close>

lemma stress_turn_runs:
  assumes inv: "pool_inv s" and sz: "bktask_sz s < 2 ^ 31 - 1"
  obtains ls s' where "stress_turn f i s = Some (ls, Some (wrkid_tid s ! 0), s')" "pool_inv s'" "bktask_sz s' = bktask_sz s + 1"
    "wrkid_tid s' = wrkid_tid s" "w_func (worker s' ! 0) = Some f" "w_arg (worker s' ! 0) = Some i"
    "\<forall>j<10. j \<noteq> 0 \<longrightarrow> worker s' ! j = worker s ! j"
proof -
  obtain s1 k where s1: "bktask_init s (Some f) (Some i) = Some (0, k, s1)" "pool_inv s1"
    "bktask_get_byid s1 k = Some \<lparr>t_func = Some f, t_arg = Some i, t_id = k\<rparr>"
    using bktask_lookup [OF inv sz, of "Some f" "Some i"] by blast
  have same: "wrkid_tid s1 = wrkid_tid s" "worker s1 = worker s" "bktask_sz s1 = bktask_sz s + 1"
    using s1(1) by (auto simp: bktask_init_def bind_Some_iff chk_int_def Let_def split: if_splits)
  have len: "length (worker s) = 10" "length (wrkid_tid s) = 10" "worker s \<noteq> []" "wrkid_tid s \<noteq> []"
    using inv by (auto simp: pool_inv_def MAX_WORKER_def)
  define s2 where "s2 = s1\<lparr>wrkid_busy := (wrkid_busy s1)[0 := 1],
    worker := (worker s)[0 := (worker s ! 0)\<lparr>w_func := Some f, w_arg := Some i, w_task := k\<rparr>]\<rparr>"
  have assign: "bktask_assign_worker s1 k 0 = Some (0, [Assign (int_of_u32 k) 0], s2)"
    using bktask_assign_correct [OF s1(2), of 0 k] s1(3) same by (simp add: s2_def)
  have "stress_turn f i s = Some ([Assign (int_of_u32 k) 0], Some (wrkid_tid s ! 0), s2)"
    using s1(1) assign len(3,4) same
    by (simp add: stress_turn_def assign_or_report_def bkwrk_get_worker_def u32_of_int_def Let_def bkwrk_dispatch_worker_def list_get_def s2_def)
  moreover have "pool_inv s2" using s1(2) same by (simp add: s2_def pool_inv_def)
  ultimately show ?thesis using that [of _ s2] same len by (simp add: s2_def)
qed

text \<open>Every task of the stress test goes to worker 0 and replaces the one before.\<close>

lemma stress_all_to_worker0:
  assumes "pool_inv s" and "bktask_sz s + int (Suc n) < 2 ^ 31"
  shows "\<exists>s'. stress_loop f (Suc n) i s = Some (replicate (Suc n) (Some (wrkid_tid s ! 0)), s')
    \<and> w_arg (worker s' ! 0) = Some (i + n) \<and> (\<forall>j<10. j \<noteq> 0 \<longrightarrow> worker s' ! j = worker s ! j)"
  using assms
proof (induction n arbitrary: i s)
  case 0
  then have sz: "bktask_sz s < 2 ^ 31 - 1" by simp
  show ?case by (rule stress_turn_runs [OF "0.prems"(1) sz, of f i]) simp
next
  case (Suc n)
  then have sz: "bktask_sz s < 2 ^ 31 - 1" by simp
  obtain ls s1 where s1: "stress_turn f i s = Some (ls, Some (wrkid_tid s ! 0), s1)" "pool_inv s1" "bktask_sz s1 = bktask_sz s + 1"
    "wrkid_tid s1 = wrkid_tid s" "\<forall>j<10. j \<noteq> 0 \<longrightarrow> worker s1 ! j = worker s ! j"
    by (rule stress_turn_runs [OF Suc.prems(1) sz, of f i])
  obtain s' where "stress_loop f (Suc n) (Suc i) s1 = Some (replicate (Suc n) (Some (wrkid_tid s1 ! 0)), s')"
    "w_arg (worker s' ! 0) = Some (Suc i + n)" "\<forall>j<10. j \<noteq> 0 \<longrightarrow> worker s' ! j = worker s1 ! j"
    using Suc.IH [OF s1(2), of "Suc i"] s1(3) Suc.prems(2) by auto
  with s1 show ?case by (subst stress_loop.simps) (simp del: stress_loop.simps)
qed

end
