(* ===== verification/Pool_Race.thy ===== *)
theory Pool_Race
  imports Thread_Pool
begin

text \<open>
  The sample program of the task pool (\<open>main.c\<close>) running at the same time as its worker
  (\<open>bkwrk_worker\<close> of \<open>bkwrk.c\<close>): the steps are the single reads and writes of the worker's
  record, which no lock protects, and the signals.

  Every task goes to worker 0, since \<open>bkwrk_get_worker\<close> always answers 0; the other workers
  are never signalled. \<open>SIGUSR1\<close> is blocked and taken by \<open>sigwait\<close>, so a signal that arrives
  while one is pending is merged with it.
\<close>

section \<open>State and steps\<close>

text \<open>
  The writes of \<open>bktask_assign_worker\<close>, and \<open>bkwrk_dispatch_worker\<close>: its test of \<open>func\<close> and its
  \<open>tkill\<close>, between which the worker can move.
\<close>

datatype main_op = Set_busy | Set_func ptr | Set_arg ptr | Set_task u32 | Test_func | Tkill

text \<open>The worker: in \<open>sigwait\<close>, at the test of \<open>func\<close>, at the call, and before the writes that clear its record.\<close>

datatype worker_pc = W_wait | W_test | W_call | W_busy | W_func | W_arg | W_task

record sample_t =
  todo :: "main_op list"
  w0 :: bkworker_t
  busy0 :: int
  aimed :: bool
  pending :: bool
  wpc :: worker_pc
  calls :: "ptr list"

definition assign_ops :: "bktask_t \<Rightarrow> main_op list" where
  "assign_ops t = [Set_busy, Set_func (t_func t), Set_arg (t_arg t), Set_task (t_id t)]"

definition sample_task :: "nat \<Rightarrow> nat \<Rightarrow> bktask_t" where
  "sample_task f k = \<lparr>t_func = Some f, t_arg = Some k, t_id = of_nat k\<rparr>"

definition dispatch_ops :: "main_op list" where
  "dispatch_ops = [Test_func, Tkill]"

text \<open>\<open>main\<close> after the three calls of \<open>bktask_init\<close>.\<close>

definition sample_ops :: "nat \<Rightarrow> main_op list" where
  "sample_ops f = assign_ops (sample_task f 0) @ dispatch_ops @ assign_ops (sample_task f 1) @ assign_ops (sample_task f 2)
     @ dispatch_ops @ dispatch_ops"

definition sample0 :: "nat \<Rightarrow> sample_t" where
  "sample0 f = \<lparr>todo = sample_ops f, w0 = \<lparr>w_func = None, w_arg = None, w_id = 0, w_task = 0\<rparr>, busy0 = 0, aimed = False, pending = False,
     wpc = W_wait, calls = []\<rparr>"

fun do_op :: "main_op \<Rightarrow> sample_t \<Rightarrow> sample_t" where
  "do_op Set_busy s = s\<lparr>busy0 := 1\<rparr>"
| "do_op (Set_func f) s = s\<lparr>w0 := (w0 s)\<lparr>w_func := f\<rparr>\<rparr>"
| "do_op (Set_arg a) s = s\<lparr>w0 := (w0 s)\<lparr>w_arg := a\<rparr>\<rparr>"
| "do_op (Set_task k) s = s\<lparr>w0 := (w0 s)\<lparr>w_task := k\<rparr>\<rparr>"
| "do_op Test_func s = s\<lparr>aimed := w_func (w0 s) \<noteq> None\<rparr>"
| "do_op Tkill s = (if aimed s then s\<lparr>pending := True\<rparr> else s)"

definition main_step :: "sample_t \<Rightarrow> sample_t option" where
  "main_step s = (case todo s of [] \<Rightarrow> None | a # as \<Rightarrow> Some (do_op a (s\<lparr>todo := as\<rparr>)))"

definition worker_step :: "sample_t \<Rightarrow> sample_t option" where
  "worker_step s =
     (case wpc s of
        W_wait \<Rightarrow> if pending s then Some (s\<lparr>pending := False, wpc := W_test\<rparr>) else None
      | W_test \<Rightarrow> Some (s\<lparr>wpc := if w_func (w0 s) \<noteq> None then W_call else W_busy\<rparr>)
      | W_call \<Rightarrow> Some (s\<lparr>calls := calls s @ [w_arg (w0 s)], wpc := W_busy\<rparr>)
      | W_busy \<Rightarrow> Some (s\<lparr>busy0 := 0, wpc := W_func\<rparr>)
      | W_func \<Rightarrow> Some (s\<lparr>w0 := (w0 s)\<lparr>w_func := None\<rparr>, wpc := W_arg\<rparr>)
      | W_arg \<Rightarrow> Some (s\<lparr>w0 := (w0 s)\<lparr>w_arg := None\<rparr>, wpc := W_task\<rparr>)
      | W_task \<Rightarrow> Some (s\<lparr>w0 := (w0 s)\<lparr>w_task := -1\<rparr>, wpc := W_wait\<rparr>))"

text \<open>A schedule says who moves: \<open>True\<close> is \<open>main\<close>.\<close>

fun sample_run :: "bool list \<Rightarrow> sample_t \<Rightarrow> sample_t option" where
  "sample_run [] s = Some s"
| "sample_run (b # bs) s = do { s' \<leftarrow> (if b then main_step s else worker_step s); sample_run bs s' }"

section \<open>The steps and the functions\<close>

text \<open>Without interference the writes of an assignment are what \<open>bktask_assign_worker\<close> does to worker 0.\<close>

definition view0 :: "pool_t \<Rightarrow> sample_t \<Rightarrow> bool" where
  "view0 p s \<longleftrightarrow> worker p ! 0 = w0 s \<and> wrkid_busy p ! 0 = busy0 s"

lemma assign_ops_assign:
  assumes "pool_inv p" and "view0 p s" and "todo s = assign_ops t @ rest" and "bktask_get_byid p k = Some t" and "t_id t = k"
    and "bktask_assign_worker p k 0 = Some (r, ls, p')"
  shows "\<exists>s'. sample_run (replicate 4 True) s = Some s' \<and> view0 p' s' \<and> todo s' = rest"
proof -
  have len: "length (wrkid_busy p) = 10" "length (worker p) = 10" using assms(1) by (simp_all add: pool_inv_def MAX_WORKER_def)
  then have "p' = p\<lparr>wrkid_busy := (wrkid_busy p)[0 := 1],
      worker := (worker p)[0 := (worker p ! 0)\<lparr>w_func := t_func t, w_arg := t_arg t, w_task := k\<rparr>]\<rparr>"
    using assms(4,6) by (auto simp: bktask_assign_worker_def list_set_def list_get_def)
  then show ?thesis using assms(2,3,5) len
    by (simp add: numeral_eq_Suc main_step_def assign_ops_def view0_def)
qed

text \<open>Without interference the test and the \<open>tkill\<close> are \<open>bkwrk_dispatch_worker\<close>.\<close>

lemma dispatch_ops_dispatch:
  assumes "view0 p s" and "todo s = dispatch_ops @ rest" and "bkwrk_dispatch_worker p 0 = Some (r, sent)"
  shows "\<exists>s'. sample_run (replicate 2 True) s = Some s' \<and> view0 p s' \<and> todo s' = rest
    \<and> (pending s' \<longleftrightarrow> pending s \<or> sent \<noteq> None)"
proof -
  have w: "sent \<noteq> None \<longleftrightarrow> w_func (w0 s) \<noteq> None"
    using assms(1,3) by (auto simp: bkwrk_dispatch_worker_def view0_def bind_Some_iff list_get_eq_Some split: if_splits)
  show ?thesis using assms(1,2) w by (cases "w_func (w0 s)") (simp_all add: numeral_eq_Suc main_step_def dispatch_ops_def view0_def)
qed

text \<open>Without interference a turn of the worker is \<open>bkwrk_worker\<close>.\<close>

lemma worker_turn:
  assumes "view0 p s" and "wpc s = W_test" and "w_func (w0 s) = Some f" and "bkwrk_worker p 0 = Some (ls, call, p')"
  shows "\<exists>s'. sample_run (replicate 6 False) s = Some s' \<and> view0 p' s' \<and> wpc s' = W_wait
    \<and> call = Some (f, w_arg (w0 s)) \<and> calls s' = calls s @ [w_arg (w0 s)]"
  using assms
  by (auto simp: numeral_eq_Suc worker_step_def bkwrk_worker_def view0_def bind_Some_iff list_get_def list_set_def split: if_splits)

section \<open>The invariant\<close>

text \<open>
  Until the argument of the third task is stored, one signal has been sent at most and the
  worker has made one call at most; after that the record holds no argument of the first two.
\<close>

definition early_calls :: "sample_t \<Rightarrow> nat" where
  "early_calls s = length (filter (\<lambda>a. a = Some 0 \<or> a = Some 1) (calls s))"

definition busy_now :: "sample_t \<Rightarrow> nat" where
  "busy_now s = (if pending s then 1 else 0) + (if wpc s = W_test \<or> wpc s = W_call then 1 else 0) + length (calls s)"

definition phase_ok :: "nat \<Rightarrow> sample_t \<Rightarrow> bool" where
  "phase_ok n s \<longleftrightarrow>
     (if n \<le> 5 then busy_now s = 0
      else if n \<le> 12 then busy_now s \<le> 1
      else early_calls s \<le> 1 \<and> w_arg (w0 s) \<in> {None, Some 2})"

definition race_inv :: "nat \<Rightarrow> sample_t \<Rightarrow> bool" where
  "race_inv f s \<longleftrightarrow> (\<exists>pre. sample_ops f = pre @ todo s \<and> phase_ok (length pre) s)"

lemma early_le: "early_calls s \<le> busy_now s"
  by (simp add: early_calls_def busy_now_def trans_le_add2)

lemma phase_early: "phase_ok n s \<Longrightarrow> early_calls s \<le> 1"
  using early_le [of s] by (simp add: phase_ok_def split: if_splits)

lemma race_main:
  assumes "race_inv f s" and "main_step s = Some s'"
  shows "race_inv f s'"
proof -
  obtain a as where a: "todo s = a # as" "s' = do_op a (s\<lparr>todo := as\<rparr>)" using assms(2) by (auto simp: main_step_def split: list.splits)
  obtain pre where pre: "sample_ops f = pre @ a # as" and inv: "phase_ok (length pre) s"
    using assms(1) a(1) by (auto simp: race_inv_def)
  let ?n = "length pre"
  have len: "length (sample_ops f) = 18" by (simp add: sample_ops_def assign_ops_def dispatch_ops_def)
  then have n: "?n < 18" using pre by (metis length_append length_Cons less_add_Suc1 add_Suc_right)
  have nth: "a = sample_ops f ! ?n" using pre by (simp add: nth_append)
  have todo: "todo (do_op b x) = todo x" "calls (do_op b x) = calls x" "wpc (do_op b x) = wpc x" for b x
    by (cases b; simp)+
  have ops: "a = Tkill \<longleftrightarrow> ?n \<in> {5, 15, 17}" "?n = 12 \<Longrightarrow> a = Set_arg (Some 2)" "13 \<le> ?n \<Longrightarrow> (\<forall>x. a \<noteq> Set_arg x)"
    using n unfolding nth by (auto simp: sample_ops_def assign_ops_def dispatch_ops_def sample_task_def less_Suc_eq numeral_eq_Suc)
  have w: "w_arg (w0 s') = (case a of Set_arg x \<Rightarrow> x | _ \<Rightarrow> w_arg (w0 s))" unfolding a(2) by (cases a) simp_all
  have pend: "pending s' \<longrightarrow> pending s \<or> a = Tkill" unfolding a(2) by (cases a) simp_all
  have e: "early_calls s' = early_calls s" by (simp add: early_calls_def a(2) todo)
  have b: "busy_now s' \<le> busy_now s + (if a = Tkill then 1 else 0)" using pend by (auto simp: busy_now_def a(2) todo)
  have "phase_ok (Suc ?n) s'"
  proof (cases "?n \<le> 11")
    case True
    with b inv ops(1) show ?thesis by (auto simp: phase_ok_def split: if_splits)
  next
    case False
    have "w_arg (w0 s') \<in> {None, Some 2}"
    proof (cases "?n = 12")
      case True
      then show ?thesis using ops(2) w by simp
    next
      case no: False
      then have "w_arg (w0 s) \<in> {None, Some 2}" using False inv by (simp add: phase_ok_def)
      moreover have "w_arg (w0 s') = w_arg (w0 s)" using ops(3) False no w by (cases a) simp_all
      ultimately show ?thesis by simp
    qed
    then show ?thesis using False e phase_early [OF inv] by (simp add: phase_ok_def)
  qed
  moreover have "todo s' = as" by (simp add: a(2) todo)
  ultimately show ?thesis using pre unfolding race_inv_def by (intro exI [of _ "pre @ [a]"]) simp
qed

lemma race_worker:
  assumes "race_inv f s" and "worker_step s = Some s'"
  shows "race_inv f s'"
proof -
  have "todo s' = todo s" using assms(2) by (auto simp: worker_step_def split: worker_pc.splits if_splits)
  moreover have "busy_now s' \<le> busy_now s"
    using assms(2) by (auto simp: worker_step_def busy_now_def split: worker_pc.splits if_splits)
  moreover have "early_calls s' = early_calls s \<and> w_arg (w0 s') \<in> {None, Some 2}" if "w_arg (w0 s) \<in> {None, Some 2}"
    using assms(2) that by (auto simp: worker_step_def early_calls_def split: worker_pc.splits if_splits)
  ultimately have "phase_ok n s \<Longrightarrow> phase_ok n s'" for n by (simp add: phase_ok_def split: if_splits)
  with \<open>todo s' = todo s\<close> assms(1) show ?thesis by (auto simp: race_inv_def)
qed

lemma race_run: "sample_run bs s = Some s' \<Longrightarrow> race_inv f s \<Longrightarrow> race_inv f s'"
proof (induction bs s rule: sample_run.induct)
  case (2 b bs s)
  then obtain s1 where s1: "(if b then main_step s else worker_step s) = Some s1" "sample_run bs s1 = Some s'" by (auto simp: bind_Some_iff)
  have "race_inv f s1"
  proof (cases b)
    case True
    with s1(1) race_main [OF "2.prems"(2)] show ?thesis by simp
  next
    case False
    with s1(1) race_worker [OF "2.prems"(2)] show ?thesis by simp
  qed
  with "2.IH" [OF s1] show ?case by blast
qed simp

section \<open>Properties\<close>

text \<open>
  C39: the sample program never runs its three tasks. In every interleaving of \<open>main\<close> and the
  worker at most one call of the worker gets the argument of the first or the second task.
\<close>

theorem sample_loses_a_task:
  assumes "sample_run bs (sample0 f) = Some s"
  shows "early_calls s \<le> 1"
proof -
  have "race_inv f (sample0 f)" by (simp add: race_inv_def phase_ok_def sample0_def busy_now_def)
  from race_run [OF assms this] show ?thesis using phase_early by (auto simp: race_inv_def)
qed

definition lucky :: "bool list" where
  "lucky = replicate 6 True @ replicate 7 False @ replicate 12 True @ replicate 7 False"

theorem sample_loses_a_task_witness:
  "\<exists>s. sample_run lucky (sample0 7) = Some s \<and> calls s = [Some 0, Some 2] \<and> early_calls s \<le> 1"
proof -
  have "map_option calls (sample_run lucky (sample0 7)) = Some [Some 0, Some 2]" by code_simp
  then obtain s where "sample_run lucky (sample0 7) = Some s" "calls s = [Some 0, Some 2]" by auto
  with sample_loses_a_task show ?thesis by blast
qed

definition unlucky :: "bool list" where
  "unlucky = replicate 6 True @ replicate 5 False @ replicate 8 True @ replicate 2 False @ [True, True] @ replicate 3 False"

text \<open>
  A race in the pool. A worker clears its record after the call without looking whether
  it has been given a new task; when the assignments fall between its writes, the function
  is called with a null argument, which it follows.
\<close>

theorem worker_calls_null:
  "\<exists>s. sample_run unlucky (sample0 f) = Some s \<and> calls s = [Some 0, None] \<and> hello mem None = None"
  by (simp add: unlucky_def sample0_def sample_ops_def assign_ops_def dispatch_ops_def sample_task_def main_step_def worker_step_def hello_def numeral_eq_Suc)

end
