(* ===== verification/Single_Queue.thy ===== *)
theory Single_Queue
  imports Ready_Queue
begin

text \<open>
  The other branch of \<open>src/sched.c\<close>, which a build without \<open>MLQ_SCHED\<close> would compile: two
  plain queues in place of the multi-level queue, and a \<open>get_proc\<close> that is still to be
  written and always returns the null pointer. The names are those of the code with the
  suffix \<open>_single\<close>.
\<close>

section \<open>Operations\<close>

record single_sched =
  ready_queue :: queue_t
  run_queue :: queue_t

definition queue_empty_single :: "single_sched \<Rightarrow> bool" where
  "queue_empty_single s \<longleftrightarrow> empty (Some (ready_queue s)) \<noteq> 0 \<and> empty (Some (run_queue s)) \<noteq> 0"

definition init_scheduler_single :: "single_sched \<Rightarrow> single_sched" where
  "init_scheduler_single s = s\<lparr>ready_queue := (ready_queue s)\<lparr>qsize := 0\<rparr>, run_queue := (run_queue s)\<lparr>qsize := 0\<rparr>\<rparr>"

definition get_proc_single :: "single_sched \<Rightarrow> pcb_t option \<times> single_sched" where
  "get_proc_single s = (None, s)"

definition put_proc_single :: "single_sched \<Rightarrow> pcb_t \<Rightarrow> single_sched option" where
  "put_proc_single s p = do { (_, q) \<leftarrow> enqueue (run_queue s) p; Some (s\<lparr>run_queue := q\<rparr>) }"

definition add_proc_single :: "single_sched \<Rightarrow> pcb_t \<Rightarrow> single_sched option" where
  "add_proc_single s p = do { (_, q) \<leftarrow> enqueue (ready_queue s) p; Some (s\<lparr>ready_queue := q\<rparr>) }"

section \<open>A client of the scheduler\<close>

datatype sched_op = Op_get | Op_put pcb_t | Op_add pcb_t

fun do_sched :: "sched_op \<Rightarrow> single_sched \<Rightarrow> (pcb_t option \<times> single_sched) option" where
  "do_sched Op_get s = Some (get_proc_single s)"
| "do_sched (Op_put p) s = do { s' \<leftarrow> put_proc_single s p; Some (None, s') }"
| "do_sched (Op_add p) s = do { s' \<leftarrow> add_proc_single s p; Some (None, s') }"

fun run_sched :: "sched_op list \<Rightarrow> single_sched \<Rightarrow> (pcb_t list \<times> single_sched) option" where
  "run_sched [] s = Some ([], s)"
| "run_sched (a # as) s =
     do { (p, s1) \<leftarrow> do_sched a s;
          (ps, s2) \<leftarrow> run_sched as s1;
          Some (case p of None \<Rightarrow> ps | Some x \<Rightarrow> x # ps, s2) }"

fun op_added :: "sched_op \<Rightarrow> pcb_t list" where
  "op_added (Op_add p) = [p]" | "op_added _ = []"

fun op_put :: "sched_op \<Rightarrow> pcb_t list" where
  "op_put (Op_put p) = [p]" | "op_put _ = []"

definition single_ok :: "single_sched \<Rightarrow> bool" where
  "single_ok s \<longleftrightarrow> queue_ok (ready_queue s) \<and> queue_ok (run_queue s)"

lemma q_items_bounded: "queue_ok q \<Longrightarrow> length (q_items q) \<le> MAX_QUEUE_SIZE"
  using length_q_items [of q] by (simp add: queue_ok_def)

lemma enqueue_items:
  assumes "queue_ok q"
  obtains r q' where "enqueue q x = Some (r, q')" "queue_ok q'" "q_items q' = take MAX_QUEUE_SIZE (q_items q @ [x])"
proof (rule rq.enq_total [OF assms, of x])
  fix r q' assume q: "enqueue q x = Some (r, q')" "queue_ok q'" "q_items q' = (if r = 0 then q_items q @ [x] else q_items q)"
    "r = (if length (q_items q) < MAX_QUEUE_SIZE then 0 else -1)"
  with q_items_bounded [OF assms] that [OF q(1,2)] show thesis by (auto split: if_splits)
qed

lemma do_sched_ok:
  assumes "single_ok s"
  obtains s' where "do_sched a s = Some (None, s')" "single_ok s'"
    "q_items (ready_queue s') = take MAX_QUEUE_SIZE (q_items (ready_queue s) @ op_added a)"
    "q_items (run_queue s') = take MAX_QUEUE_SIZE (q_items (run_queue s) @ op_put a)"
proof -
  have ok: "queue_ok (ready_queue s)" "queue_ok (run_queue s)" using assms by (simp_all add: single_ok_def)
  have full: "length (q_items (ready_queue s)) \<le> MAX_QUEUE_SIZE" "length (q_items (run_queue s)) \<le> MAX_QUEUE_SIZE"
    using ok by (simp_all add: q_items_bounded)
  show thesis
  proof (cases a)
    case Op_get
    then show ?thesis using that [of s] assms full by (simp add: get_proc_single_def)
  next
    case (Op_put p)
    obtain r q where "enqueue (run_queue s) p = Some (r, q)" "queue_ok q" "q_items q = take MAX_QUEUE_SIZE (q_items (run_queue s) @ [p])"
      by (rule enqueue_items [OF ok(2)])
    then show ?thesis using that [of "s\<lparr>run_queue := q\<rparr>"] Op_put ok full by (simp add: put_proc_single_def single_ok_def)
  next
    case (Op_add p)
    obtain r q where "enqueue (ready_queue s) p = Some (r, q)" "queue_ok q" "q_items q = take MAX_QUEUE_SIZE (q_items (ready_queue s) @ [p])"
      by (rule enqueue_items [OF ok(1)])
    then show ?thesis using that [of "s\<lparr>ready_queue := q\<rparr>"] Op_add ok full by (simp add: add_proc_single_def single_ok_def)
  qed
qed

lemma take_take_append: "take n (take n xs @ ys) = take n (xs @ ys)"
  by (simp add: min_def)

lemma run_sched_ok:
  assumes "single_ok s"
  shows "\<exists>s'. run_sched as s = Some ([], s') \<and> single_ok s'
    \<and> q_items (ready_queue s') = take MAX_QUEUE_SIZE (q_items (ready_queue s) @ concat (map op_added as))
    \<and> q_items (run_queue s') = take MAX_QUEUE_SIZE (q_items (run_queue s) @ concat (map op_put as))"
  using assms
proof (induction "as" arbitrary: s)
  case Nil
  have "length (q_items (ready_queue s)) \<le> MAX_QUEUE_SIZE" "length (q_items (run_queue s)) \<le> MAX_QUEUE_SIZE"
    using Nil by (simp_all add: single_ok_def q_items_bounded)
  with Nil show ?case by simp
next
  case (Cons a "as")
  obtain s1 where s1: "do_sched a s = Some (None, s1)" "single_ok s1"
    "q_items (ready_queue s1) = take MAX_QUEUE_SIZE (q_items (ready_queue s) @ op_added a)"
    "q_items (run_queue s1) = take MAX_QUEUE_SIZE (q_items (run_queue s) @ op_put a)"
    by (rule do_sched_ok [OF Cons.prems])
  obtain s' where "run_sched as s1 = Some ([], s')" "single_ok s'"
    "q_items (ready_queue s') = take MAX_QUEUE_SIZE (q_items (ready_queue s1) @ concat (map op_added as))"
    "q_items (run_queue s') = take MAX_QUEUE_SIZE (q_items (run_queue s1) @ concat (map op_put as))"
    using Cons.IH [OF s1(2)] by blast
  with s1(1) show ?case unfolding s1(3,4) take_take_append by simp
qed

section \<open>Properties\<close>

text \<open>
  Without \<open>MLQ_SCHED\<close> nothing is ever dispatched. Whatever the simulator asks of a fresh
  scheduler, no process comes back: the queues only fill, with the first ten processes added
  and the first ten put back, and drop the others.
\<close>

theorem single_queue_only_fills:
  assumes "single_ok s"
  shows "\<exists>s'. run_sched as (init_scheduler_single s) = Some ([], s')
    \<and> q_items (ready_queue s') = take MAX_QUEUE_SIZE (concat (map op_added as))
    \<and> q_items (run_queue s') = take MAX_QUEUE_SIZE (concat (map op_put as))
    \<and> queue_empty_single s' = (concat (map op_added as) = [] \<and> concat (map op_put as) = [])"
proof -
  have init: "single_ok (init_scheduler_single s)" "q_items (ready_queue (init_scheduler_single s)) = []"
    "q_items (run_queue (init_scheduler_single s)) = []"
    using assms by (auto simp: single_ok_def init_scheduler_single_def queue_ok_def q_items_def)
  obtain s' where s': "run_sched as (init_scheduler_single s) = Some ([], s')" "single_ok s'"
    "q_items (ready_queue s') = take MAX_QUEUE_SIZE (concat (map op_added as))"
    "q_items (run_queue s') = take MAX_QUEUE_SIZE (concat (map op_put as))"
    using run_sched_ok [OF init(1), of "as"] init(2,3) by auto
  have "queue_empty_single s' \<longleftrightarrow> q_items (ready_queue s') = [] \<and> q_items (run_queue s') = []"
    using s'(2) by (simp add: queue_empty_single_def single_ok_def rq.is_empty_iff)
  with s' show ?thesis by (simp add: take_eq_Nil MAX_QUEUE_SIZE_def)
qed

theorem single_queue_only_fills_witness:
  "\<exists>s'. run_sched [Op_add pcb0, Op_get, Op_put pcb0, Op_get] (init_scheduler_single \<lparr>ready_queue = queue0, run_queue = queue0\<rparr>) = Some ([], s')
    \<and> q_items (ready_queue s') = [pcb0] \<and> q_items (run_queue s') = [pcb0]"
proof -
  have "single_ok \<lparr>ready_queue = queue0, run_queue = queue0\<rparr>" by (simp add: single_ok_def)
  from single_queue_only_fills [OF this, of "[Op_add pcb0, Op_get, Op_put pcb0, Op_get]"] show ?thesis
    by (auto simp: MAX_QUEUE_SIZE_def)
qed

end
