(* ===== verification/Paging_Main.thy ===== *)
theory Paging_Main
  imports Cpu Loader
begin

text \<open>
  The small driver \<open>src/paging.c\<close>: it loads one program file twice, runs the two processes in
  turns and dumps the legacy memory. It never sets the memory pointers of the processes it
  loads (\<open>src/os.c\<close> does that), so in the build with \<open>MM_PAGING\<close> an instruction that follows
  \<open>proc->mm\<close> is a fault; the address spaces of the two control blocks are out of reach and
  are not part of what its steps use.
\<close>

section \<open>Operations\<close>

text \<open>
  \<open>run\<close> of \<open>src/cpu.c\<close> for a process without memory: \<open>__free\<close> refuses a symbol number
  outside its bounds before it looks at the process, every other memory instruction follows
  the pointer first.
\<close>

definition run_nomm :: "pcb_t \<Rightarrow> (int \<times> pcb_t) option" where
  "run_nomm p =
     (if pc p \<ge> code_size (code p) then Some (1, p)
      else
        do { ins \<leftarrow> list_get (code_text (code p)) (uint (pc p));
             let p1 = p\<lparr>pc := pc p + 1\<rparr>;
             (case opcode ins of
                CALC \<Rightarrow> Some (calc p1, p1)
              | FREE \<Rightarrow> if int_of_u32 (arg_0 ins) < 0 \<or> int_of_u32 (arg_0 ins) > PAGING_MAX_SYMTBL_SZ then Some (-1, p1) else None
              | _ \<Rightarrow> None) })"

fun main_loop :: "nat \<Rightarrow> pcb_t \<Rightarrow> pcb_t \<Rightarrow> (pcb_t \<times> pcb_t) option" where
  "main_loop 0 pr ld = Some (pr, ld)"
| "main_loop (Suc n) pr ld =
     do { (_, proc1) \<leftarrow> run_nomm pr;
          (_, ld1) \<leftarrow> run_nomm ld;
          main_loop n proc1 ld1 }"

text \<open>
  \<open>main\<close>: what it prints, or the error with which the loader exits. The control blocks, the
  instruction arrays and the legacy memory are what the memory contains at the start.
\<close>

definition paging_main :: "pcb_t \<Rightarrow> (nat \<Rightarrow> inst_t) \<Rightarrow> pcb_t \<Rightarrow> (nat \<Rightarrow> inst_t) \<Rightarrow> legacy_mem \<Rightarrow> u32 \<Rightarrow> string option
    \<Rightarrow> (load_error + legacy_line list) option" where
  "paging_main blk1 txt1 blk2 txt2 m avail_pid file =
     do { (r1, avail_pid1) \<leftarrow> load blk1 txt1 avail_pid file;
          (case r1 of
             Inl e \<Rightarrow> Some (Inl e)
           | Inr ld \<Rightarrow>
               do { (r2, _) \<leftarrow> load blk2 txt2 avail_pid1 file;
                    (case r2 of
                       Inl e \<Rightarrow> Some (Inl e)
                     | Inr pr \<Rightarrow>
                         do { _ \<leftarrow> main_loop (unat (code_size (code pr))) pr ld;
                              Some (Inr (dump m)) }) }) }"

section \<open>The instructions it can run\<close>

definition no_memory :: "inst_t \<Rightarrow> bool" where
  "no_memory i \<longleftrightarrow> opcode i = CALC \<or> opcode i = FREE \<and> (int_of_u32 (arg_0 i) < 0 \<or> int_of_u32 (arg_0 i) > PAGING_MAX_SYMTBL_SZ)"

lemma same_no_memory: "same_ins i j \<Longrightarrow> no_memory i = no_memory j"
  by (auto simp: same_ins_def no_memory_def ins_args_def)

lemma run_nomm_at:
  assumes "unat (pc p) < unat (code_size (code p))" and "unat (code_size (code p)) = length (code_text (code p))"
  shows "run_nomm p = (if no_memory (code_text (code p) ! unat (pc p))
    then Some (if opcode (code_text (code p) ! unat (pc p)) = CALC then 0 else -1, p\<lparr>pc := pc p + 1\<rparr>) else None)"
proof -
  define i where "i = code_text (code p) ! unat (pc p)"
  have u: "uint (pc p) = int (unat (pc p))" by (rule uint_nat)
  have i: "list_get (code_text (code p)) (uint (pc p)) = Some i"
    unfolding list_get_eq_Some u nat_int i_def using assms by (simp only: of_nat_0_le_iff of_nat_less_iff simp_thms)
  have "\<not> pc p \<ge> code_size (code p)" using assms(1) by (simp only: word_le_nat_alt)
  then have "run_nomm p = (case opcode i of CALC \<Rightarrow> Some (0, p\<lparr>pc := pc p + 1\<rparr>)
      | FREE \<Rightarrow> if int_of_u32 (arg_0 i) < 0 \<or> int_of_u32 (arg_0 i) > PAGING_MAX_SYMTBL_SZ then Some (-1, p\<lparr>pc := pc p + 1\<rparr>) else None
      | _ \<Rightarrow> None)"
    by (simp only: run_nomm_def i if_False calc_def Let_def Option.bind.bind_lunit)
  also have "\<dots> = (if no_memory i then Some (if opcode i = CALC then 0 else -1, p\<lparr>pc := pc p + 1\<rparr>) else None)"
    by (cases "opcode i") (simp_all only: ins_opcode_t.case ins_opcode_t.distinct no_memory_def simp_thms if_True if_False)
  finally show ?thesis by (simp only: i_def)
qed

text \<open>Two processes at the same instruction of programs that agree.\<close>

lemma main_loop_runs:
  assumes "unat (code_size (code p)) = length (code_text (code p))" and "unat (code_size (code q)) = length (code_text (code q))"
    and "list_all2 same_ins (code_text (code p)) is" and "list_all2 same_ins (code_text (code q)) is"
    and "unat (pc p) = k" "unat (pc q) = k" and "k + n = length is"
  shows "(main_loop n p q \<noteq> None) \<longleftrightarrow> (\<forall>i\<in>set (drop k is). no_memory i)"
  using assms(1,2,3,4,5,6,7)
proof (induction n arbitrary: p q k)
  case (Suc n)
  have len: "length (code_text (code p)) = length is" "length (code_text (code q)) = length is" and k: "k < length is"
    using Suc.prems(3,4,7) by (auto dest: list_all2_lengthD)
  have same: "no_memory (code_text (code p) ! k) = no_memory (is ! k)" "no_memory (code_text (code q) ! k) = no_memory (is ! k)"
    using list_all2_nthD [OF Suc.prems(3)] list_all2_nthD [OF Suc.prems(4)] same_no_memory len k by simp_all
  have drop: "drop k is = is ! k # drop (Suc k) is" using Cons_nth_drop_Suc [OF k] by simp
  have small: "k < 2 ^ 32 - 1" using Suc.prems(1) len k unsigned_less [of "code_size (code p)", where ?'a = nat] by simp
  then have next_pc: "unat (pc p + 1) = Suc k" "unat (pc q + 1) = Suc k"
    using Suc.prems(5,6) by (simp_all add: unat_word_ariths)
  have at: "unat (pc p) < unat (code_size (code p))" "unat (pc q) < unat (code_size (code q))"
    using Suc.prems(1,2,5,6) len k by simp_all
  show ?case
  proof (cases "no_memory (is ! k)")
    case True
    then have "main_loop (Suc n) p q = main_loop n (p\<lparr>pc := pc p + 1\<rparr>) (q\<lparr>pc := pc q + 1\<rparr>)"
      using run_nomm_at [OF at(1) Suc.prems(1)] run_nomm_at [OF at(2) Suc.prems(2)] same Suc.prems(5,6) by simp
    moreover have "main_loop n (p\<lparr>pc := pc p + 1\<rparr>) (q\<lparr>pc := pc q + 1\<rparr>) \<noteq> None \<longleftrightarrow> (\<forall>i\<in>set (drop (Suc k) is). no_memory i)"
      by (rule Suc.IH) (use Suc.prems next_pc in simp_all)
    ultimately show ?thesis using drop True by simp
  next
    case False
    then have "main_loop (Suc n) p q = None"
      using run_nomm_at [OF at(1) Suc.prems(1)] same Suc.prems(5) by simp
    with False drop show ?thesis by simp
  qed
qed simp

section \<open>Properties\<close>

text \<open>
  C40: the driver works on programs without memory only. Given the text of a program it dumps
  the memory as it was, if every instruction is a \<open>calc\<close> or the release of a symbol that
  cannot exist; any other instruction makes it follow a pointer that was never set.
\<close>

theorem paging_main_result:
  assumes "length is < 2 ^ 32"
  shows "paging_main blk1 txt1 blk2 txt2 m k (Some (show_file pri (of_nat (length is)) is))
    = (if \<forall>i\<in>set is. no_memory i then Some (Inr (dump m)) else None)"
proof -
  let ?f = "Some (show_file pri (of_nat (length is)) is)"
  have n: "unat (of_nat (length is) :: u32) = length is" using assms by (simp add: unat_of_nat)
  obtain ld where ld: "load blk1 txt1 k ?f = Some (Inr ld, k + 1)" "pc ld = 0" "code_size (code ld) = of_nat (length is)"
    "list_all2 same_ins (code_text (code ld)) is"
    using load_show [of "is" "of_nat (length is)" blk1 txt1 k pri] n by auto
  obtain pr where pr: "load blk2 txt2 (k + 1) ?f = Some (Inr pr, k + 1 + 1)" "pc pr = 0" "code_size (code pr) = of_nat (length is)"
    "list_all2 same_ins (code_text (code pr)) is"
    using load_show [of "is" "of_nat (length is)" blk2 txt2 "k + 1" pri] n by auto
  have "main_loop (length is) pr ld \<noteq> None \<longleftrightarrow> (\<forall>i\<in>set (drop 0 is). no_memory i)"
    by (rule main_loop_runs) (use ld pr n in \<open>simp_all add: list_all2_lengthD\<close>)
  then show ?thesis using ld(1) pr(1,3) n by (auto simp: paging_main_def split: Option.bind_split)
qed

definition calc_code :: "inst_t list" where
  "calc_code = [\<lparr>opcode = CALC, arg_0 = 0, arg_1 = 0, arg_2 = 0\<rparr>, \<lparr>opcode = FREE, arg_0 = 31, arg_1 = 0, arg_2 = 0\<rparr>]"

theorem paging_main_result_witness:
  "paging_main pcb0 (\<lambda>_. ins0) pcb0 (\<lambda>_. ins0) (init_mem \<lparr>lram = (\<lambda>_. 1), mem_stat = []\<rparr>) 1
     (Some (show_file 2 (of_nat (length calc_code)) calc_code)) = Some (Inr [])"
proof -
  have "length calc_code < 2 ^ 32" "\<forall>i\<in>set calc_code. no_memory i"
    by (simp_all add: calc_code_def no_memory_def PAGING_MAX_SYMTBL_SZ_def int_of_u32_def)
  then show ?thesis using paging_main_result by (simp add: dump_def init_mem_def)
qed

end
