(* ===== verification/Spec2Isabelle.thy ===== *)
theory Spec2Isabelle
  imports Os_Fine_Log First_Fit Pool_Race Single_Queue Paging_Main
begin

text \<open>
  A verification of the operating system simulator in \<open>src/assignment_source_hk231\<close> and of the
  task pool in \<open>src/TA section/BKthreadpool\<close>. Both are programs in C. This theory imports the
  others; the properties stand in the theory of the component they are about.

  \<^bold>\<open>The program.\<close> \<open>os.c\<close> reads a configuration, creates the devices (one RAM, four swaps of
  which the first is used), a timer thread, one thread per processor and a loader thread. The
  loader reads each program file with \<open>loader.c\<close> at its start time, gives the process a memory
  (\<open>init_mm\<close> of \<open>mm.c\<close>) and adds it to the ready queues of \<open>sched.c\<close> (arrays of \<open>queue.c\<close>). A
  processor takes a process, executes one instruction per time slot with \<open>run\<close> of \<open>cpu.c\<close> and
  puts it back when its budget is used up. A memory instruction is a call of \<open>mm-vm.c\<close>, which
  keeps the regions of a process and reaches bytes through a page table; \<open>mm.c\<close> finds frames
  for pages, sends victims to swap and enters frames in the table; the devices and their free
  frames are \<open>mm-memphy.c\<close>. All threads meet in \<open>next_slot\<close> of \<open>timer.c\<close> at the end of a slot.

  \<^bold>\<open>The theories, in the order of the layers.\<close>

  \<^item> \<open>Prelude\<close>: C integers, arrays with bounds, the fault monad, the rewrite collections.
  \<^item> \<open>OS_Types\<close>: the structs and limits of \<open>common.h\<close>, \<open>os-mm.h\<close>, \<open>queue.h\<close>, \<open>os-cfg.h\<close>.
  \<^item> \<open>Bitops\<close>: the macros of \<open>bitops.h\<close> and \<open>mm.h\<close>, and the page table entries of \<open>mm.c\<close>
    (\<open>init_pte\<close>, \<open>pte_set_fpn\<close>, \<open>pte_set_swap\<close>): what is set is what is read.
  \<^item> \<open>Ready_Queue\<close>: \<open>queue.c\<close>; the locale \<open>bounded_fifo\<close>, interpreted by the array.
  \<^item> \<open>Sched\<close>: the multi-level queues of \<open>sched.c\<close>, an abstract scheduler on lists, the
    refinement between them, and the locale \<open>process_pool\<close> with the bound on waiting.
  \<^item> \<open>Single_Queue\<close>: the branch of \<open>sched.c\<close> for builds without \<open>MLQ_SCHED\<close>.
  \<^item> \<open>Memphy\<close>: every function of \<open>mm-memphy.c\<close>; the locales \<open>byte_store\<close> and
    \<open>frame_allocator\<close>.
  \<^item> \<open>Paging\<close>: page lists and frame copies of \<open>mm.c\<close>, page access of \<open>mm-vm.c\<close>
    (\<open>pg_getpage\<close>, \<open>pg_getval\<close>, \<open>pg_setval\<close>); the invariant \<open>vm_ok\<close> of one process relative to
    the frames of the others, and \<open>same_view\<close>, that no byte changes while pages move.
  \<^item> \<open>Flat_Memory\<close>: paging refines a flat array (locale \<open>byte_memory\<close>); page faults.
  \<^item> \<open>Mm\<close>: \<open>alloc_pages_range\<close>, \<open>vmap_page_range\<close>, \<open>vm_map_ram\<close>, \<open>init_mm\<close> and the list dumps.
  \<^item> \<open>Mm_Vm\<close>: regions and the calls of \<open>mm-vm.c\<close> (\<open>__alloc\<close>, \<open>__free\<close>, \<open>__read\<close>, \<open>__write\<close> are
    \<open>mm_alloc\<close>, \<open>mm_free\<close>, \<open>mm_read\<close>, \<open>mm_write\<close>), \<open>free_pcb_memph\<close>, \<open>pgalloc\<close> to \<open>pgwrite\<close>
    with what they print; \<open>mm_ok\<close> is the invariant of pages and regions.
  \<^item> \<open>First_Fit\<close>: the search of the free list against a first-fit allocator on intervals.
  \<^item> \<open>Legacy_Mem\<close>: \<open>mem.c\<close>, compiled and unused.
  \<^item> \<open>Cpu\<close>: \<open>run\<close> of \<open>cpu.c\<close> and the legacy instructions; which instructions are legal.
  \<^item> \<open>Isolation\<close> and \<open>Pool\<close>: all processes on the shared devices, as a list with an
    inductive step relation and as a multiset that grows and shrinks.
  \<^item> \<open>Lock_Steps\<close>, \<open>Lock_Calls\<close>, \<open>Lock_Safe\<close>, \<open>Lock_Access\<close>, \<open>Lock_Grow\<close>, \<open>Lock_Run\<close>,
    \<open>Lock_Programs\<close>, \<open>Lock_Pool\<close>: an instruction as a sequence of steps with at most one
    access to a free list each, and several processors whose steps interleave. \<open>Lock_Steps\<close>
    has actions, what makes one safe and why safe actions can be interleaved; \<open>Lock_Calls\<close>
    has \<open>run\<close> and every call below it as an action, equal to the function when undisturbed;
    the next four show that they are safe, and \<open>Lock_Run\<close> also writes down, without the calls,
    what each instruction prints and does to a flat memory (\<open>ins_effect\<close>); \<open>Lock_Programs\<close> has programs that start and end
    together, \<open>Lock_Pool\<close> a collection of processes that come and go.
  \<^item> \<open>Stdio\<close>, \<open>Loader\<close>, \<open>Os_Config\<close>: what is used of \<open>fscanf\<close>, \<open>loader.c\<close>, and \<open>read_config\<close> of
    \<open>os.c\<close>, each with the round trip from the text that describes its result.
  \<^item> \<open>Timer\<close>: the threads of \<open>timer.c\<close> as interleaved steps, with its lines \<open>Time slot\<close>;
    lock step, no lost wake-up, the number of steps of a slot, every slot announced once.
  \<^item> \<open>Os\<close>: the processor, loader and main threads of \<open>os.c\<close>, with an instruction as one step.
    \<open>Os_Inv\<close> and \<open>Os_Run\<close> hold the invariant and reachability, \<open>Simulator\<close> the properties of
    every run, \<open>Os_Log\<close> the output as a schedule and the shape of the data, \<open>Os_Exit\<close> the way
    to the exit.
  \<^item> \<open>Os_Steps\<close>: the same threads with the steps of \<open>Lock_Calls\<close> inside an instruction, and the
    invariant; \<open>Os_Fine\<close> and \<open>Os_Fine_Log\<close> hold the properties of the whole system.
  \<^item> \<open>Paging_Main\<close>: the small driver \<open>paging.c\<close>.
  \<^item> \<open>Thread_Pool\<close>, \<open>Pool_Race\<close>: \<open>bktask.c\<close>, \<open>bkwrk.c\<close>, \<open>bktpool.c\<close>, \<open>main.c\<close> of the task pool,
    first one call at a time, then with the sample program and its worker running together.

  \<^bold>\<open>Conventions.\<close> A struct is a record, a linked list with one owner a HOL list, a pointer that
  may be null an option. \<open>unsigned int\<close> and \<open>unsigned long\<close> are words of 32 and 64 bits and
  wrap around; an \<open>int\<close> is an integer whose overflow is a fault where the code can reach it.
  \<open>None\<close> as the value of an operation is undefined behaviour: an access out of bounds, a null or
  unset pointer, a signed overflow, the use of an unset variable. So a theorem that an operation
  gives \<open>Some r\<close> says too that the code is safe there. Return codes are values. What the code
  prints is part of the result or of the state; the lines \<open>Time slot\<close> are in the state of the
  timer, all others of the running system in that of the simulator.

  \<^bold>\<open>Steps.\<close> A step of a thread is one call that holds a lock or one test of shared data. In \<open>Os\<close>
  an instruction is a single step. In \<open>Os_Steps\<close> it is one step for each access to a free list,
  whose lock makes it atomic; what a processor does with its own frames and its own process
  belongs to the step before or after, since nobody else looks at these, and what a call
  prints appears when it returns. The copy of a frame is one step too, although the dump of
  another processor can read RAM in between: of a dump only the bytes of its own process are
  specified. A line and the operation on the queues that follows it (\<open>Put_back\<close> and \<open>put_proc\<close>,
  \<open>Loaded\<close> and \<open>add_proc\<close>) are one step; \<open>os.c\<close> prints first, so there the line can come a
  little earlier than here, never later. The theorems hold for every interleaving of such steps. The
  runs of \<open>Os\<close> are runs of \<open>Os_Steps\<close>, so what is shown of the second holds of the first. Two
  things are not the same for both: frames can be lost when the counts of two allocations are
  out of date, and an allocation or a page fault can fail because of what another processor
  does at the same time.

  \<^bold>\<open>Loops and bounds.\<close> The recursive definitions count the turns of the C loops exactly; none
  is cut short by fuel. \<open>prog_act\<close> runs a given number of instructions, any number, and the
  theorems hold for all. The loops of the threads are step relations.

  \<^bold>\<open>Hypotheses.\<close> \<open>malloc\<close> succeeds and what fresh memory contains is a parameter; so are the
  files, the thread numbers that \<open>clone\<close> gives, and the contents of static data where it
  matters. The properties of memory ask for at most 1024 frames of RAM (an entry gives back ten
  bits of its frame number) and 2097152 frames of swap (the bits of the swap field), for
  programs that name symbols of the table, release only symbols in use and stay below the
  4 MB of the address bus (\<open>legal_step\<close>), for a configuration that fits its arrays, and for a null \<open>vm_freerg_list\<close> in
  the area that \<open>init_mm\<close> allocates and does not clear (\<open>booted\<close>). What
  happens otherwise is shown for the cases a program can reach: a double release, a write past a
  region, a symbol number one too large, a full swap, a full queue.

  \<^bold>\<open>What the lemmas show.\<close> Each layer has an invariant that every operation keeps, the result of
  every operation on every branch, and the contract the next layer uses. On top of them: the
  memory of a process is an array of variables that nobody else changes; at every moment of
  every run of the simulator a process has computed what its program computes alone on a flat
  memory; a running simulator never faults or blocks, keeps processes apart and at one place,
  dispatches what an abstract scheduler dispatches and prints a legal schedule; its clock runs
  in lock step; once its threads have left, it exits.

  \<^bold>\<open>Defects.\<close> Modelling showed several, with a theorem where one is reached: an idle processor
  never stops, a finished process keeps its frames for ever, two allocations can lose frames, a
  page fault with a full swap forgets its victim, a second release of a symbol makes two
  variables share bytes, accesses are not checked against the end of a region, the task pool
  loses a task and calls with a null argument. The statements say what the code does.

  \<^bold>\<open>Not modelled.\<close> Code that the configuration leaves out: the dumps under \<open>SCHED_DUMP\<close>, \<open>VMDBG\<close>,
  \<open>MMDBG\<close>, \<open>PAGING_DBG\<close> and \<open>DEBUG\<close>, the configuration with \<open>MM_FIXED_MEMSZ\<close>, and the macros
  that no function uses. The loader's \<open>exit\<close> while other threads run ends the model at once. The
  memory model of C for unlocked data (\<open>done\<close>, the clock, the worker's record) is taken to be
  sequentially consistent.
  \<open>attach_event\<close> and \<open>start_timer\<close> run before the processors and the loader exist; they are
  the definition of the initial state and are not interleaved with the timer thread.
\<close>

end
